(* ===== verification/Prelude.thy ===== *)
theory Prelude
  imports Main "HOL-Library.Char_ord" "HOL-Library.List_Lexorder"
    "HOL-Library.Product_Lexorder" "HOL-Library.AList" "HOL-Library.Code_Target_Nat"
begin

text \<open>
  Shared vocabulary of the development.

  \<^item> \<open>usize\<close> arithmetic: the saturating operations of a 64-bit \<open>usize\<close>, on \<open>nat\<close> with the
    bound written out.
  \<^item> Rust's ordered collections: a \<open>BTreeMap\<close> is a strictly key-sorted association list, a
    \<open>BTreeSet\<close> a strictly sorted list, so that iteration order is the order of the list. A
    \<open>HashMap\<close> is an association list with distinct keys, whose order no definition depends on.
    The interface the clients use is the locale \<open>keyed_map\<close>, interpreted for both.
  \<^item> Fallible stateful code: functions \<open>'s \<Rightarrow> 'e + ('a \<times> 's)\<close> (the state is discarded on an
    error, as the callers of the code discard it), with the judgement \<open>runs\<close>, which says of every
    run that it ends in an error or a value of the given kind.
  \<^item> Strings are their UTF-8 bytes, \<open>string\<close>; \<open>length\<close> is then \<open>str::len\<close> and the
    lexicographic order of List_Lexorder is the order of \<open>str\<close>.
\<close>

section \<open>Collections of shared facts\<close>

named_theorems sat_defs \<open>definitions of the saturating operations\<close>
named_theorems runs_intros \<open>rules that decompose a \<open>runs\<close> goal along the program text\<close>

section \<open>usize\<close>

definition usize_max :: nat where
  "usize_max = 2 ^ 64 - 1"

lemma usize_max_code [code]: "usize_max = 18446744073709551615"
  by (simp add: usize_max_def)

definition sat_add :: "nat \<Rightarrow> nat \<Rightarrow> nat" where
  [sat_defs]: "sat_add a b = min usize_max (a + b)"

definition sat_sub :: "nat \<Rightarrow> nat \<Rightarrow> nat" where
  [sat_defs]: "sat_sub a b = a - b"

definition sat_mul :: "nat \<Rightarrow> nat \<Rightarrow> nat" where
  [sat_defs]: "sat_mul a b = min usize_max (a * b)"

definition sat_sum :: "nat \<Rightarrow> nat list \<Rightarrow> nat" where
  "sat_sum z xs = foldl sat_add z xs"

lemma sat_add_le_max [simp]: "sat_add a b \<le> usize_max"
  by (simp add: sat_add_def)

lemma sat_mul_le_max [simp]: "sat_mul a b \<le> usize_max"
  by (simp add: sat_mul_def)

lemma sat_add_assoc: "sat_add (sat_add a b) c = sat_add a (sat_add b c)"
  by (simp add: sat_add_def min_def)

lemma sat_add_commute: "sat_add a b = sat_add b a"
  by (simp add: sat_add_def add.commute)

lemma sat_add_exact: "a + b \<le> usize_max \<Longrightarrow> sat_add a b = a + b"
  by (simp add: sat_add_def)

lemma sat_sum_Nil [simp]: "sat_sum z [] = z"
  by (simp add: sat_sum_def)

lemma sat_sum_Cons [simp]: "sat_sum z (x # xs) = sat_sum (sat_add z x) xs"
  by (simp add: sat_sum_def)

lemma sat_sum_le_max: "z \<le> usize_max \<Longrightarrow> sat_sum z xs \<le> usize_max"
  by (induction xs arbitrary: z) simp_all

lemma sat_sum_eq: "z \<le> usize_max \<Longrightarrow> sat_sum z xs = min usize_max (z + sum_list xs)"
  by (induction xs arbitrary: z) (auto simp: sat_add_def min_def)

section \<open>Ordered maps and sets\<close>

type_synonym ('k, 'v) btree_map = "('k \<times> 'v) list"
type_synonym 'k btree_set = "'k list"
type_synonym ('k, 'v) hash_map = "('k \<times> 'v) list"

fun btm_insert :: "'k::linorder \<Rightarrow> 'v \<Rightarrow> ('k, 'v) btree_map \<Rightarrow> ('k, 'v) btree_map" where
  "btm_insert k v [] = [(k, v)]"
| "btm_insert k v ((k', v') # m) =
     (if k < k' then (k, v) # (k', v') # m
      else if k = k' then (k, v) # m
      else (k', v') # btm_insert k v m)"

definition btm_wf :: "('k::linorder, 'v) btree_map \<Rightarrow> bool" where
  "btm_wf m \<longleftrightarrow> sorted_wrt (<) (map fst m)"

fun bts_insert :: "'k::linorder \<Rightarrow> 'k btree_set \<Rightarrow> 'k btree_set" where
  "bts_insert x [] = [x]"
| "bts_insert x (y # ys) =
     (if x < y then x # y # ys
      else if x = y then y # ys
      else y # bts_insert x ys)"

abbreviation bts_wf :: "'k::linorder btree_set \<Rightarrow> bool" where
  "bts_wf xs \<equiv> sorted_wrt (<) xs"

lemma map_of_btm_insert [simp]: "map_of (btm_insert k v m) = (map_of m)(k \<mapsto> v)"
  by (induction k v m rule: btm_insert.induct) (auto simp: fun_eq_iff)

lemma fst_set_btm_insert [simp]: "fst ` set (btm_insert k v m) = insert k (fst ` set m)"
  by (induction k v m rule: btm_insert.induct) auto

lemma btm_wf_Nil [simp]: "btm_wf []"
  by (simp add: btm_wf_def)

lemma btm_wf_insert: "btm_wf m \<Longrightarrow> btm_wf (btm_insert k v m)"
  unfolding btm_wf_def
  by (induction k v m rule: btm_insert.induct) (auto simp flip: image_set)

lemma btm_wf_distinct: "btm_wf m \<Longrightarrow> distinct (map fst m)"
  by (auto simp: btm_wf_def strict_sorted_iff)

lemma set_bts_insert [simp]: "set (bts_insert x xs) = insert x (set xs)"
  by (induction x xs rule: bts_insert.induct) auto

lemma bts_wf_insert: "bts_wf xs \<Longrightarrow> bts_wf (bts_insert x xs)"
  by (induction x xs rule: bts_insert.induct) auto

lemma bts_insert_absorb: "bts_wf xs \<Longrightarrow> x \<in> set xs \<Longrightarrow> bts_insert x xs = xs"
  by (induction x xs rule: bts_insert.induct) (auto dest: less_asym)

lemma length_bts_insert:
  "bts_wf xs \<Longrightarrow> length (bts_insert x xs) = (if x \<in> set xs then length xs else Suc (length xs))"
  by (induction x xs rule: bts_insert.induct) (auto dest: less_asym)

lemma bts_wf_unique: "bts_wf xs \<Longrightarrow> bts_wf ys \<Longrightarrow> set xs = set ys \<Longrightarrow> xs = ys"
  by (simp add: strict_sorted_equal)

text \<open>
  What the clients of a Rust map rely on: a lookup after an insert, and that iterating visits
  each entry once.
\<close>

locale keyed_map =
  fixes empty :: 'm
    and put :: "'k \<Rightarrow> 'v \<Rightarrow> 'm \<Rightarrow> 'm"
    and get :: "'m \<Rightarrow> 'k \<Rightarrow> 'v option"
    and entries :: "'m \<Rightarrow> ('k \<times> 'v) list"
    and wf :: "'m \<Rightarrow> bool"
  assumes get_empty: "get empty k = None"
    and get_put: "wf m \<Longrightarrow> get (put k v m) k' = (if k' = k then Some v else get m k')"
    and wf_empty: "wf empty"
    and wf_put: "wf m \<Longrightarrow> wf (put k v m)"
    and entries_get: "wf m \<Longrightarrow> (k, v) \<in> set (entries m) \<longleftrightarrow> get m k = Some v"
    and entries_distinct: "wf m \<Longrightarrow> distinct (map fst (entries m))"
begin

lemma fst_entries: "wf m \<Longrightarrow> fst ` set (entries m) = {k. get m k \<noteq> None}"
proof (intro set_eqI iffI)
  fix k
  assume "wf m" and "k \<in> {k. get m k \<noteq> None}"
  then obtain v where "(k, v) \<in> set (entries m)" by (auto simp: entries_get)
  then show "k \<in> fst ` set (entries m)" by (rule rev_image_eqI) simp
qed (auto simp: entries_get)

lemma length_entries:
  assumes "wf m"
  shows "length (entries m) = card {k. get m k \<noteq> None}"
  using entries_distinct [OF assms] distinct_card [of "map fst (entries m)"]
  by (simp add: fst_entries [OF assms])

lemma finite_keys:
  assumes "wf m"
  shows "finite {k. get m k \<noteq> None}"
  unfolding fst_entries [OF assms, symmetric] by simp

lemma length_put:
  assumes "wf m"
  shows "length (entries (put k v m)) =
    (if get m k = None then Suc (length (entries m)) else length (entries m))"
proof -
  have "{k'. get (put k v m) k' \<noteq> None} = insert k {k'. get m k' \<noteq> None}"
    using assms by (auto simp: get_put)
  then show ?thesis
    using assms finite_keys [OF assms] by (simp add: length_entries wf_put card_insert_if)
qed

lemma wf_put_all: "wf m \<Longrightarrow> wf (foldl (\<lambda>m' (k, v). put k v m') m kvs)"
  by (induction kvs arbitrary: m) (auto simp: wf_put)

lemma get_put_all:
  "wf m \<Longrightarrow> get (foldl (\<lambda>m' (k, v). put k v m') m kvs) k =
    (case map_of (rev kvs) k of None \<Rightarrow> get m k | Some v \<Rightarrow> Some v)"
  by (induction kvs arbitrary: m) (auto simp: wf_put get_put map_add_def split: option.splits)

end

interpretation btree: keyed_map "[]" btm_insert map_of "\<lambda>m. m" btm_wf
  by unfold_locales (auto simp: btm_wf_insert btm_wf_distinct)

interpretation hash: keyed_map "[]" AList.update map_of "\<lambda>m. m" "\<lambda>m. distinct (map fst m)"
  by unfold_locales (auto simp: update_conv' distinct_update)

text \<open>A sorted map is determined by its lookups.\<close>

lemma btm_wf_unique:
  assumes "btm_wf m" and "btm_wf n" and "map_of m = map_of n"
  shows "m = n"
proof -
  have *: "l = map (\<lambda>k. (k, the (map_of l k))) (map fst l)" if "btm_wf l" for l :: "('a, 'b) btree_map"
    unfolding map_map using btm_wf_distinct [OF that] by (intro map_idI [symmetric]) force
  have "fst ` set m = fst ` set n"
    using assms(3) by (metis dom_map_of_conv_image_fst)
  then have "map fst m = map fst n"
    using assms(1,2) by (intro bts_wf_unique) (simp_all add: btm_wf_def)
  with * [OF assms(1)] * [OF assms(2)] assms(3) show ?thesis by simp
qed

section \<open>Fallible stateful code\<close>

type_synonym ('s, 'e, 'a) fallible = "'s \<Rightarrow> 'e + ('a \<times> 's)"

definition ok :: "'a \<Rightarrow> ('s, 'e, 'a) fallible" where
  "ok x = (\<lambda>s. Inr (x, s))"

definition err :: "'e \<Rightarrow> ('s, 'e, 'a) fallible" where
  "err e = (\<lambda>s. Inl e)"

definition bind :: "('s, 'e, 'a) fallible \<Rightarrow> ('a \<Rightarrow> ('s, 'e, 'b) fallible) \<Rightarrow> ('s, 'e, 'b) fallible" where
  "bind m f = (\<lambda>s. case m s of Inl e \<Rightarrow> Inl e | Inr (x, s') \<Rightarrow> f x s')"

abbreviation andthen :: "('s, 'e, 'a) fallible \<Rightarrow> ('s, 'e, 'b) fallible \<Rightarrow> ('s, 'e, 'b) fallible" where
  "andthen m n \<equiv> bind m (\<lambda>_. n)"

definition map_err :: "('e \<Rightarrow> 'f) \<Rightarrow> ('s, 'e, 'a) fallible \<Rightarrow> ('s, 'f, 'a) fallible" where
  "map_err g m = (\<lambda>s. case m s of Inl e \<Rightarrow> Inl (g e) | Inr r \<Rightarrow> Inr r)"

text \<open>\<open>Option\<close> values where \<open>None\<close> stands for the error \<open>e\<close>.\<close>

definition expect :: "'e \<Rightarrow> 'a option \<Rightarrow> ('s, 'e, 'a) fallible" where
  "expect e x = (case x of None \<Rightarrow> err e | Some v \<Rightarrow> ok v)"

text \<open>Indexing \<open>xs[i]\<close>, with \<open>None\<close> for an index out of range.\<close>

definition nth_opt :: "'a list \<Rightarrow> nat \<Rightarrow> 'a option" where
  "nth_opt xs i = (if i < length xs then Some (xs ! i) else None)"

lemma nth_opt_eq_Some [simp]: "nth_opt xs i = Some x \<longleftrightarrow> i < length xs \<and> xs ! i = x"
  by (auto simp: nth_opt_def)

lemma nth_opt_eq_None [simp]: "nth_opt xs i = None \<longleftrightarrow> length xs \<le> i"
  by (auto simp: nth_opt_def)

text \<open>A \<open>for\<close> loop whose body updates the accumulator and may return early with an error.\<close>

fun for_each :: "('x \<Rightarrow> 'a \<Rightarrow> ('s, 'e, 'a) fallible) \<Rightarrow> 'x list \<Rightarrow> 'a \<Rightarrow> ('s, 'e, 'a) fallible" where
  "for_each f [] a = ok a"
| "for_each f (x # xs) a = bind (f x a) (for_each f xs)"

text \<open>
  A \<open>while\<close> loop. The number of passes is bounded by the first argument; the error \<open>e\<close> stands
  for a loop that is still running after them.
\<close>

fun while_loop ::
  "nat \<Rightarrow> 'e \<Rightarrow> ('a \<Rightarrow> bool) \<Rightarrow> ('a \<Rightarrow> ('s, 'e, 'a) fallible) \<Rightarrow> 'a \<Rightarrow> ('s, 'e, 'a) fallible" where
  "while_loop 0 e c body a = (if c a then err e else ok a)"
| "while_loop (Suc n) e c body a = (if c a then bind (body a) (while_loop n e c body) else ok a)"

text \<open>An assignment to the state.\<close>

definition modify :: "('s \<Rightarrow> 's) \<Rightarrow> ('s, 'e, unit) fallible" where
  "modify f = (\<lambda>s. Inr ((), f s))"

text \<open>
  \<open>runs m E Q\<close>: from every state, \<open>m\<close> ends with an error satisfying \<open>E\<close> or with a value
  satisfying \<open>Q\<close>.
\<close>

definition runs :: "('s, 'e, 'a) fallible \<Rightarrow> ('e \<Rightarrow> bool) \<Rightarrow> ('a \<Rightarrow> bool) \<Rightarrow> bool" where
  "runs m E Q \<longleftrightarrow> (\<forall>s e. m s = Inl e \<longrightarrow> E e) \<and> (\<forall>s x s'. m s = Inr (x, s') \<longrightarrow> Q x)"

lemma bind_Inl_iff:
  "bind m f s = Inl e \<longleftrightarrow> m s = Inl e \<or> (\<exists>x s'. m s = Inr (x, s') \<and> f x s' = Inl e)"
  by (auto simp: bind_def split: sum.splits)

lemma bind_Inr_iff: "bind m f s = Inr r \<longleftrightarrow> (\<exists>x s'. m s = Inr (x, s') \<and> f x s' = Inr r)"
  by (auto simp: bind_def split: sum.splits)

lemma bind_ok [simp]: "bind (ok x) f = f x"
  by (simp add: bind_def ok_def)

lemma bind_err [simp]: "bind (err e) f = err e"
  by (simp add: bind_def err_def)

lemma expect_simps [simp]: "expect e (Some v) = ok v" "expect e None = err e"
  by (simp_all add: expect_def)

lemma runs_ok [runs_intros]: "Q x \<Longrightarrow> runs (ok x) E Q"
  by (simp add: runs_def ok_def)

lemma runs_err [runs_intros]: "E e \<Longrightarrow> runs (err e) E Q"
  by (simp add: runs_def err_def)

lemma runs_ok_iff [simp]: "runs (ok x) E Q \<longleftrightarrow> Q x" and runs_err_iff [simp]: "runs (err e) E Q \<longleftrightarrow> E e"
  by (simp_all add: runs_def ok_def err_def)

lemma runs_bind:
  "runs m E R \<Longrightarrow> (\<And>x. R x \<Longrightarrow> runs (f x) E Q) \<Longrightarrow> runs (bind m f) E Q"
  unfolding runs_def bind_Inl_iff bind_Inr_iff by blast

lemma runs_expect [runs_intros]:
  "(x = None \<Longrightarrow> E e) \<Longrightarrow> (\<And>v. x = Some v \<Longrightarrow> Q v) \<Longrightarrow> runs (expect e x) E Q"
  by (cases x) (auto simp: expect_def intro: runs_ok runs_err)

lemma runs_map_err: "runs m (\<lambda>e. E (g e)) Q \<Longrightarrow> runs (map_err g m) E Q"
  unfolding runs_def map_err_def by (auto split: sum.splits)

lemma runs_if [runs_intros]:
  "(b \<Longrightarrow> runs m E Q) \<Longrightarrow> (\<not> b \<Longrightarrow> runs n E Q) \<Longrightarrow> runs (if b then m else n) E Q"
  by simp

lemma runs_weaken: "runs m E Q \<Longrightarrow> (\<And>e. E e \<Longrightarrow> E' e) \<Longrightarrow> (\<And>x. Q x \<Longrightarrow> Q' x) \<Longrightarrow> runs m E' Q'"
  unfolding runs_def by blast

lemma runs_conj: "runs m E Q \<Longrightarrow> runs m E R \<Longrightarrow> runs m E (\<lambda>x. Q x \<and> R x)"
  unfolding runs_def by blast

lemma runs_Inr: "runs m E Q \<Longrightarrow> m s = Inr (x, s') \<Longrightarrow> Q x"
  unfolding runs_def by blast

lemma runs_Inl: "runs m E Q \<Longrightarrow> m s = Inl e \<Longrightarrow> E e"
  unfolding runs_def by blast

text \<open>
  The loop rule: the invariant relates the elements done, the elements left and the accumulator.
\<close>

lemma runs_for_each_split:
  assumes "I [] xs a"
    and "\<And>done x rest acc. xs = done @ x # rest \<Longrightarrow> I done (x # rest) acc \<Longrightarrow>
      runs (f x acc) E (I (done @ [x]) rest)"
    and "\<And>acc. I xs [] acc \<Longrightarrow> Q acc"
  shows "runs (for_each f xs a) E Q"
proof -
  have "runs (for_each f rest acc) E Q" if "xs = done @ rest" "I done rest acc" for "done" rest acc
    using that
  proof (induction rest arbitrary: "done" acc)
    case Nil
    then show ?case by (auto intro: runs_ok assms(3))
  next
    case (Cons x rest)
    have "runs (f x acc) E (I (done @ [x]) rest)"
      using assms(2) Cons.prems by blast
    moreover have "runs (for_each f rest acc') E Q" if "I (done @ [x]) rest acc'" for acc'
      using Cons.IH [of "done @ [x]"] Cons.prems(1) that by simp
    ultimately show ?case by (simp add: runs_bind)
  qed
  with assms(1) show ?thesis by simp
qed

lemma runs_for_each:
  assumes "I {} a"
    and "\<And>A x acc. x \<in> set xs \<Longrightarrow> A \<subseteq> set xs \<Longrightarrow> I A acc \<Longrightarrow> runs (f x acc) E (I (insert x A))"
    and "\<And>acc. I (set xs) acc \<Longrightarrow> Q acc"
  shows "runs (for_each f xs a) E Q"
  by (rule runs_for_each_split [where I = "\<lambda>done rest. I (set done)"])
    (use assms in auto)

lemma runs_for_each_inv:
  assumes "I a" and "\<And>x acc. x \<in> set xs \<Longrightarrow> I acc \<Longrightarrow> runs (f x acc) E I"
  shows "runs (for_each f xs a) E I"
  by (rule runs_for_each [where I = "\<lambda>_. I"]) (use assms in auto)

text \<open>A loop whose measure fits the bound never reports \<open>e\<close>: the bound is enough.\<close>

lemma runs_while_loop:
  assumes "I a" and "m a \<le> n"
    and "\<And>a. I a \<Longrightarrow> c a \<Longrightarrow> 0 < m a"
    and "\<And>a. I a \<Longrightarrow> c a \<Longrightarrow> runs (body a) E (\<lambda>a'. I a' \<and> m a' < m a)"
  shows "runs (while_loop n e c body a) E (\<lambda>a'. I a' \<and> \<not> c a')"
  using assms(1,2)
proof (induction n arbitrary: a)
  case 0
  then have "\<not> c a" using assms(3) [of a] by auto
  with 0 show ?case by (auto intro: runs_ok)
next
  case (Suc n)
  have "runs (while_loop n e c body a') E (\<lambda>a'. I a' \<and> \<not> c a')" if "I a' \<and> m a' < m a" for a'
    using Suc that by simp
  with Suc.prems assms(4) show ?case by (auto intro: runs_bind runs_ok)
qed

lemma runs_modify [runs_intros]: "Q () \<Longrightarrow> runs (modify f) E Q"
  by (simp add: runs_def modify_def)

lemma runs_andthen_modify: "runs m E Q \<Longrightarrow> runs (andthen (modify f) m) E Q"
  by (rule runs_bind [where R = "\<lambda>_. True"]) (auto intro: runs_intros)

text \<open>State-dependent reasoning: an invariant of the state that every run keeps.\<close>

definition keeps :: "('s \<Rightarrow> bool) \<Rightarrow> ('s, 'e, 'a) fallible \<Rightarrow> bool" where
  "keeps I m \<longleftrightarrow> (\<forall>s x s'. I s \<longrightarrow> m s = Inr (x, s') \<longrightarrow> I s')"

named_theorems keeps_intros \<open>rules that decompose a \<open>keeps\<close> goal\<close>

lemma keeps_ok [keeps_intros]: "keeps I (ok x)"
  by (simp add: keeps_def ok_def)

lemma keeps_err [keeps_intros]: "keeps I (err e)"
  by (simp add: keeps_def err_def)

lemma keeps_bind [keeps_intros]: "keeps I m \<Longrightarrow> (\<And>x. keeps I (f x)) \<Longrightarrow> keeps I (bind m f)"
  unfolding keeps_def bind_Inr_iff by blast

lemma keeps_expect [keeps_intros]: "keeps I (expect e x)"
  by (cases x) (auto simp: expect_def intro: keeps_ok keeps_err)

lemma keeps_map_err [keeps_intros]: "keeps I m \<Longrightarrow> keeps I (map_err g m)"
  unfolding keeps_def map_err_def by (auto split: sum.splits)

lemma keeps_if [keeps_intros]: "keeps I m \<Longrightarrow> keeps I n \<Longrightarrow> keeps I (if b then m else n)"
  by simp

lemma keeps_modify: "(\<And>s. I s \<Longrightarrow> I (f s)) \<Longrightarrow> keeps I (modify f)"
  by (simp add: keeps_def modify_def)

lemma keeps_while_loop [keeps_intros]: "(\<And>a. keeps I (body a)) \<Longrightarrow> keeps I (while_loop n e c body a)"
  by (induction n arbitrary: a) (auto intro: keeps_intros)

lemma keeps_for_each [keeps_intros]: "(\<And>x a. keeps I (f x a)) \<Longrightarrow> keeps I (for_each f xs a)"
  by (induction xs arbitrary: a) (auto intro: keeps_intros)

end
