(* ===== verification/Rdf_Terms.thy ===== *)
theory Rdf_Terms
  imports Prelude
begin

text \<open>
  The RDF terms of the \<open>oxrdf\<close> crate (with its \<open>rdf-12\<close> feature) and their \<open>Display\<close>
  implementations, which the Datalog engine uses as sort keys and size estimates. Strings are
  UTF-8 byte strings. A \<open>*Ref\<close> type of the crate is a borrowed copy of the owned type and
  has the owned type's model.
\<close>

section \<open>Numerals\<close>

definition digit_char :: "nat \<Rightarrow> char" where
  "digit_char d = char_of (if d < 10 then 48 + d else 87 + d)"

text \<open>\<open>to_string\<close> of an unsigned integer, and the \<open>{:x}\<close> format.\<close>

fun show_base :: "nat \<Rightarrow> nat \<Rightarrow> string" where
  "show_base b n =
     (if n < b \<or> b < 2 then [digit_char n] else show_base b (n div b) @ [digit_char (n mod b)])"

declare show_base.simps [simp del]

definition show_nat :: "nat \<Rightarrow> string" where
  "show_nat n = show_base 10 n"

definition show_hex :: "nat \<Rightarrow> string" where
  "show_hex n = show_base 16 n"

section \<open>Terms\<close>

record NamedNode =
  iri :: string

definition NamedNode_new_unchecked :: "string \<Rightarrow> NamedNode" where
  "NamedNode_new_unchecked s = \<lparr>iri = s\<rparr>"

text \<open>
  The \<open>str\<close> field of \<open>BlankNodeContent::Anonymous\<close> is the hexadecimal form of its
  \<open>id\<close>, fixed by every constructor, so the model keeps the \<open>u128\<close> identifier only.
\<close>

datatype BlankNode = BNamed string | BAnonymous nat

datatype BaseDirection = Ltr | Rtl

datatype Literal =
    LString string
  | LanguageTaggedString string string
  | DirectionalLanguageTaggedString string string BaseDirection
  | TypedLiteral string NamedNode

datatype NamedOrBlankNode = NobNamedNode NamedNode | NobBlankNode BlankNode

datatype Term =
    TNamedNode NamedNode
  | TBlankNode BlankNode
  | TLiteral Literal
  | TTriple Triple
and Triple = TripleNew NamedOrBlankNode NamedNode Term

datatype GraphName = GNamedNode NamedNode | GBlankNode BlankNode | GDefaultGraph

record Quad =
  subject :: NamedOrBlankNode
  predicate :: NamedNode
  object :: Term
  graph_name :: GraphName

fun term_of_node :: "NamedOrBlankNode \<Rightarrow> Term" where
  "term_of_node (NobNamedNode n) = TNamedNode n"
| "term_of_node (NobBlankNode b) = TBlankNode b"

section \<open>Blank node identifiers\<close>

definition u128_max :: nat where
  "u128_max = 2 ^ 128 - 1"

text \<open>The value of one byte of an identifier: \<open>b'0'..=b'9'\<close> or \<open>b'a'..=b'f'\<close>.\<close>

definition hex_digit :: "char \<Rightarrow> nat option" where
  "hex_digit c = (let b = (of_char c :: nat) in
     if 48 \<le> b \<and> b \<le> 57 then Some (b - 48)
     else if 97 \<le> b \<and> b \<le> 102 then Some (b - 97 + 10)
     else None)"

fun integer_id_loop :: "nat \<Rightarrow> string \<Rightarrow> nat option" where
  "integer_id_loop value [] = Some value"
| "integer_id_loop value (c # cs) =
     (if value * 16 > u128_max then None
      else case hex_digit c of
        None \<Rightarrow> None
      | Some d \<Rightarrow> if value * 16 + d > u128_max then None else integer_id_loop (value * 16 + d) cs)"

definition to_integer_id :: "string \<Rightarrow> nat option" where
  "to_integer_id ident =
     (case ident of [] \<Rightarrow> None
      | c # _ \<Rightarrow> if c = CHR ''0'' then None else integer_id_loop 0 ident)"

definition BlankNode_new_from_unique_id :: "nat \<Rightarrow> BlankNode" where
  "BlankNode_new_from_unique_id ident = BAnonymous ident"

definition BlankNode_new_unchecked :: "string \<Rightarrow> BlankNode" where
  "BlankNode_new_unchecked ident =
     (case to_integer_id ident of
        Some numerical_id \<Rightarrow> BlankNode_new_from_unique_id numerical_id
      | None \<Rightarrow> BNamed ident)"

fun BlankNode_as_str :: "BlankNode \<Rightarrow> string" where
  "BlankNode_as_str (BNamed ident) = ident"
| "BlankNode_as_str (BAnonymous ident) = show_hex ident"

fun BlankNode_unique_id :: "BlankNode \<Rightarrow> nat option" where
  "BlankNode_unique_id (BNamed ident) = None"
| "BlankNode_unique_id (BAnonymous ident) = Some ident"

section \<open>Display\<close>

definition backslash :: char where
  "backslash = CHR 0x5C"

definition dquote :: char where
  "dquote = CHR 0x22"

definition hex_upper :: "nat \<Rightarrow> char" where
  "hex_upper d = char_of (if d < 10 then 48 + d else 55 + d)"

text \<open>
  \<open>print_quoted_str\<close> matches on the characters of the string. On its UTF-8 bytes the two
  noncharacters U+FFFE and U+FFFF are the sequences EF BF BE and EF BF BF; every other
  character it escapes is a single byte.
\<close>

fun escape_chars :: "string \<Rightarrow> string" where
  "escape_chars [] = []"
| "escape_chars (c # cs) =
     (if c = CHR 0x08 then [backslash, CHR ''b''] @ escape_chars cs
      else if c = CHR 0x09 then [backslash, CHR ''t''] @ escape_chars cs
      else if c = CHR 0x0A then [backslash, CHR ''n''] @ escape_chars cs
      else if c = CHR 0x0C then [backslash, CHR ''f''] @ escape_chars cs
      else if c = CHR 0x0D then [backslash, CHR ''r''] @ escape_chars cs
      else if c = dquote then [backslash, dquote] @ escape_chars cs
      else if c = backslash then [backslash, backslash] @ escape_chars cs
      else if of_char c < (32::nat) \<or> c = CHR 0x7F then
        [backslash] @ ''u00'' @ [hex_upper (of_char c div 16), hex_upper (of_char c mod 16)]
          @ escape_chars cs
      else if c = CHR 0xEF \<and> take 2 cs = [CHR 0xBF, CHR 0xBE] then
        [backslash] @ ''uFFFE'' @ escape_chars (drop 2 cs)
      else if c = CHR 0xEF \<and> take 2 cs = [CHR 0xBF, CHR 0xBF] then
        [backslash] @ ''uFFFF'' @ escape_chars (drop 2 cs)
      else c # escape_chars cs)"

definition print_quoted_str :: "string \<Rightarrow> string" where
  "print_quoted_str s = [dquote] @ escape_chars s @ [dquote]"

definition NamedNode_fmt :: "NamedNode \<Rightarrow> string" where
  "NamedNode_fmt n = ''<'' @ iri n @ ''>''"

definition BlankNode_fmt :: "BlankNode \<Rightarrow> string" where
  "BlankNode_fmt b = ''_:'' @ BlankNode_as_str b"

fun BaseDirection_fmt :: "BaseDirection \<Rightarrow> string" where
  "BaseDirection_fmt Ltr = ''ltr''"
| "BaseDirection_fmt Rtl = ''rtl''"

fun Literal_fmt :: "Literal \<Rightarrow> string" where
  "Literal_fmt (LString value) = print_quoted_str value"
| "Literal_fmt (LanguageTaggedString value language) = print_quoted_str value @ ''@'' @ language"
| "Literal_fmt (DirectionalLanguageTaggedString value language direction) =
     print_quoted_str value @ ''@'' @ language @ ''--'' @ BaseDirection_fmt direction"
| "Literal_fmt (TypedLiteral value datatype) =
     print_quoted_str value @ ''^^'' @ NamedNode_fmt datatype"

fun NamedOrBlankNode_fmt :: "NamedOrBlankNode \<Rightarrow> string" where
  "NamedOrBlankNode_fmt (NobNamedNode node) = NamedNode_fmt node"
| "NamedOrBlankNode_fmt (NobBlankNode node) = BlankNode_fmt node"

fun Term_fmt :: "Term \<Rightarrow> string"
  and Triple_fmt :: "Triple \<Rightarrow> string" where
  "Term_fmt (TNamedNode node) = NamedNode_fmt node"
| "Term_fmt (TBlankNode node) = BlankNode_fmt node"
| "Term_fmt (TLiteral literal) = Literal_fmt literal"
| "Term_fmt (TTriple triple) = ''<<( '' @ Triple_fmt triple @ '' )>>''"
| "Triple_fmt (TripleNew s p ob) =
     NamedOrBlankNode_fmt s @ '' '' @ NamedNode_fmt p @ '' '' @ Term_fmt ob"

fun GraphName_fmt :: "GraphName \<Rightarrow> string" where
  "GraphName_fmt (GNamedNode node) = NamedNode_fmt node"
| "GraphName_fmt (GBlankNode node) = BlankNode_fmt node"
| "GraphName_fmt GDefaultGraph = ''DEFAULT''"

definition Quad_fmt :: "Quad \<Rightarrow> string" where
  "Quad_fmt q =
     (if graph_name q = GDefaultGraph then
        NamedOrBlankNode_fmt (subject q) @ '' '' @ NamedNode_fmt (predicate q) @ '' ''
          @ Term_fmt (object q)
      else
        NamedOrBlankNode_fmt (subject q) @ '' '' @ NamedNode_fmt (predicate q) @ '' ''
          @ Term_fmt (object q) @ '' '' @ GraphName_fmt (graph_name q))"

section \<open>Numerals read back\<close>

lemma of_char_digit: "d < 36 \<Longrightarrow> of_char (digit_char d) = (if d < 10 then 48 + d else 87 + d)"
  by (simp add: digit_char_def)

lemma digit_char_0 [simp]: "digit_char 0 = CHR ''0''"
  by code_simp

lemma hex_digit_digit_char: "d < 16 \<Longrightarrow> hex_digit (digit_char d) = Some d"
  by (auto simp: hex_digit_def of_char_digit Let_def)

lemma hex_digit_SomeD:
  assumes "hex_digit c = Some d"
  shows "d < 16" and "c = digit_char d"
proof -
  have "of_char c = (if d < 10 then 48 + d else 87 + d) \<and> d < 16"
    using assms by (auto simp: hex_digit_def Let_def split: if_splits)
  then show "d < 16" and "c = digit_char d"
    by (auto simp: digit_char_def) (metis char_of_char)+
qed

lemma show_base_nonempty [simp]: "show_base b n \<noteq> []"
  by (subst show_base.simps) simp

lemma show_base_digits: "2 \<le> b \<Longrightarrow> c \<in> set (show_base b n) \<Longrightarrow> \<exists>d<b. c = digit_char d"
proof (induction b n rule: show_base.induct)
  case (1 b n)
  show ?case
  proof (cases "n < b")
    case True
    with 1 show ?thesis by (auto simp: show_base.simps [of b n])
  next
    case False
    with 1 have "c \<in> set (show_base b (n div b)) \<or> c = digit_char (n mod b)"
      by (auto simp: show_base.simps [of b n])
    then show ?thesis
    proof
      assume "c \<in> set (show_base b (n div b))"
      with 1 False show ?thesis by simp
    next
      assume "c = digit_char (n mod b)"
      moreover have "n mod b < b" using 1 by simp
      ultimately show ?thesis by blast
    qed
  qed
qed

lemma integer_id_loop_append:
  "integer_id_loop v (s @ t) = Option.bind (integer_id_loop v s) (\<lambda>w. integer_id_loop w t)"
  by (induction s arbitrary: v) (auto split: option.splits)

lemma integer_id_loop_show_hex: "n \<le> u128_max \<Longrightarrow> integer_id_loop 0 (show_base 16 n) = Some n"
proof (induction "16::nat" n rule: show_base.induct)
  case (1 n)
  show ?case
  proof (cases "n < 16")
    case True
    with 1 show ?thesis
      by (simp add: show_base.simps [of 16 n] hex_digit_digit_char)
  next
    case False
    have "n div 16 * 16 + n mod 16 = n" by simp
    moreover have "n div 16 * 16 \<le> n" by simp
    moreover have "integer_id_loop 0 (show_base 16 (n div 16)) = Some (n div 16)"
      using 1 False by simp
    ultimately show ?thesis
      using 1 False
      by (simp add: show_base.simps [of 16 n] integer_id_loop_append hex_digit_digit_char)
  qed
qed

lemma show_base_leading: "2 \<le> b \<Longrightarrow> b \<le> 36 \<Longrightarrow> 0 < n \<Longrightarrow> hd (show_base b n) \<noteq> CHR ''0''"
proof (induction b n rule: show_base.induct)
  case (1 b n)
  show ?case
  proof (cases "n < b")
    case True
    with 1 have "of_char (digit_char n) \<noteq> (48::nat)"
      by (simp add: of_char_digit)
    with True show ?thesis by (auto simp: show_base.simps [of b n])
  next
    case False
    with 1 show ?thesis by (simp add: show_base.simps [of b n] div_greater_zero_iff)
  qed
qed

lemma integer_id_loop_shows:
  "integer_id_loop 0 s = Some n \<Longrightarrow> s \<noteq> [] \<Longrightarrow> hd s \<noteq> CHR ''0'' \<Longrightarrow> s = show_base 16 n \<and> 0 < n"
proof (induction s arbitrary: n rule: rev_induct)
  case Nil
  then show ?case by simp
next
  case (snoc c s)
  from snoc.prems(1) obtain m d where m: "integer_id_loop 0 s = Some m"
    and d: "hex_digit c = Some d" and n: "n = m * 16 + d"
    by (auto simp: integer_id_loop_append bind_eq_Some_conv split: if_splits option.splits)
  note d' = hex_digit_SomeD [OF d]
  show ?case
  proof (cases "s = []")
    case True
    with m have "m = 0" by simp
    moreover have "d \<noteq> 0"
      using snoc.prems(3) True d'(2) by (intro notI) simp
    ultimately show ?thesis
      using True n d' by (simp add: show_base.simps)
  next
    case False
    with snoc m have "s = show_base 16 m" and "0 < m" by auto
    then show ?thesis using n d' by (simp add: show_base.simps [of 16 "m * 16 + d"])
  qed
qed

lemma to_integer_id_show_hex: "0 < n \<Longrightarrow> n \<le> u128_max \<Longrightarrow> to_integer_id (show_hex n) = Some n"
  using show_base_leading [of 16 n] integer_id_loop_show_hex [of n]
  by (cases "show_base 16 n") (auto simp: to_integer_id_def show_hex_def)

lemma to_integer_id_SomeD: "to_integer_id s = Some n \<Longrightarrow> show_hex n = s \<and> 0 < n"
  using integer_id_loop_shows [of s n]
  by (auto simp: to_integer_id_def show_hex_def split: list.splits if_splits)

lemma digit_char_eq_iff: "d < 36 \<Longrightarrow> e < 36 \<Longrightarrow> digit_char d = digit_char e \<longleftrightarrow> d = e"
proof
  assume "d < 36" and "e < 36" and eq: "digit_char d = digit_char e"
  then have "(if d < 10 then 48 + d else 87 + d) = (if e < 10 then 48 + e else 87 + e)"
    using of_char_digit [of d] of_char_digit [of e] unfolding eq by linarith
  then show "d = e" by (simp split: if_splits)
qed simp

lemma show_base_inject:
  "2 \<le> b \<Longrightarrow> b \<le> 36 \<Longrightarrow> show_base b n = show_base b m \<Longrightarrow> n = m"
proof (induction b n arbitrary: m rule: show_base.induct)
  case (1 b n)
  have small: "length (show_base b k) = 1 \<longleftrightarrow> k < b" for k
    using 1 by (subst show_base.simps) (auto simp: length_Suc_conv_rev)
  show ?case
  proof (cases "n < b")
    case True
    then have "m < b" using 1 small [of n] small [of m] by simp
    with True 1 show ?thesis by (simp add: show_base.simps digit_char_eq_iff)
  next
    case False
    then have "\<not> m < b" using 1 small [of n] small [of m] by simp
    with False 1 have "show_base b (n div b) = show_base b (m div b)"
      and "digit_char (n mod b) = digit_char (m mod b)"
      by (simp_all add: show_base.simps [of b n] show_base.simps [of b m])
    moreover have "n mod b < 36" and "m mod b < 36"
      using 1 by (auto intro: less_le_trans [OF mod_less_divisor])
    ultimately have "n div b = m div b" and "n mod b = m mod b"
      using 1 False by (auto simp: digit_char_eq_iff)
    then show ?thesis by (metis div_mult_mod_eq)
  qed
qed

lemma show_nat_eq_iff [simp]: "show_nat n = show_nat m \<longleftrightarrow> n = m"
  using show_base_inject [of 10 n m] by (auto simp: show_nat_def)

lemma show_nat_no_colon: "CHR '':'' \<notin> set (show_nat n)"
proof
  assume "CHR '':'' \<in> set (show_nat n)"
  then obtain d where d: "d < 10" and c: "CHR '':'' = digit_char d"
    using show_base_digits [of 10 "CHR '':''" n] unfolding show_nat_def by auto
  have "of_char (CHR '':'') = (48 + d :: nat)"
    unfolding c using d by (simp add: of_char_digit)
  moreover have "of_char (CHR '':'') = (58 :: nat)" by code_simp
  ultimately show False using d by simp
qed

text \<open>A length-prefixed string, \<open>len:text\<close>, can be read back off the front of any text.\<close>

definition netstring :: "string \<Rightarrow> string" where
  "netstring s = show_nat (length s) @ '':'' @ s"

lemma netstring_append_eq_iff [simp]: "netstring s @ r = netstring t @ q \<longleftrightarrow> s = t \<and> r = q"
proof
  assume eq: "netstring s @ r = netstring t @ q"
  have split: "takeWhile (\<lambda>c. c \<noteq> CHR '':'') (netstring u @ v) = show_nat (length u)" for u v
  proof -
    have "takeWhile (\<lambda>c. c \<noteq> CHR '':'') (show_nat (length u) @ '':'' @ u @ v) =
      show_nat (length u) @ takeWhile (\<lambda>c. c \<noteq> CHR '':'') ('':'' @ u @ v)"
      by (rule takeWhile_append2) (metis show_nat_no_colon)
    then show ?thesis by (simp add: netstring_def)
  qed
  have "show_nat (length s) = show_nat (length t)"
    using split [of s r] split [of t q] eq by simp
  then have "length s = length t" by simp
  with eq show "s = t \<and> r = q" by (simp add: netstring_def)
qed simp

lemma BlankNode_as_str_new_unchecked: "BlankNode_as_str (BlankNode_new_unchecked s) = s"
  by (auto simp: BlankNode_new_unchecked_def BlankNode_new_from_unique_id_def
      dest: to_integer_id_SomeD split: option.splits)

section \<open>Properties\<close>



end
