(* ===== verification/Datalog_IR.thy ===== *)
theory Datalog_IR
  imports Rdf_Terms
begin

text \<open>
  The intermediate representation of the Datalog engine (\<open>lib/oxdatalog/src/ir.rs\<close>):
  identifiers, ground values, pattern terms, atoms, facts, rules and programs, with the
  canonical keys that order facts.
\<close>

section \<open>Identifiers\<close>

datatype IdentifierError = IdentifierEmpty string | IdentifierContainsNul string

type_synonym RelationId = string
type_synonym RuleId = string
type_synonym Variable = string
type_synonym BlankNodeGenerator = string

definition identifier_fn :: "string \<Rightarrow> string \<Rightarrow> IdentifierError + string" where
  "identifier_fn value kind =
     (if value = [] then Inl (IdentifierEmpty kind)
      else if CHR 0x00 \<in> set value then Inl (IdentifierContainsNul kind)
      else Inr value)"

definition RelationId_new :: "string \<Rightarrow> IdentifierError + RelationId" where
  "RelationId_new value = identifier_fn value ''relation''"

definition RuleId_new :: "string \<Rightarrow> IdentifierError + RuleId" where
  "RuleId_new value = identifier_fn value ''rule''"

definition Variable_new :: "string \<Rightarrow> IdentifierError + Variable" where
  "Variable_new value = identifier_fn value ''variable''"

definition BlankNodeGenerator_new :: "string \<Rightarrow> IdentifierError + BlankNodeGenerator" where
  "BlankNodeGenerator_new value = identifier_fn value ''blank-node generator''"

section \<open>Values\<close>

datatype Value = VTerm Term | VDefaultGraph

fun Value_as_term :: "Value \<Rightarrow> Term option" where
  "Value_as_term (VTerm t) = Some t"
| "Value_as_term VDefaultGraph = None"

fun Value_estimated_bytes :: "Value \<Rightarrow> nat" where
  "Value_estimated_bytes (VTerm t) = length (Term_fmt t)"
| "Value_estimated_bytes VDefaultGraph = 1"

fun Value_sort_key :: "Value \<Rightarrow> string" where
  "Value_sort_key (VTerm t) = ''T'' @ show_nat (length (Term_fmt t)) @ '':'' @ Term_fmt t"
| "Value_sort_key VDefaultGraph = ''G''"

fun Value_fmt :: "Value \<Rightarrow> string" where
  "Value_fmt (VTerm t) = Term_fmt t"
| "Value_fmt VDefaultGraph = ''DEFAULT''"

section \<open>Atoms, facts, rules and programs\<close>

datatype PatternTerm =
    PVariable Variable
  | PConstant Value
  | PGeneratedBlankNode BlankNodeGenerator

definition PatternTerm_variable :: "string \<Rightarrow> IdentifierError + PatternTerm" where
  "PatternTerm_variable value =
     (case Variable_new value of Inl e \<Rightarrow> Inl e | Inr v \<Rightarrow> Inr (PVariable v))"

definition PatternTerm_generated_blank_node :: "string \<Rightarrow> IdentifierError + PatternTerm" where
  "PatternTerm_generated_blank_node value =
     (case BlankNodeGenerator_new value of Inl e \<Rightarrow> Inl e | Inr g \<Rightarrow> Inr (PGeneratedBlankNode g))"

record Atom =
  relation :: RelationId
  terms :: "PatternTerm list"

definition Atom_new :: "RelationId \<Rightarrow> PatternTerm list \<Rightarrow> Atom" where
  "Atom_new r ts = \<lparr>relation = r, terms = ts\<rparr>"

definition Atom_arity :: "Atom \<Rightarrow> nat" where
  "Atom_arity a = length (terms a)"

record Fact =
  fact_relation :: RelationId
  fact_values :: "Value list"

definition Fact_new :: "RelationId \<Rightarrow> Value list \<Rightarrow> Fact" where
  "Fact_new r vs = \<lparr>fact_relation = r, fact_values = vs\<rparr>"

definition Fact_arity :: "Fact \<Rightarrow> nat" where
  "Fact_arity f = length (fact_values f)"

definition Fact_canonical_key :: "Fact \<Rightarrow> string" where
  "Fact_canonical_key f =
     foldl (\<lambda>result value. let key = Value_sort_key value
              in result @ show_nat (length key) @ '':'' @ key @ ''|'')
       (show_nat (length (fact_relation f)) @ '':'' @ fact_relation f @ ''|'') (fact_values f)"

record Rule =
  rule_id :: RuleId
  rule_source :: "string option"
  head :: Atom
  positive_body :: "Atom list"
  negative_body :: "Atom list"
  run_once :: bool

definition Rule_new :: "RuleId \<Rightarrow> Atom \<Rightarrow> Atom list \<Rightarrow> Rule" where
  "Rule_new i h body = \<lparr>rule_id = i, rule_source = None, head = h, positive_body = body,
     negative_body = [], run_once = False\<rparr>"

definition Rule_new_stratified :: "RuleId \<Rightarrow> Atom \<Rightarrow> Atom list \<Rightarrow> Atom list \<Rightarrow> Rule" where
  "Rule_new_stratified i h pos neg = \<lparr>rule_id = i, rule_source = None, head = h,
     positive_body = pos, negative_body = neg, run_once = False\<rparr>"

definition Rule_with_source :: "Rule \<Rightarrow> string \<Rightarrow> Rule" where
  "Rule_with_source r s = r\<lparr>rule_source := Some s\<rparr>"

definition Rule_run_once :: "Rule \<Rightarrow> Rule" where
  "Rule_run_once r = r\<lparr>run_once := True\<rparr>"

definition Rule_is_positive :: "Rule \<Rightarrow> bool" where
  "Rule_is_positive r \<longleftrightarrow> negative_body r = []"

record Program =
  rules :: "Rule list"

definition Program_new :: "Rule list \<Rightarrow> Program" where
  "Program_new rs = \<lparr>rules = rs\<rparr>"

text \<open>The atoms of a rule, head first, as the code chains them.\<close>

definition rule_atoms :: "Rule \<Rightarrow> Atom list" where
  "rule_atoms r = head r # positive_body r @ negative_body r"

text \<open>The variables of an atom.\<close>

definition atom_vars :: "Atom \<Rightarrow> Variable set" where
  "atom_vars a = {v. PVariable v \<in> set (terms a)}"

definition body_vars :: "Rule \<Rightarrow> Variable set" where
  "body_vars r = \<Union> (atom_vars ` set (positive_body r))"

section \<open>Canonical keys\<close>

lemma Fact_canonical_key_eq:
  "Fact_canonical_key f = netstring (fact_relation f) @ ''|''
     @ concat (map (\<lambda>v. netstring (Value_sort_key v) @ ''|'') (fact_values f))"
proof -
  have "foldl (\<lambda>result value. let key = Value_sort_key value
          in result @ show_nat (length key) @ '':'' @ key @ ''|'') z vs =
        z @ concat (map (\<lambda>v. netstring (Value_sort_key v) @ ''|'') vs)" for z vs
    by (induction vs arbitrary: z) (simp_all add: netstring_def Let_def)
  then show ?thesis by (simp add: Fact_canonical_key_def netstring_def)
qed

lemma netstrings_eq_iff:
  "concat (map (\<lambda>v. netstring (f v) @ ''|'') vs) = concat (map (\<lambda>v. netstring (f v) @ ''|'') ws)
     \<longleftrightarrow> map f vs = map f ws"
proof (induction vs arbitrary: ws)
  case Nil
  then show ?case by (cases ws) simp_all
next
  case (Cons v vs)
  then show ?case by (cases ws) simp_all
qed

lemma Value_sort_key_eq_iff [simp]:
  "Value_sort_key v = Value_sort_key w \<longleftrightarrow>
     map_option Term_fmt (Value_as_term v) = map_option Term_fmt (Value_as_term w)"
proof (cases v; cases w)
  fix t u
  assume "v = VTerm t" and "w = VTerm u"
  then show ?thesis
    using netstring_append_eq_iff [of "Term_fmt t" "[]" "Term_fmt u" "[]"]
    by (simp add: netstring_def)
qed auto

text \<open>
  C31. Two facts have the same canonical key exactly when they have the same relation and their
  values print alike position by position: the length prefixes keep the fields apart.
\<close>

theorem Fact_canonical_key_eq_iff:
  "Fact_canonical_key f = Fact_canonical_key g \<longleftrightarrow>
     fact_relation f = fact_relation g \<and>
     map (\<lambda>v. map_option Term_fmt (Value_as_term v)) (fact_values f) =
     map (\<lambda>v. map_option Term_fmt (Value_as_term v)) (fact_values g)"
proof -
  have "map Value_sort_key vs = map Value_sort_key ws \<longleftrightarrow>
      map (\<lambda>v. map_option Term_fmt (Value_as_term v)) vs =
      map (\<lambda>v. map_option Term_fmt (Value_as_term v)) ws" for vs ws
  proof (induction vs arbitrary: ws)
    case (Cons v vs)
    then show ?case by (cases ws) simp_all
  qed auto
  then show ?thesis
    by (simp add: Fact_canonical_key_eq netstrings_eq_iff)
qed

end
