(* ===== verification/Datalog_Strata.thy ===== *)
theory Datalog_Strata
  imports Datalog_IR
begin

text \<open>
  The relation dependency graph of a Datalog program and its stratification
  (\<open>lib/oxdatalog/src/validate.rs\<close>, \<open>lib/oxdatalog/src/validate/strata.rs\<close>).

  The relaxation rounds of \<open>compute_strata\<close> are analysed once, in the locale
  \<open>level_rounds\<close>, for any graph with weighted edges: the rounds never exceed a solution, each
  round that does not yet agree with the least solution makes one more node agree with it, so
  as many rounds as there are nodes reach it. The locale is interpreted on the edges of a
  \<open>DependencyGraph\<close>.
\<close>

section \<open>The dependency graph\<close>

datatype ValidationError =
    RuleLimit nat nat
  | AtomLimit RuleId nat nat
  | DuplicateRuleId RuleId
  | ArityMismatch RelationId nat nat RuleId
  | ArityLimit RelationId nat nat
  | UnsafeHeadVariable RuleId Variable
  | UnsafeNegativeVariable RuleId Variable
  | UnstratifiableNegation RelationId
  | UnstratifiableClosedDependency RelationId
  | GeneratedTermOutsideHead RuleId BlankNodeGenerator
  | GeneratedTermRequiresRunOnce RuleId BlankNodeGenerator
  | IdentifierLimit string RuleId nat nat
  | SourceLimit RuleId nat nat
  | TermLimit RuleId nat nat

type_synonym edge_map = "(RelationId, RelationId btree_set) btree_map"

record DependencyGraph =
  positive_edges :: edge_map
  negative_edges :: edge_map
  closed_edges :: edge_map

definition DependencyGraph_default :: DependencyGraph where
  "DependencyGraph_default = \<lparr>positive_edges = [], negative_edges = [], closed_edges = []\<rparr>"

text \<open>\<open>get(relation).into_iter().flatten()\<close> on one of the edge maps.\<close>

definition edges_from :: "edge_map \<Rightarrow> RelationId \<Rightarrow> RelationId list" where
  "edges_from m r = (case map_of m r of None \<Rightarrow> [] | Some s \<Rightarrow> s)"

definition dependencies :: "DependencyGraph \<Rightarrow> RelationId \<Rightarrow> RelationId list" where
  "dependencies g r = edges_from (positive_edges g) r"

definition negative_dependencies :: "DependencyGraph \<Rightarrow> RelationId \<Rightarrow> RelationId list" where
  "negative_dependencies g r = edges_from (negative_edges g) r"

definition closed_dependencies :: "DependencyGraph \<Rightarrow> RelationId \<Rightarrow> RelationId list" where
  "closed_dependencies g r = edges_from (closed_edges g) r"

definition relations :: "DependencyGraph \<Rightarrow> RelationId list" where
  "relations g = map fst (positive_edges g)"

text \<open>\<open>entry(k).or_default()\<close>, and \<open>entry(k).or_default().insert(x)\<close>.\<close>

definition entry_or_default :: "RelationId \<Rightarrow> edge_map \<Rightarrow> edge_map" where
  "entry_or_default k m = (case map_of m k of None \<Rightarrow> btm_insert k [] m | Some _ \<Rightarrow> m)"

definition entry_insert :: "RelationId \<Rightarrow> RelationId \<Rightarrow> edge_map \<Rightarrow> edge_map" where
  "entry_insert k x m = btm_insert k (bts_insert x (edges_from m k)) m"

definition ensure_relation :: "DependencyGraph \<Rightarrow> RelationId \<Rightarrow> DependencyGraph" where
  "ensure_relation g r = g\<lparr>positive_edges := entry_or_default r (positive_edges g),
     negative_edges := entry_or_default r (negative_edges g),
     closed_edges := entry_or_default r (closed_edges g)\<rparr>"

definition add_positive :: "DependencyGraph \<Rightarrow> RelationId \<Rightarrow> RelationId \<Rightarrow> DependencyGraph" where
  "add_positive g h b = (let g' = ensure_relation g b
     in g'\<lparr>positive_edges := entry_insert h b (positive_edges g')\<rparr>)"

definition add_negative :: "DependencyGraph \<Rightarrow> RelationId \<Rightarrow> RelationId \<Rightarrow> DependencyGraph" where
  "add_negative g h b = (let g' = ensure_relation g b
     in g'\<lparr>negative_edges := entry_insert h b (negative_edges g')\<rparr>)"

definition add_closed :: "DependencyGraph \<Rightarrow> RelationId \<Rightarrow> RelationId \<Rightarrow> DependencyGraph" where
  "add_closed g h b = (let g' = ensure_relation g b
     in g'\<lparr>closed_edges := entry_insert h b (closed_edges g')\<rparr>)"

section \<open>compute_strata\<close>

type_synonym strata = "(RelationId, nat) btree_map"

text \<open>\<open>strata.get(relation).copied().unwrap_or(0)\<close>\<close>

definition stratum_or_0 :: "strata \<Rightarrow> RelationId \<Rightarrow> nat" where
  "stratum_or_0 s r = (case map_of s r of None \<Rightarrow> 0 | Some n \<Rightarrow> n)"

definition closed_stratum :: "strata \<Rightarrow> RelationId \<Rightarrow> nat" where
  "closed_stratum s r = sat_add (stratum_or_0 s r) 1"

definition required_stratum :: "DependencyGraph \<Rightarrow> strata \<Rightarrow> RelationId \<Rightarrow> nat" where
  "required_stratum g s r =
     (let required = foldl (\<lambda>q d. max q (stratum_or_0 s d)) 0 (dependencies g r);
          required = foldl (\<lambda>q d. max q (closed_stratum s d)) required (negative_dependencies g r)
      in foldl (\<lambda>q d. max q (closed_stratum s d)) required (closed_dependencies g r))"

definition relax_relation :: "DependencyGraph \<Rightarrow> strata \<times> bool \<Rightarrow> RelationId \<Rightarrow> strata \<times> bool" where
  "relax_relation g sc r =
     (case sc of (s, changed) \<Rightarrow>
        let required = required_stratum g s r; current = stratum_or_0 s r
        in if required > current then (btm_insert r required s, True) else (s, changed))"

fun strata_rounds :: "nat \<Rightarrow> DependencyGraph \<Rightarrow> strata \<Rightarrow> strata option" where
  "strata_rounds 0 g s = None"
| "strata_rounds (Suc k) g s =
     (case foldl (relax_relation g) (s, False) (relations g) of
        (s', changed) \<Rightarrow> if \<not> changed then Some s' else strata_rounds k g s')"

definition unstratifiable :: "DependencyGraph \<Rightarrow> RelationId \<Rightarrow> ValidationError" where
  "unstratifiable g r =
     (if closed_dependencies g r \<noteq> [] then UnstratifiableClosedDependency r
      else UnstratifiableNegation r)"

definition compute_strata :: "DependencyGraph \<Rightarrow> ValidationError + strata" where
  "compute_strata g =
     (let s = foldl (\<lambda>m r. btm_insert r 0 m) [] (relations g);
          relation_count = length s
      in case strata_rounds (Suc relation_count) g s of
           Some s' \<Rightarrow> Inr s'
         | None \<Rightarrow>
             (let r = (case relations g of [] \<Rightarrow> ''urn:oxigraph:datalog:unknown'' | r # _ \<Rightarrow> r)
              in Inl (unstratifiable g r)))"

text \<open>What a stratification is: negated and closed dependencies lie strictly below.\<close>

definition stratifies :: "DependencyGraph \<Rightarrow> (RelationId \<Rightarrow> nat) \<Rightarrow> bool" where
  "stratifies g f \<longleftrightarrow> (\<forall>r\<in>set (relations g).
     (\<forall>d\<in>set (dependencies g r). f d \<le> f r) \<and>
     (\<forall>d\<in>set (negative_dependencies g r). f d < f r) \<and>
     (\<forall>d\<in>set (closed_dependencies g r). f d < f r))"

text \<open>The graph invariant that every construction keeps: edges join known relations.\<close>

definition graph_wf :: "DependencyGraph \<Rightarrow> bool" where
  "graph_wf g \<longleftrightarrow> btm_wf (positive_edges g) \<and>
     (\<forall>r\<in>set (relations g). set (dependencies g r) \<subseteq> set (relations g) \<and>
        set (negative_dependencies g r) \<subseteq> set (relations g) \<and>
        set (closed_dependencies g r) \<subseteq> set (relations g))"

section \<open>Relaxation rounds over weighted edges\<close>

locale level_rounds =
  fixes nodes :: "'r list"
    and edges :: "'r \<Rightarrow> ('r \<times> nat) list"
  assumes edges_closed: "r \<in> set nodes \<Longrightarrow> (d, w) \<in> set (edges r) \<Longrightarrow> d \<in> set nodes"
begin

definition solution :: "('r \<Rightarrow> nat) \<Rightarrow> bool" where
  "solution f \<longleftrightarrow> (\<forall>r\<in>set nodes. \<forall>(d, w)\<in>set (edges r). f d + w \<le> f r)"

lemma solutionI:
  "(\<And>r d w. r \<in> set nodes \<Longrightarrow> (d, w) \<in> set (edges r) \<Longrightarrow> f d + w \<le> f r) \<Longrightarrow> solution f"
  by (auto simp: solution_def)

lemma solutionD: "solution f \<Longrightarrow> r \<in> set nodes \<Longrightarrow> (d, w) \<in> set (edges r) \<Longrightarrow> f d + w \<le> f r"
  unfolding solution_def by fastforce

definition need :: "('r \<Rightarrow> nat) \<Rightarrow> 'r \<Rightarrow> nat" where
  "need s r = foldl max 0 (map (\<lambda>(d, w). s d + w) (edges r))"

definition step :: "('r \<Rightarrow> nat) \<Rightarrow> 'r \<Rightarrow> ('r \<Rightarrow> nat)" where
  "step s r = s(r := max (s r) (need s r))"

definition pass :: "('r \<Rightarrow> nat) \<Rightarrow> 'r list \<Rightarrow> ('r \<Rightarrow> nat)" where
  "pass s rs = foldl step s rs"

lemma foldl_max_le: "foldl max z xs \<le> b \<longleftrightarrow> z \<le> b \<and> (\<forall>x\<in>set xs. x \<le> b)" for z b :: nat
  by (induction xs arbitrary: z) auto

lemma need_le_iff: "need s r \<le> b \<longleftrightarrow> (\<forall>(d, w)\<in>set (edges r). s d + w \<le> b)"
  by (auto simp: need_def foldl_max_le)

lemma edge_le_need: "(d, w) \<in> set (edges r) \<Longrightarrow> s d + w \<le> need s r"
  using need_le_iff [of s r "need s r"] by auto

lemma step_ge: "s q \<le> step s r q"
  by (simp add: step_def)

lemma pass_ge: "s q \<le> pass s rs q"
  by (induction rs arbitrary: s) (auto simp: pass_def intro: order_trans [OF step_ge])

lemma pass_append: "pass s (xs @ ys) = pass (pass s xs) ys"
  by (simp add: pass_def)

lemma pass_Cons: "pass s (x # xs) = pass (step s x) xs"
  by (simp add: pass_def)

lemma pass_reaches_need:
  assumes "r \<in> set rs" and "(d, w) \<in> set (edges r)"
  shows "s d + w \<le> pass s rs r"
proof -
  obtain xs ys where rs: "rs = xs @ r # ys" using assms(1) by (auto simp: in_set_conv_decomp)
  have "s d + w \<le> pass s xs d + w" by (simp add: pass_ge)
  also have "\<dots> \<le> need (pass s xs) r" by (rule edge_le_need [OF assms(2)])
  also have "\<dots> \<le> step (pass s xs) r r" by (simp add: step_def)
  also have "\<dots> \<le> pass s rs r" unfolding rs pass_append pass_Cons by (rule pass_ge)
  finally show ?thesis .
qed

lemma step_le_solution:
  assumes "solution f" and "\<forall>q\<in>set nodes. s q \<le> f q" and "r \<in> set nodes"
  shows "\<forall>q\<in>set nodes. step s r q \<le> f q"
proof -
  have "need s r \<le> f r"
    unfolding need_le_iff
  proof clarify
    fix d w
    assume e: "(d, w) \<in> set (edges r)"
    then have "s d \<le> f d" using assms edges_closed by auto
    moreover have "f d + w \<le> f r" using solutionD [OF assms(1,3) e] .
    ultimately show "s d + w \<le> f r" by simp
  qed
  with assms show ?thesis by (simp add: step_def)
qed

lemma pass_le_solution:
  "solution f \<Longrightarrow> \<forall>q\<in>set nodes. s q \<le> f q \<Longrightarrow> set rs \<subseteq> set nodes \<Longrightarrow>
    \<forall>q\<in>set nodes. pass s rs q \<le> f q"
  by (induction rs arbitrary: s) (simp_all add: pass_def step_le_solution)

lemma pass_fixed_solution:
  assumes "pass s nodes = s"
  shows "solution s"
  by (rule solutionI) (use pass_reaches_need [of _ nodes _ _ s] assms in auto)

text \<open>The least solution, pointwise.\<close>

definition least_solution :: "'r \<Rightarrow> nat" where
  "least_solution r = (LEAST n. \<exists>f. solution f \<and> f r = n)"

lemma least_solution_le: "solution f \<Longrightarrow> least_solution r \<le> f r"
  unfolding least_solution_def by (rule Least_le) blast

lemma least_solution_solution:
  assumes "solution g"
  shows "solution least_solution"
proof (rule solutionI)
  fix r d w
  assume r: "r \<in> set nodes" and e: "(d, w) \<in> set (edges r)"
  have "\<exists>f. solution f \<and> f r = least_solution r"
    unfolding least_solution_def by (rule LeastI_ex) (use assms in blast)
  then obtain f where f: "solution f" "f r = least_solution r" by blast
  then have "f d + w \<le> least_solution r" using solutionD [OF f(1) r e] by simp
  moreover have "least_solution d \<le> f d" by (rule least_solution_le [OF f(1)])
  ultimately show "least_solution d + w \<le> least_solution r" by simp
qed

definition agreed :: "('r \<Rightarrow> nat) \<Rightarrow> 'r set" where
  "agreed s = {r\<in>set nodes. s r = least_solution r}"

lemma agreed_mono:
  "\<forall>q\<in>set nodes. t q \<le> least_solution q \<Longrightarrow> (\<And>q. s q \<le> t q) \<Longrightarrow> agreed s \<subseteq> agreed t"
  by (auto simp: agreed_def intro: antisym) (metis antisym)

lemma not_agreed_less:
  "\<forall>q\<in>set nodes. s q \<le> least_solution q \<Longrightarrow> r \<in> set nodes \<Longrightarrow> r \<notin> agreed s \<Longrightarrow>
    s r < least_solution r"
  by (simp add: agreed_def le_neq_implies_less)

lemma pass_progress:
  assumes sol: "solution g" and below: "\<forall>q\<in>set nodes. s q \<le> least_solution q"
    and not_all: "agreed s \<noteq> set nodes"
  shows "agreed s \<subset> agreed (pass s nodes)"
proof -
  let ?m = least_solution
  let ?t = "pass s nodes"
  have m: "solution ?m" by (rule least_solution_solution [OF sol])
  have t_le: "\<forall>q\<in>set nodes. ?t q \<le> ?m q"
    by (rule pass_le_solution [OF m below]) simp
  have sub: "agreed s \<subseteq> agreed ?t"
    by (rule agreed_mono [OF t_le pass_ge])
  moreover have "agreed ?t \<noteq> agreed s"
  proof
    assume same: "agreed ?t = agreed s"
    define f where "f r = (if r \<in> agreed s then ?m r else ?m r - 1)" for r
    have "solution f"
    proof (rule solutionI)
      fix r d w
      assume r: "r \<in> set nodes" and e: "(d, w) \<in> set (edges r)"
      have d: "d \<in> set nodes" using edges_closed r e .
      have edge: "?m d + w \<le> ?m r" using solutionD [OF m r e] .
      show "f d + w \<le> f r"
      proof (cases "r \<in> agreed s")
        case True
        with edge show ?thesis by (auto simp: f_def)
      next
        case False
        then have "s r < ?m r" using not_agreed_less [OF below r] by simp
        show ?thesis
        proof (cases "d \<in> agreed s")
          case True
          then have "?m d + w \<le> ?t r"
            using pass_reaches_need [OF r e, of s] by (simp add: agreed_def)
          moreover have "?t r < ?m r"
            using False same not_agreed_less [OF t_le r] by simp
          ultimately show ?thesis using True False by (simp add: f_def)
        next
          case out: False
          then have "s d < ?m d" using not_agreed_less [OF below d] by simp
          with edge False out \<open>s r < ?m r\<close> show ?thesis by (simp add: f_def)
        qed
      qed
    qed
    obtain r where r: "r \<in> set nodes" "r \<notin> agreed s"
      using not_all by (auto simp: agreed_def)
    then have "s r < ?m r" using not_agreed_less [OF below] by simp
    moreover have "?m r \<le> f r" by (rule least_solution_le [OF \<open>solution f\<close>])
    ultimately show False using r by (simp add: f_def)
  qed
  ultimately show ?thesis by blast
qed

fun passes :: "nat \<Rightarrow> ('r \<Rightarrow> nat) \<Rightarrow> ('r \<Rightarrow> nat)" where
  "passes 0 s = s"
| "passes (Suc k) s = passes k (pass s nodes)"

lemma passes_reach_least:
  assumes sol: "solution g"
  shows "\<forall>q\<in>set nodes. s q \<le> least_solution q \<Longrightarrow> card (set nodes - agreed s) \<le> k \<Longrightarrow>
    \<forall>q\<in>set nodes. passes k s q = least_solution q"
proof (induction k arbitrary: s)
  case 0
  then show ?case by (auto simp: agreed_def)
next
  case (Suc k)
  have below: "\<forall>q\<in>set nodes. pass s nodes q \<le> least_solution q"
    by (rule pass_le_solution [OF least_solution_solution [OF sol] Suc.prems(1)]) simp
  have sub: "agreed t \<subseteq> set nodes" for t by (auto simp: agreed_def)
  have "card (set nodes - agreed (pass s nodes)) \<le> k"
  proof (cases "agreed s = set nodes")
    case True
    then have "agreed (pass s nodes) = set nodes"
      using agreed_mono [OF below pass_ge] sub by blast
    then show ?thesis by simp
  next
    case False
    have "set nodes - agreed (pass s nodes) \<subset> set nodes - agreed s"
      using pass_progress [OF sol Suc.prems(1) False] sub by blast
    then have "card (set nodes - agreed (pass s nodes)) < card (set nodes - agreed s)"
      by (intro psubset_card_mono) auto
    with Suc.prems(2) show ?thesis by simp
  qed
  with Suc.IH [OF below] show ?case by simp
qed

lemma pass_outside: "q \<notin> set rs \<Longrightarrow> pass s rs q = s q"
  by (induction rs arbitrary: s) (auto simp: pass_def step_def)

lemma pass_eq_Cons_iff: "pass s (r # rs) = s \<longleftrightarrow> step s r = s \<and> pass s rs = s"
proof
  assume eq: "pass s (r # rs) = s"
  have "step s r = s"
  proof
    fix q
    have "step s r q \<le> pass s (r # rs) q" unfolding pass_Cons by (rule pass_ge)
    with eq step_ge [of s q r] show "step s r q = s q" by simp
  qed
  with eq show "step s r = s \<and> pass s rs = s" by (simp add: pass_Cons)
qed (simp add: pass_Cons)

lemma passes_snoc: "passes (Suc k) s = pass (passes k s) nodes"
  by (induction k arbitrary: s) simp_all

lemma passes_le_solution:
  "solution f \<Longrightarrow> \<forall>q\<in>set nodes. s q \<le> f q \<Longrightarrow> \<forall>q\<in>set nodes. passes k s q \<le> f q"
  by (induction k arbitrary: s) (simp_all add: pass_le_solution)

lemma passes_stable:
  assumes "solution g" and "\<forall>q\<in>set nodes. s q \<le> least_solution q" and "card (set nodes) \<le> k"
  shows "pass (passes k s) nodes = passes k s"
proof
  fix q
  note m = least_solution_solution [OF assms(1)]
  have least: "\<forall>q\<in>set nodes. passes k s q = least_solution q"
    by (rule passes_reach_least [OF assms(1,2)])
      (use assms(3) in \<open>meson Diff_subset List.finite_set card_mono le_trans\<close>)
  show "pass (passes k s) nodes q = passes k s q"
  proof (cases "q \<in> set nodes")
    case True
    moreover have "\<forall>q\<in>set nodes. pass (passes k s) nodes q \<le> least_solution q"
      by (rule pass_le_solution [OF m]) (use least in auto)
    ultimately show ?thesis using least pass_ge [of "passes k s" q nodes] by fastforce
  qed (simp add: pass_outside)
qed

lemma fixed_pass_least:
  assumes "pass (passes k s) nodes = passes k s" and "\<forall>q\<in>set nodes. s q = 0" and "q \<in> set nodes"
  shows "passes k s q = least_solution q"
proof -
  have sol: "solution (passes k s)" by (rule pass_fixed_solution [OF assms(1)])
  have "passes k s q \<le> least_solution q"
    using passes_le_solution [OF least_solution_solution [OF sol], of s k] assms(2,3) by simp
  with least_solution_le [OF sol, of q] show ?thesis by simp
qed

end

section \<open>The code's rounds are rounds over weighted edges\<close>

text \<open>The edges of a dependency graph: a negated or closed dependency has weight 1.\<close>

definition level_edges :: "DependencyGraph \<Rightarrow> RelationId \<Rightarrow> (RelationId \<times> nat) list" where
  "level_edges g r = filter (\<lambda>e. fst e \<in> set (relations g))
     (map (\<lambda>d. (d, 0)) (dependencies g r) @ map (\<lambda>d. (d, 1)) (negative_dependencies g r)
       @ map (\<lambda>d. (d, 1)) (closed_dependencies g r))"

interpretation lr: level_rounds "relations g" "level_edges g" for g
  by unfold_locales (auto simp: level_edges_def)

abbreviation lr_pass :: "DependencyGraph \<Rightarrow> (RelationId \<Rightarrow> nat) \<Rightarrow> RelationId list \<Rightarrow> RelationId \<Rightarrow> nat" where
  "lr_pass g \<equiv> level_rounds.pass (level_edges g)"

abbreviation lr_passes :: "DependencyGraph \<Rightarrow> nat \<Rightarrow> (RelationId \<Rightarrow> nat) \<Rightarrow> RelationId \<Rightarrow> nat" where
  "lr_passes g \<equiv> level_rounds.passes (relations g) (level_edges g)"

abbreviation lr_least :: "DependencyGraph \<Rightarrow> RelationId \<Rightarrow> nat" where
  "lr_least g \<equiv> level_rounds.least_solution (relations g) (level_edges g)"

lemma graph_wf_level_edges:
  assumes "graph_wf g" and "r \<in> set (relations g)"
  shows "level_edges g r = map (\<lambda>d. (d, 0)) (dependencies g r)
    @ map (\<lambda>d. (d, 1)) (negative_dependencies g r) @ map (\<lambda>d. (d, 1)) (closed_dependencies g r)"
proof -
  have "set (dependencies g r) \<union> set (negative_dependencies g r) \<union> set (closed_dependencies g r)
      \<subseteq> set (relations g)"
    using assms by (simp add: graph_wf_def)
  then show ?thesis unfolding level_edges_def by (intro filter_True) auto
qed

lemma stratifies_solution:
  "graph_wf g \<Longrightarrow> stratifies g f \<longleftrightarrow> level_rounds.solution (relations g) (level_edges g) f"
  unfolding stratifies_def lr.solution_def
  by (intro ball_cong refl) (simp add: graph_wf_level_edges ball_Un Suc_le_eq)

lemma foldl_max_map: "foldl (\<lambda>q d. max q (f d)) z ds = foldl max z (map f ds)"
  by (induction ds arbitrary: z) simp_all

lemma required_stratum_need:
  assumes "graph_wf g" and "r \<in> set (relations g)" and "\<forall>q. stratum_or_0 s q < usize_max"
  shows "required_stratum g s r = level_rounds.need (level_edges g) (stratum_or_0 s) r"
proof -
  have "closed_stratum s d = stratum_or_0 s d + 1" for d
    using assms(3) by (simp add: closed_stratum_def sat_add_def Suc_leI)
  then show ?thesis
    by (simp add: required_stratum_def lr.need_def graph_wf_level_edges [OF assms(1,2)] comp_def
        foldl_max_map [of "stratum_or_0 s"] foldl_max_map [of "\<lambda>d. Suc (stratum_or_0 s d)"])
qed

lemma stratum_or_0_insert:
  "stratum_or_0 (btm_insert r n s) = (stratum_or_0 s)(r := n)"
  by (auto simp: stratum_or_0_def)

lemma relax_relation_step:
  assumes "graph_wf g" and "r \<in> set (relations g)" and "\<forall>q. stratum_or_0 s q < usize_max"
    and "relax_relation g (s, c) r = (s', c')"
  shows "stratum_or_0 s' = level_rounds.step (level_edges g) (stratum_or_0 s) r"
    and "c' \<longleftrightarrow> c \<or> level_rounds.step (level_edges g) (stratum_or_0 s) r \<noteq> stratum_or_0 s"
    and "dom (map_of s) \<union> {r} = dom (map_of s') \<union> {r}"
    and "btm_wf s \<Longrightarrow> btm_wf s'"
  using assms(4) required_stratum_need [OF assms(1-3)]
  by (auto simp: relax_relation_def lr.step_def Let_def stratum_or_0_insert fun_eq_iff btm_wf_insert
      split: if_splits)

lemma relax_relation_bound:
  assumes "\<forall>q. stratum_or_0 s q \<le> b" and "relax_relation g (s, c) r = (s', c')"
  shows "\<forall>q. stratum_or_0 s' q \<le> Suc b"
proof -
  have closed: "closed_stratum s d \<le> Suc b" for d
    using assms(1) by (simp add: closed_stratum_def sat_add_def min.coboundedI2)
  have "stratum_or_0 s d \<le> Suc b" for d using assms(1) by (simp add: le_SucI)
  then have "required_stratum g s r \<le> Suc b"
    using closed by (simp add: required_stratum_def lr.foldl_max_le
        foldl_max_map [of "stratum_or_0 s"] foldl_max_map [of "closed_stratum s"])
  then show ?thesis
    using assms by (auto simp: relax_relation_def Let_def stratum_or_0_insert le_SucI split: if_splits)
qed

lemma relax_pass:
  assumes "graph_wf g"
  shows "set rs \<subseteq> set (relations g) \<Longrightarrow> \<forall>q. stratum_or_0 s q \<le> b \<Longrightarrow> b + length rs < usize_max \<Longrightarrow>
    btm_wf s \<Longrightarrow> set rs \<subseteq> dom (map_of s) \<Longrightarrow>
    foldl (relax_relation g) (s, c) rs = (s', c') \<Longrightarrow>
    stratum_or_0 s' = lr_pass g (stratum_or_0 s) rs \<and>
    (c' \<longleftrightarrow> c \<or> lr_pass g (stratum_or_0 s) rs \<noteq> stratum_or_0 s) \<and>
    (\<forall>q. stratum_or_0 s' q \<le> b + length rs) \<and> btm_wf s' \<and> dom (map_of s') = dom (map_of s)"
proof (induction rs arbitrary: s c b)
  case Nil
  then show ?case by (simp add: lr.pass_def)
next
  case (Cons r rs)
  obtain t e where t: "relax_relation g (s, c) r = (t, e)" by (cases "relax_relation g (s, c) r")
  have "\<forall>q. stratum_or_0 s q < usize_max"
    using Cons.prems(2,3) by (meson add_leD1 le_less_trans order.strict_implies_order order_refl)
  note step = relax_relation_step [OF assms _ this t]
  have r: "r \<in> set (relations g)" and "r \<in> dom (map_of s)" using Cons.prems by auto
  have dom: "dom (map_of t) = dom (map_of s)"
    using t \<open>r \<in> dom (map_of s)\<close> by (auto simp: relax_relation_def Let_def split: if_splits)
  have "stratum_or_0 s' = lr_pass g (stratum_or_0 t) rs \<and>
    (c' \<longleftrightarrow> e \<or> lr_pass g (stratum_or_0 t) rs \<noteq> stratum_or_0 t) \<and>
    (\<forall>q. stratum_or_0 s' q \<le> Suc b + length rs) \<and> btm_wf s' \<and> dom (map_of s') = dom (map_of t)"
    by (rule Cons.IH) (use Cons.prems t step(4) [OF r] dom
        relax_relation_bound [OF Cons.prems(2) t] in auto)
  then show ?case
    using step(1,2) [OF r] dom lr.pass_eq_Cons_iff [of g "stratum_or_0 s" r rs]
    by (auto simp: lr.pass_Cons)
qed

lemma strata_rounds_Some:
  assumes "graph_wf g"
  shows "strata_rounds k g s = Some s' \<Longrightarrow> \<forall>q. stratum_or_0 s q \<le> b \<Longrightarrow>
    b + k * length (relations g) < usize_max \<Longrightarrow> btm_wf s \<Longrightarrow> dom (map_of s) = set (relations g) \<Longrightarrow>
    \<exists>j. stratum_or_0 s' = lr_passes g j (stratum_or_0 s) \<and>
      lr_pass g (stratum_or_0 s') (relations g) = stratum_or_0 s' \<and>
      btm_wf s' \<and> dom (map_of s') = set (relations g)"
proof (induction k arbitrary: s b)
  case 0
  then show ?case by simp
next
  case (Suc k)
  obtain t c where t: "foldl (relax_relation g) (s, False) (relations g) = (t, c)"
    by (cases "foldl (relax_relation g) (s, False) (relations g)")
  note pass = relax_pass [OF assms _ Suc.prems(2) _ Suc.prems(4) _ t]
  have pass: "stratum_or_0 t = lr_pass g (stratum_or_0 s) (relations g)"
    "c \<longleftrightarrow> lr_pass g (stratum_or_0 s) (relations g) \<noteq> stratum_or_0 s"
    "\<forall>q. stratum_or_0 t q \<le> b + length (relations g)" "btm_wf t"
    "dom (map_of t) = set (relations g)"
    using pass Suc.prems by auto
  show ?case
  proof (cases c)
    case False
    then have "stratum_or_0 s' = lr_passes g 0 (stratum_or_0 s)"
      and "lr_pass g (stratum_or_0 s') (relations g) = stratum_or_0 s'"
      using Suc.prems(1) t pass by auto
    then show ?thesis using False Suc.prems(1) t pass by fastforce
  next
    case True
    then have "strata_rounds k g t = Some s'" using Suc.prems(1) t by simp
    from Suc.IH [OF this pass(3) _ pass(4,5)] Suc.prems(3)
    obtain j where "stratum_or_0 s' = lr_passes g j (stratum_or_0 t) \<and>
      lr_pass g (stratum_or_0 s') (relations g) = stratum_or_0 s' \<and>
      btm_wf s' \<and> dom (map_of s') = set (relations g)"
      by (auto simp: algebra_simps)
    then have "stratum_or_0 s' = lr_passes g (Suc j) (stratum_or_0 s) \<and>
      lr_pass g (stratum_or_0 s') (relations g) = stratum_or_0 s' \<and>
      btm_wf s' \<and> dom (map_of s') = set (relations g)"
      unfolding lr.passes.simps pass(1) [symmetric] .
    then show ?thesis by blast
  qed
qed

lemma strata_rounds_None:
  assumes "graph_wf g"
  shows "strata_rounds k g s = None \<Longrightarrow> \<forall>q. stratum_or_0 s q \<le> b \<Longrightarrow>
    b + k * length (relations g) < usize_max \<Longrightarrow> btm_wf s \<Longrightarrow> dom (map_of s) = set (relations g) \<Longrightarrow>
    j < k \<Longrightarrow>
    lr_pass g (lr_passes g j (stratum_or_0 s)) (relations g) \<noteq> lr_passes g j (stratum_or_0 s)"
proof (induction k arbitrary: s b j)
  case 0
  then show ?case by simp
next
  case (Suc k)
  obtain t c where t: "foldl (relax_relation g) (s, False) (relations g) = (t, c)"
    by (cases "foldl (relax_relation g) (s, False) (relations g)")
  have pass: "stratum_or_0 t = lr_pass g (stratum_or_0 s) (relations g)"
    "c \<longleftrightarrow> lr_pass g (stratum_or_0 s) (relations g) \<noteq> stratum_or_0 s"
    "\<forall>q. stratum_or_0 t q \<le> b + length (relations g)" "btm_wf t"
    "dom (map_of t) = set (relations g)"
    using relax_pass [OF assms _ Suc.prems(2) _ Suc.prems(4) _ t] Suc.prems by auto
  have none: "strata_rounds k g t = None" and c
    using Suc.prems(1) t by (auto split: if_splits)
  show ?case
  proof (cases j)
    case 0
    with \<open>c\<close> pass(2) show ?thesis by simp
  next
    case (Suc i)
    with Suc.prems(3,6) Suc.IH [OF none pass(3) _ pass(4,5), of i] show ?thesis
      by (simp add: pass(1) algebra_simps)
  qed
qed

section \<open>Correctness of compute_strata\<close>

lemma initial_strata:
  fixes rs :: "RelationId list"
  defines "s \<equiv> foldl (\<lambda>m r. btm_insert r 0 m) [] rs"
  shows "stratum_or_0 s = (\<lambda>_. 0)" and "dom (map_of s) = set rs" and "btm_wf s"
    and "length s = card (set rs)"
proof -
  have *: "stratum_or_0 m = (\<lambda>_. 0) \<Longrightarrow> btm_wf m \<Longrightarrow>
      stratum_or_0 (foldl (\<lambda>m r. btm_insert r 0 m) m rs) = (\<lambda>_. 0) \<and>
      dom (map_of (foldl (\<lambda>m r. btm_insert r 0 m) m rs)) = dom (map_of m) \<union> set rs \<and>
      btm_wf (foldl (\<lambda>m r. btm_insert r 0 m) m rs)" for m :: strata
  proof (induction rs arbitrary: m)
    case (Cons r rs)
    have "stratum_or_0 (btm_insert r 0 m) = (\<lambda>_. 0)" and "btm_wf (btm_insert r 0 m)"
      using Cons.prems by (simp_all add: stratum_or_0_insert btm_wf_insert fun_eq_iff)
    from Cons.IH [OF this] show ?case by (auto simp: dom_def)
  qed simp
  show "stratum_or_0 s = (\<lambda>_. 0)" and dom: "dom (map_of s) = set rs" and wf: "btm_wf s"
    using * [of "[]"] by (simp_all add: s_def stratum_or_0_def fun_eq_iff)
  have "{k. map_of s k \<noteq> None} = set rs" using dom by auto
  then show "length s = card (set rs)"
    using btree.length_entries [OF wf] by simp
qed

lemma rounds_fit:
  assumes "length (relations g) < 2 ^ 32"
  shows "0 + Suc (card (set (relations g))) * length (relations g) < usize_max"
proof -
  let ?n = "length (relations g)"
  have "Suc (card (set (relations g))) * ?n \<le> Suc ?n * ?n"
    by (intro mult_le_mono1 Suc_le_mono [THEN iffD2] card_length)
  also have "\<dots> \<le> 2 ^ 32 * (2 ^ 32 - 1)"
    using assms by (intro mult_le_mono) auto
  also have "\<dots> < usize_max" by (simp add: usize_max_def)
  finally show ?thesis by simp
qed

lemma compute_strata_Inr:
  assumes wf: "graph_wf g" and small: "length (relations g) < 2 ^ 32"
    and res: "compute_strata g = Inr s"
  shows "btm_wf s" and "dom (map_of s) = set (relations g)" and "stratifies g (stratum_or_0 s)"
    and "stratifies g f \<Longrightarrow> r \<in> set (relations g) \<Longrightarrow> stratum_or_0 s r \<le> f r"
proof -
  define s0 where "s0 = foldl (\<lambda>m r. btm_insert r (0::nat) m) [] (relations g)"
  note init = initial_strata [of "relations g", folded s0_def]
  have "strata_rounds (Suc (length s0)) g s0 = Some s"
    using res by (auto simp: compute_strata_def s0_def Let_def split: option.splits)
  then obtain j where j: "stratum_or_0 s = lr_passes g j (stratum_or_0 s0)"
    "lr_pass g (stratum_or_0 s) (relations g) = stratum_or_0 s"
    and "btm_wf s" "dom (map_of s) = set (relations g)"
    using strata_rounds_Some [OF wf, of "Suc (length s0)" s0 s 0] init rounds_fit [OF small] by auto
  then show "btm_wf s" and "dom (map_of s) = set (relations g)" by simp_all
  have "level_rounds.solution (relations g) (level_edges g) (stratum_or_0 s)"
    by (rule lr.pass_fixed_solution [OF j(2)])
  then show "stratifies g (stratum_or_0 s)" by (simp add: stratifies_solution [OF wf])
  assume "stratifies g f" and "r \<in> set (relations g)"
  then show "stratum_or_0 s r \<le> f r"
    using lr.fixed_pass_least [of g j "stratum_or_0 s0" r] j init(1) lr.least_solution_le [of g f r]
    by (simp add: stratifies_solution [OF wf])
qed

lemma compute_strata_total:
  assumes wf: "graph_wf g" and small: "length (relations g) < 2 ^ 32" and ex: "stratifies g f"
  shows "\<exists>s. compute_strata g = Inr s"
proof -
  define s0 where "s0 = foldl (\<lambda>m r. btm_insert r (0::nat) m) [] (relations g)"
  note init = initial_strata [of "relations g", folded s0_def]
  have sol: "level_rounds.solution (relations g) (level_edges g) f"
    using ex by (simp add: stratifies_solution [OF wf])
  have "lr_pass g (lr_passes g (length s0) (stratum_or_0 s0)) (relations g)
      = lr_passes g (length s0) (stratum_or_0 s0)"
    by (rule lr.passes_stable [OF sol]) (simp_all add: init)
  then have "strata_rounds (Suc (length s0)) g s0 \<noteq> None"
    using strata_rounds_None [OF wf, of "Suc (length s0)" s0 0 "length s0"] init rounds_fit [OF small]
    by auto
  then show ?thesis by (auto simp: compute_strata_def s0_def Let_def split: option.splits)
qed

section \<open>The graph operations\<close>

lemma map_of_entry_or_default:
  "map_of (entry_or_default k m) = (if map_of m k = None then (map_of m)(k \<mapsto> []) else map_of m)"
  by (auto simp: entry_or_default_def split: option.splits)

lemma edges_from_or_default [simp]: "edges_from (entry_or_default k m) r = edges_from m r"
  by (auto simp: edges_from_def map_of_entry_or_default)

lemma edges_from_insert [simp]:
  "edges_from (entry_insert k x m) r = (if r = k then bts_insert x (edges_from m k) else edges_from m r)"
  by (simp add: edges_from_def entry_insert_def)

lemma fst_entry_or_default: "fst ` set (entry_or_default k m) = insert k (fst ` set m)"
  by (auto simp: entry_or_default_def map_of_eq_None_iff split: option.splits dest: map_of_SomeD
      intro: rev_image_eqI)

lemma btm_wf_entry: "btm_wf m \<Longrightarrow> btm_wf (entry_or_default k m)" "btm_wf m \<Longrightarrow> btm_wf (entry_insert k x m)"
  by (auto simp: entry_or_default_def entry_insert_def btm_wf_insert split: option.splits)

lemmas graph_op_defs = ensure_relation_def add_positive_def add_negative_def add_closed_def
  dependencies_def negative_dependencies_def closed_dependencies_def relations_def

lemma set_relations_ops:
  "set (relations (ensure_relation g r)) = insert r (set (relations g))"
  "set (relations (add_positive g h b)) = insert h (insert b (set (relations g)))"
  "set (relations (add_negative g h b)) = insert b (set (relations g))"
  "set (relations (add_closed g h b)) = insert b (set (relations g))"
  by (simp_all add: graph_op_defs Let_def fst_entry_or_default entry_insert_def)

lemma dependencies_ops [simp]:
  "dependencies (ensure_relation g r) q = dependencies g q"
  "negative_dependencies (ensure_relation g r) q = negative_dependencies g q"
  "closed_dependencies (ensure_relation g r) q = closed_dependencies g q"
  "dependencies (add_positive g h b) q =
     (if q = h then bts_insert b (dependencies g h) else dependencies g q)"
  "negative_dependencies (add_positive g h b) q = negative_dependencies g q"
  "closed_dependencies (add_positive g h b) q = closed_dependencies g q"
  "dependencies (add_negative g h b) q = dependencies g q"
  "negative_dependencies (add_negative g h b) q =
     (if q = h then bts_insert b (negative_dependencies g h) else negative_dependencies g q)"
  "closed_dependencies (add_negative g h b) q = closed_dependencies g q"
  "dependencies (add_closed g h b) q = dependencies g q"
  "negative_dependencies (add_closed g h b) q = negative_dependencies g q"
  "closed_dependencies (add_closed g h b) q =
     (if q = h then bts_insert b (closed_dependencies g h) else closed_dependencies g q)"
  by (simp_all add: graph_op_defs Let_def)

section \<open>Properties\<close>

text \<open>
  C10. Stratification: on a graph whose edges join known relations (with fewer than \<open>2 ^ 32\<close> of
  them), \<open>compute_strata\<close> either returns the least levels that put every negated and every closed
  dependency strictly below and every other one not above, or reports an error, and then no such levels
  exist. Its bound on the number of rounds is therefore never the cause of an error.
\<close>

theorem compute_strata_correct:
  assumes "graph_wf g" and "length (relations g) < 2 ^ 32"
  shows "case compute_strata g of
      Inl e \<Rightarrow> (\<nexists>f. stratifies g f)
    | Inr s \<Rightarrow> dom (map_of s) = set (relations g) \<and> stratifies g (stratum_or_0 s) \<and>
        (\<forall>f. stratifies g f \<longrightarrow> (\<forall>r\<in>set (relations g). stratum_or_0 s r \<le> f r))"
  using compute_strata_Inr [OF assms] compute_strata_total [OF assms] by (cases "compute_strata g") auto

definition demo_graph :: DependencyGraph where
  "demo_graph = add_negative (add_positive DependencyGraph_default ''p'' ''e'') ''p'' ''q''"

theorem compute_strata_correct_witness:
  "graph_wf demo_graph \<and> length (relations demo_graph) < 2 ^ 32 \<and>
   (case compute_strata demo_graph of Inl e \<Rightarrow> False | Inr s \<Rightarrow> stratum_or_0 s ''p'' = 1 \<and> stratifies demo_graph (stratum_or_0 s))"
proof -
  have h: "graph_wf demo_graph" "length (relations demo_graph) < 2 ^ 32" by code_simp+
  have "case compute_strata demo_graph of Inl e \<Rightarrow> False | Inr s \<Rightarrow> stratum_or_0 s ''p'' = 1" by code_simp
  with compute_strata_correct [OF h] h show ?thesis by (auto split: sum.splits)
qed

end
