(* ===== verification/Datalog_Validate.thy ===== *)
theory Datalog_Validate
  imports Datalog_Strata "HOL-Library.Multiset"
begin

text \<open>
  Program validation (\<open>lib/oxdatalog/src/validate.rs\<close>). Validation is generic in the control
  callback that it polls; the callback is a fallible action on the caller's state.
\<close>

section \<open>Limits and the validated program\<close>

record ValidationLimits =
  max_rules :: nat
  max_atoms_per_rule :: nat
  max_arity :: nat
  max_identifier_bytes :: nat
  max_source_bytes :: nat
  max_constant_bytes :: nat

definition ValidationLimits_default :: ValidationLimits where
  "ValidationLimits_default = \<lparr>max_rules = 10000, max_atoms_per_rule = 256, max_arity = 64,
     max_identifier_bytes = 1024, max_source_bytes = 8192, max_constant_bytes = 1024 * 1024\<rparr>"

type_synonym arity_map = "(RelationId, nat) btree_map"

record ValidatedProgram =
  vp_rules :: "Rule list"
  vp_arities :: arity_map
  vp_dependencies :: DependencyGraph
  vp_strata :: strata

definition vp_arity :: "ValidatedProgram \<Rightarrow> RelationId \<Rightarrow> nat option" where
  "vp_arity vp r = map_of (vp_arities vp) r"

definition vp_stratum :: "ValidatedProgram \<Rightarrow> RelationId \<Rightarrow> nat option" where
  "vp_stratum vp r = map_of (vp_strata vp) r"

definition vp_max_stratum :: "ValidatedProgram \<Rightarrow> nat" where
  "vp_max_stratum vp = (case map snd (vp_strata vp) of [] \<Rightarrow> 0 | n # ns \<Rightarrow> foldl max n ns)"

datatype 'e ControlledValidationError = Validation ValidationError | Control 'e

type_synonym ('s, 'e, 'a) validation = "('s, 'e ControlledValidationError, 'a) fallible"

section \<open>Checks\<close>

definition check_identifier :: "string \<Rightarrow> nat \<Rightarrow> RuleId \<Rightarrow> nat \<Rightarrow> ('s, ValidationError, unit) fallible" where
  "check_identifier kind actual rule limit =
     (if actual > limit then err (IdentifierLimit kind rule actual limit) else ok ())"

text \<open>The body of the loop over the terms of an atom.\<close>

definition check_term ::
  "('s, 'e, unit) fallible \<Rightarrow> RuleId \<Rightarrow> ValidationLimits \<Rightarrow> bool \<Rightarrow> PatternTerm \<Rightarrow>
   Variable btree_set \<Rightarrow> ('s, 'e, Variable btree_set) validation" where
  "check_term check_control rule limits allow_generated t variables =
     andthen (map_err Control check_control)
       (case t of
          PVariable variable \<Rightarrow>
            andthen (map_err Validation (check_identifier ''variable'' (length variable) rule
                (max_identifier_bytes limits)))
              (ok (bts_insert variable variables))
        | PConstant value \<Rightarrow>
            (let actual = Value_estimated_bytes value
             in if actual > max_constant_bytes limits
                then err (Validation (TermLimit rule actual (max_constant_bytes limits)))
                else ok variables)
        | PGeneratedBlankNode generator \<Rightarrow>
            andthen (map_err Validation (check_identifier ''blank-node generator''
                (length generator) rule (max_identifier_bytes limits)))
              (if \<not> allow_generated
               then err (Validation (GeneratedTermOutsideHead rule generator))
               else ok variables))"

definition check_atom ::
  "('s, 'e, unit) fallible \<Rightarrow> Atom \<Rightarrow> RuleId \<Rightarrow> ValidationLimits \<Rightarrow> arity_map \<Rightarrow>
   Variable btree_set \<Rightarrow> bool \<Rightarrow> ('s, 'e, arity_map \<times> Variable btree_set) validation" where
  "check_atom check_control atom rule limits arities variables allow_generated =
     andthen (map_err Control check_control)
     (andthen (map_err Validation (check_identifier ''relation'' (length (relation atom)) rule
          (max_identifier_bytes limits)))
     (if Atom_arity atom > max_arity limits
      then err (Validation (ArityLimit (relation atom) (Atom_arity atom) (max_arity limits)))
      else
        let previous = map_of arities (relation atom);
            arities = btm_insert (relation atom) (Atom_arity atom) arities;
            check_terms = bind
              (for_each (check_term check_control rule limits allow_generated) (terms atom) variables)
              (\<lambda>variables. ok (arities, variables))
        in case previous of
             Some expected \<Rightarrow>
               (if expected \<noteq> Atom_arity atom
                then err (Validation (ArityMismatch (relation atom) expected (Atom_arity atom) rule))
                else check_terms)
           | None \<Rightarrow> check_terms))"

text \<open>
  A loop \<open>for variable in variables { if !bound.contains(..) return Err }\<close>.
\<close>

definition require_bound ::
  "(Variable \<Rightarrow> ValidationError) \<Rightarrow> Variable btree_set \<Rightarrow> Variable btree_set \<Rightarrow> ('s, 'e, unit) validation" where
  "require_bound e bound variables =
     for_each (\<lambda>v _. if v \<notin> set bound then err (Validation (e v)) else ok ()) variables ()"

type_synonym validate_state = "RuleId btree_set \<times> arity_map \<times> DependencyGraph"

text \<open>The loops over the positive body, the negative body, and the head checks of one rule.\<close>

definition add_body_edge :: "DependencyGraph \<Rightarrow> Rule \<Rightarrow> Atom \<Rightarrow> DependencyGraph" where
  "add_body_edge g r a =
     (let g' = add_positive g (relation (head r)) (relation a)
      in if run_once r then add_closed g' (relation (head r)) (relation a) else g')"

definition check_positive_body ::
  "('s, 'e, unit) fallible \<Rightarrow> ValidationLimits \<Rightarrow> Rule \<Rightarrow> arity_map \<Rightarrow> DependencyGraph \<Rightarrow>
   ('s, 'e, arity_map \<times> Variable btree_set \<times> DependencyGraph) validation" where
  "check_positive_body check_control limits rule arities deps =
     for_each (\<lambda>atom (arities, body_variables, deps).
       bind (check_atom check_control atom (rule_id rule) limits arities body_variables False)
         (\<lambda>(arities, body_variables).
           ok (arities, body_variables, add_body_edge deps rule atom)))
       (positive_body rule) (arities, [], deps)"

definition check_negative_body ::
  "('s, 'e, unit) fallible \<Rightarrow> ValidationLimits \<Rightarrow> Rule \<Rightarrow> Variable btree_set \<Rightarrow> arity_map \<Rightarrow>
   DependencyGraph \<Rightarrow> ('s, 'e, arity_map \<times> DependencyGraph) validation" where
  "check_negative_body check_control limits rule body_variables arities deps =
     for_each (\<lambda>atom (arities, deps).
       bind (check_atom check_control atom (rule_id rule) limits arities [] False)
         (\<lambda>(arities, negative_variables).
           andthen (require_bound (UnsafeNegativeVariable (rule_id rule)) body_variables
               negative_variables)
             (ok (arities, add_negative deps (relation (head rule)) (relation atom)))))
       (negative_body rule) (arities, deps)"

definition check_head ::
  "('s, 'e, unit) fallible \<Rightarrow> ValidationLimits \<Rightarrow> Rule \<Rightarrow> Variable btree_set \<Rightarrow> arity_map \<Rightarrow>
   ('s, 'e, arity_map) validation" where
  "check_head check_control limits rule body_variables arities =
     bind (check_atom check_control (head rule) (rule_id rule) limits arities [] True)
       (\<lambda>(arities, head_variables).
         andthen
           (for_each (\<lambda>t _. case t of
                PGeneratedBlankNode generator \<Rightarrow>
                  (if \<not> run_once rule
                   then err (Validation (GeneratedTermRequiresRunOnce (rule_id rule) generator))
                   else ok ())
              | _ \<Rightarrow> ok ()) (terms (head rule)) ())
           (andthen (require_bound (UnsafeHeadVariable (rule_id rule)) body_variables head_variables)
             (ok arities)))"

text \<open>The body of the loop over the sorted rules.\<close>

definition check_rule ::
  "('s, 'e, unit) fallible \<Rightarrow> ValidationLimits \<Rightarrow> Rule \<Rightarrow> validate_state \<Rightarrow>
   ('s, 'e, validate_state) validation" where
  "check_rule check_control limits rule st =
     (case st of (ids, arities, deps) \<Rightarrow>
       andthen (map_err Control check_control)
       (let atom_count = sat_add (sat_add (length (positive_body rule)) (length (negative_body rule))) 1;
            check_source =
              (case rule_source rule of
                 Some src \<Rightarrow>
                   (if length src > max_source_bytes limits
                    then err (Validation (SourceLimit (rule_id rule) (length src)
                      (max_source_bytes limits)))
                    else ok ())
               | None \<Rightarrow> ok ())
        in if atom_count > max_atoms_per_rule limits
           then err (Validation (AtomLimit (rule_id rule) atom_count (max_atoms_per_rule limits)))
           else if rule_id rule \<in> set ids
           then err (Validation (DuplicateRuleId (rule_id rule)))
           else
             andthen (map_err Validation (check_identifier ''rule'' (length (rule_id rule))
                 (rule_id rule) (max_identifier_bytes limits)))
             (andthen check_source
             (bind (check_positive_body check_control limits rule arities deps)
             (\<lambda>(arities, body_variables, deps).
               bind (check_negative_body check_control limits rule body_variables arities deps)
               (\<lambda>(arities, deps).
                 let deps = ensure_relation deps (relation (head rule))
                 in bind (check_head check_control limits rule body_variables arities)
                    (\<lambda>arities. ok (bts_insert (rule_id rule) ids, arities, deps))))))))"

definition validate_with_control ::
  "('s, 'e, unit) fallible \<Rightarrow> Program \<Rightarrow> ValidationLimits \<Rightarrow> ('s, 'e, ValidatedProgram) validation" where
  "validate_with_control check_control program limits =
     andthen (map_err Control check_control)
     (if length (rules program) > max_rules limits
      then err (Validation (RuleLimit (length (rules program)) (max_rules limits)))
      else
        let sorted_rules = sort_key rule_id (rules program)
        in andthen (map_err Control check_control)
           (bind (for_each (check_rule check_control limits) sorted_rules
               ([], [], DependencyGraph_default))
           (\<lambda>(ids, arities, deps).
             case compute_strata deps of
               Inl e \<Rightarrow> err (Validation e)
             | Inr strata \<Rightarrow>
                 andthen (map_err Control check_control)
                   (ok \<lparr>vp_rules = sorted_rules, vp_arities = arities, vp_dependencies = deps,
                      vp_strata = strata\<rparr>))))"

text \<open>
  \<open>validate\<close> polls a callback whose error type is \<open>Infallible\<close>: the callback always
  succeeds and the \<open>Control\<close> branch has no values. HOL types are not empty, so that
  branch is typed here by \<open>ValidationError\<close>; no run takes it.
\<close>

definition validate :: "Program \<Rightarrow> ValidationLimits \<Rightarrow> ValidationError + ValidatedProgram" where
  "validate program limits =
     (case validate_with_control (ok ()) program limits () of
        Inr (vp, _) \<Rightarrow> Inr vp
      | Inl (Validation e) \<Rightarrow> Inl e
      | Inl (Control e) \<Rightarrow> Inl e)"

section \<open>What validation establishes\<close>

definition term_within :: "ValidationLimits \<Rightarrow> PatternTerm \<Rightarrow> bool" where
  "term_within lim t = (case t of
     PVariable v \<Rightarrow> length v \<le> max_identifier_bytes lim
   | PConstant c \<Rightarrow> Value_estimated_bytes c \<le> max_constant_bytes lim
   | PGeneratedBlankNode g \<Rightarrow> length g \<le> max_identifier_bytes lim)"

definition atom_within :: "ValidationLimits \<Rightarrow> Atom \<Rightarrow> bool" where
  "atom_within lim a \<longleftrightarrow> length (relation a) \<le> max_identifier_bytes lim \<and>
     Atom_arity a \<le> max_arity lim \<and> list_all (term_within lim) (terms a)"

definition no_generators :: "Atom \<Rightarrow> bool" where
  "no_generators a \<longleftrightarrow> (\<forall>g. PGeneratedBlankNode g \<notin> set (terms a))"

definition rule_within :: "ValidationLimits \<Rightarrow> Rule \<Rightarrow> bool" where
  "rule_within lim r \<longleftrightarrow>
     sat_add (sat_add (length (positive_body r)) (length (negative_body r))) 1 \<le> max_atoms_per_rule lim \<and>
     length (rule_id r) \<le> max_identifier_bytes lim \<and>
     (\<forall>src. rule_source r = Some src \<longrightarrow> length src \<le> max_source_bytes lim) \<and>
     (\<forall>a\<in>set (rule_atoms r). atom_within lim a)"

text \<open>Safety: the positive body binds the variables of the head and of the negated atoms.\<close>

definition rule_safe :: "Rule \<Rightarrow> bool" where
  "rule_safe r \<longleftrightarrow> atom_vars (head r) \<subseteq> body_vars r \<and>
     (\<forall>a\<in>set (negative_body r). atom_vars a \<subseteq> body_vars r) \<and>
     (\<forall>a\<in>set (positive_body r) \<union> set (negative_body r). no_generators a) \<and>
     (run_once r \<or> no_generators (head r))"

definition arity_consistent :: "(RelationId \<Rightarrow> nat option) \<Rightarrow> Rule list \<Rightarrow> bool" where
  "arity_consistent ar rs \<longleftrightarrow>
     (\<forall>r\<in>set rs. \<forall>a\<in>set (rule_atoms r). ar (relation a) = Some (Atom_arity a))"

text \<open>A stratification of a rule list: what a rule demands of the levels of its relations.\<close>

definition rule_stratified :: "(RelationId \<Rightarrow> nat) \<Rightarrow> Rule \<Rightarrow> bool" where
  "rule_stratified f r \<longleftrightarrow>
     (\<forall>a\<in>set (positive_body r). f (relation a) \<le> f (relation (head r)) \<and>
        (run_once r \<longrightarrow> f (relation a) < f (relation (head r)))) \<and>
     (\<forall>a\<in>set (negative_body r). f (relation a) < f (relation (head r)))"

definition program_relations :: "Rule list \<Rightarrow> RelationId set" where
  "program_relations rs = (\<Union>r\<in>set rs. relation ` set (rule_atoms r))"

text \<open>The programs validation is meant to accept.\<close>

definition program_valid :: "ValidationLimits \<Rightarrow> Rule list \<Rightarrow> bool" where
  "program_valid lim rs \<longleftrightarrow> length rs \<le> max_rules lim \<and> distinct (map rule_id rs) \<and>
     (\<forall>r\<in>set rs. rule_within lim r \<and> rule_safe r) \<and>
     (\<exists>ar. arity_consistent ar rs) \<and> (\<exists>f. \<forall>r\<in>set rs. rule_stratified f r)"

text \<open>What the engine relies on.\<close>

definition vp_ok :: "ValidatedProgram \<Rightarrow> bool" where
  "vp_ok vp \<longleftrightarrow> sorted_wrt (<) (map rule_id (vp_rules vp)) \<and>
     (\<forall>r\<in>set (vp_rules vp). rule_safe r) \<and>
     btm_wf (vp_arities vp) \<and> dom (map_of (vp_arities vp)) = program_relations (vp_rules vp) \<and>
     arity_consistent (map_of (vp_arities vp)) (vp_rules vp) \<and>
     graph_wf (vp_dependencies vp) \<and>
     set (relations (vp_dependencies vp)) = program_relations (vp_rules vp) \<and>
     btm_wf (vp_strata vp) \<and> dom (map_of (vp_strata vp)) = program_relations (vp_rules vp) \<and>
     (\<forall>r\<in>set (vp_rules vp). rule_stratified (stratum_or_0 (vp_strata vp)) r)"

text \<open>
  \<open>rejects ctl good\<close> as the error condition of a run: a validation error is reported only
  where \<open>good\<close> fails, and a control error only where the callback \<open>ctl\<close> reports it.
\<close>

definition rejects :: "('s, 'e, unit) fallible \<Rightarrow> bool \<Rightarrow> 'e ControlledValidationError \<Rightarrow> bool" where
  "rejects ctl good e = (case e of Validation _ \<Rightarrow> \<not> good | Control c \<Rightarrow> (\<exists>s. ctl s = Inl c))"

lemma rejects_simps [simp]: "rejects ctl good (Validation e) \<longleftrightarrow> \<not> good"
  "rejects ctl good (Control c) \<longleftrightarrow> (\<exists>s. ctl s = Inl c)"
  by (simp_all add: rejects_def)

lemma runs_control: "runs (map_err Control ctl) (rejects ctl good) (\<lambda>_. True)"
  by (auto simp: runs_def map_err_def rejects_def split: sum.splits)

lemma runs_after_control: "runs m (rejects ctl good) Q \<Longrightarrow> runs (andthen (map_err Control ctl) m) (rejects ctl good) Q"
  by (rule runs_bind [OF runs_control])

lemma runs_check_identifier:
  "(good \<Longrightarrow> actual \<le> limit) \<Longrightarrow>
   runs (map_err Validation (check_identifier kind actual rule limit)) (rejects ctl good) (\<lambda>_. actual \<le> limit)"
  by (auto simp: runs_def map_err_def check_identifier_def err_def ok_def)

lemma runs_check_term:
  assumes "good \<Longrightarrow> term_within lim t" and "good \<Longrightarrow> \<not> allow \<Longrightarrow> \<forall>g. t \<noteq> PGeneratedBlankNode g"
  shows "runs (check_term ctl rule lim allow t vs) (rejects ctl good)
    (\<lambda>vs'. term_within lim t \<and> set vs' = set vs \<union> {v. t = PVariable v} \<and> (allow \<or> (\<forall>g. t \<noteq> PGeneratedBlankNode g)))"
  unfolding check_term_def
  by (rule runs_after_control, cases t)
    (use assms in \<open>auto simp: term_within_def Let_def
       intro!: runs_bind [OF runs_check_identifier] runs_ok runs_err\<close>)

lemma runs_check_terms:
  assumes "good \<Longrightarrow> list_all (term_within lim) (terms a)" and "good \<Longrightarrow> \<not> allow \<Longrightarrow> no_generators a"
  shows "runs (for_each (check_term ctl rule lim allow) (terms a) vs) (rejects ctl good)
    (\<lambda>vs'. list_all (term_within lim) (terms a) \<and> set vs' = set vs \<union> atom_vars a \<and> (allow \<or> no_generators a))"
  by (rule runs_for_each [where I = "\<lambda>A vs'. (\<forall>t\<in>A. term_within lim t) \<and> set vs' = set vs \<union> {v. PVariable v \<in> A} \<and>
        (allow \<or> (\<forall>g. PGeneratedBlankNode g \<notin> A))"])
    (use assms in \<open>auto simp: list_all_iff no_generators_def atom_vars_def
       intro!: runs_weaken [OF runs_check_term [where good = good]]\<close>)

lemma runs_check_atom:
  assumes "good \<Longrightarrow> atom_within lim a" and "good \<Longrightarrow> \<not> allow \<Longrightarrow> no_generators a"
    and "good \<Longrightarrow> map_of ar (relation a) \<in> {None, Some (Atom_arity a)}"
  shows "runs (check_atom ctl a rule lim ar vs allow) (rejects ctl good)
    (\<lambda>(ar', vs'). ar' = btm_insert (relation a) (Atom_arity a) ar \<and>
       map_of ar (relation a) \<in> {None, Some (Atom_arity a)} \<and>
       atom_within lim a \<and> set vs' = set vs \<union> atom_vars a \<and> (allow \<or> no_generators a))"
  (is "runs _ _ ?Q")
proof -
  have terms: "map_of ar (relation a) \<in> {None, Some (Atom_arity a)} \<Longrightarrow>
    length (relation a) \<le> max_identifier_bytes lim \<Longrightarrow> Atom_arity a \<le> max_arity lim \<Longrightarrow>
    runs (bind (for_each (check_term ctl rule lim allow) (terms a) vs)
      (\<lambda>vs'. ok (btm_insert (relation a) (Atom_arity a) ar, vs'))) (rejects ctl good) ?Q"
    by (rule runs_bind [OF runs_check_terms]) (use assms in \<open>auto simp: atom_within_def intro: runs_ok\<close>)
  show ?thesis
    unfolding check_atom_def Let_def
    by (intro runs_after_control runs_bind [OF runs_check_identifier] runs_if runs_err)
      (use assms terms in \<open>auto simp: atom_within_def split: option.splits intro!: runs_err\<close>)
qed

text \<open>
  The arity map after a set of atoms, and the dependency graph with given edge sets.
\<close>

definition arity_inv :: "arity_map \<Rightarrow> Atom set \<Rightarrow> bool" where
  "arity_inv ar S \<longleftrightarrow> btm_wf ar \<and> dom (map_of ar) = relation ` S \<and>
     (\<forall>a\<in>S. map_of ar (relation a) = Some (Atom_arity a))"

definition edges_inv ::
  "DependencyGraph \<Rightarrow> (RelationId \<times> RelationId) set \<Rightarrow> (RelationId \<times> RelationId) set \<Rightarrow>
   (RelationId \<times> RelationId) set \<Rightarrow> bool" where
  "edges_inv g P N C \<longleftrightarrow> btm_wf (positive_edges g) \<and>
     (\<forall>r. set (dependencies g r) = P `` {r} \<and> set (negative_dependencies g r) = N `` {r} \<and>
        set (closed_dependencies g r) = C `` {r})"

lemma arity_inv_insert:
  assumes "arity_inv ar S" and "map_of ar (relation a) \<in> {None, Some (Atom_arity a)}"
  shows "arity_inv (btm_insert (relation a) (Atom_arity a) ar) (insert a S)"
proof -
  have "map_of ar (relation b) = Some (Atom_arity b)" if "b \<in> S" for b
    using assms(1) that by (simp add: arity_inv_def)
  then have "Atom_arity b = Atom_arity a" if "b \<in> S" "relation b = relation a" for b
    using assms(2) that by fastforce
  with assms(1) show ?thesis
    by (auto simp: arity_inv_def btm_wf_insert dom_def)
qed

lemma positive_edges_wf_ops:
  assumes "btm_wf (positive_edges g)"
  shows "btm_wf (positive_edges (ensure_relation g r))" "btm_wf (positive_edges (add_positive g h b))"
    "btm_wf (positive_edges (add_negative g h b))" "btm_wf (positive_edges (add_closed g h b))"
  using assms by (simp_all add: graph_op_defs Let_def btm_wf_entry)

lemma edges_inv_ops:
  "edges_inv g P N C \<Longrightarrow> edges_inv (ensure_relation g r) P N C"
  "edges_inv g P N C \<Longrightarrow> edges_inv (add_positive g h b) (insert (h, b) P) N C"
  "edges_inv g P N C \<Longrightarrow> edges_inv (add_negative g h b) P (insert (h, b) N) C"
  "edges_inv g P N C \<Longrightarrow> edges_inv (add_closed g h b) P N (insert (h, b) C)"
  by (auto simp: edges_inv_def positive_edges_wf_ops)

lemma arity_inv_consistent:
  assumes "arity_inv ar S" and "\<forall>b\<in>insert a S. c (relation b) = Some (Atom_arity b)"
  shows "map_of ar (relation a) \<in> {None, Some (Atom_arity a)}"
proof (cases "relation a \<in> relation ` S")
  case True
  then obtain b where "b \<in> S" "relation b = relation a" by force
  with assms have "map_of ar (relation a) = Some (Atom_arity b)"
    and "Some (Atom_arity b) = Some (Atom_arity a)"
    by (auto simp: arity_inv_def)
  then show ?thesis by simp
next
  case False
  then have "relation a \<notin> dom (map_of ar)" using assms(1) by (simp add: arity_inv_def)
  then show ?thesis by auto
qed

lemma edges_inv_add_body_edge:
  fixes r :: Rule
  defines "h \<equiv> relation (head r)"
  assumes "edges_inv g (P \<union> {h} \<times> R) N (if run_once r then C \<union> {h} \<times> R else C)"
  shows "edges_inv (add_body_edge g r a) (P \<union> {h} \<times> insert (relation a) R) N
    (if run_once r then C \<union> {h} \<times> insert (relation a) R else C)"
proof -
  have "insert (h, b) (Q \<union> {h} \<times> R) = Q \<union> {h} \<times> insert b R" for Q and b :: RelationId
    by auto
  with edges_inv_ops(2,4) assms(2) show ?thesis
    by (auto simp: add_body_edge_def h_def Let_def)
qed

lemma relations_add_body_edge:
  "insert (relation (head r)) (set (relations (add_body_edge g r a))) =
    insert (relation a) (insert (relation (head r)) (set (relations g)))"
  by (auto simp: add_body_edge_def Let_def set_relations_ops)

text \<open>The loop over the positive body.\<close>

definition positive_inv ::
  "ValidationLimits \<Rightarrow> Rule \<Rightarrow> Atom set \<Rightarrow> DependencyGraph \<Rightarrow> (RelationId \<times> RelationId) set \<Rightarrow> (RelationId \<times> RelationId) set \<Rightarrow>
   (RelationId \<times> RelationId) set \<Rightarrow> Atom set \<Rightarrow> arity_map \<times> Variable btree_set \<times> DependencyGraph \<Rightarrow> bool" where
  "positive_inv lim r S g P N C A acc \<longleftrightarrow> (case acc of (ar', vs, g') \<Rightarrow>
     arity_inv ar' (S \<union> A) \<and> set vs = \<Union> (atom_vars ` A) \<and> (\<forall>a\<in>A. atom_within lim a \<and> no_generators a) \<and>
     edges_inv g' (P \<union> {relation (head r)} \<times> relation ` A) N
       (if run_once r then C \<union> {relation (head r)} \<times> relation ` A else C) \<and>
     insert (relation (head r)) (set (relations g')) =
       insert (relation (head r)) (set (relations g)) \<union> relation ` A)"

lemma positive_inv_step:
  assumes "positive_inv lim r S g P N C A (ar, vs, g')"
    and "map_of ar (relation a) \<in> {None, Some (Atom_arity a)}"
    and "set vs' = set vs \<union> atom_vars a" and "no_generators a" and "atom_within lim a"
  shows "positive_inv lim r S g P N C (insert a A)
    (btm_insert (relation a) (Atom_arity a) ar, vs', add_body_edge g' r a)"
  unfolding positive_inv_def prod.case image_insert
proof (intro conjI)
  show "arity_inv (btm_insert (relation a) (Atom_arity a) ar) (S \<union> insert a A)"
    using arity_inv_insert assms(1,2) by (simp add: positive_inv_def)
  show "edges_inv (add_body_edge g' r a) (P \<union> {relation (head r)} \<times> insert (relation a) (relation ` A)) N
      (if run_once r then C \<union> {relation (head r)} \<times> insert (relation a) (relation ` A) else C)"
    by (rule edges_inv_add_body_edge) (use assms(1) in \<open>simp add: positive_inv_def\<close>)
  show "insert (relation (head r)) (set (relations (add_body_edge g' r a))) =
      insert (relation (head r)) (set (relations g)) \<union> insert (relation a) (relation ` A)"
    unfolding relations_add_body_edge using assms(1) by (auto simp: positive_inv_def)
qed (use assms in \<open>auto simp: positive_inv_def\<close>)

lemma runs_check_positive_body:
  assumes ar: "arity_inv ar S" and g: "edges_inv g P N C"
    and good: "good \<Longrightarrow> rule_within lim r \<and> rule_safe r"
    and consistent: "good \<Longrightarrow> \<forall>a\<in>S \<union> set (rule_atoms r). c (relation a) = Some (Atom_arity a)"
  shows "runs (check_positive_body ctl lim r ar g) (rejects ctl good)
    (positive_inv lim r S g P N C (set (positive_body r)))"
  unfolding check_positive_body_def
proof (rule runs_for_each [where I = "positive_inv lim r S g P N C"])
  show "positive_inv lim r S g P N C {} (ar, [], g)" using ar g by (simp add: positive_inv_def)
next
  fix A a acc
  assume a: "a \<in> set (positive_body r)" and A: "A \<subseteq> set (positive_body r)"
    and inv: "positive_inv lim r S g P N C A acc"
  obtain ar' vs g' where acc: "acc = (ar', vs, g')" by (cases acc) auto
  have "runs (check_atom ctl a (rule_id r) lim ar' vs False) (rejects ctl good)
    (\<lambda>(ar'', vs'). ar'' = btm_insert (relation a) (Atom_arity a) ar' \<and>
       map_of ar' (relation a) \<in> {None, Some (Atom_arity a)} \<and>
       atom_within lim a \<and> set vs' = set vs \<union> atom_vars a \<and> (False \<or> no_generators a))"
  proof (rule runs_check_atom)
    assume good
    show "map_of ar' (relation a) \<in> {None, Some (Atom_arity a)}"
      by (rule arity_inv_consistent [of ar' "S \<union> A" a c])
        (use inv acc consistent [OF \<open>good\<close>] a A in \<open>auto simp: positive_inv_def rule_atoms_def\<close>)
  qed (use good a in \<open>auto simp: rule_within_def rule_safe_def rule_atoms_def\<close>)
  then show "runs (case acc of (ar, vs, g) \<Rightarrow> bind (check_atom ctl a (rule_id r) lim ar vs False)
      (\<lambda>(ar, vs). ok (ar, vs, add_body_edge g r a))) (rejects ctl good) (positive_inv lim r S g P N C (insert a A))"
    unfolding acc prod.case
    by (rule runs_bind)
      (use inv acc in \<open>auto intro!: runs_ok positive_inv_step\<close>)
qed

text \<open>The loop over the negative body.\<close>

lemma runs_require_bound:
  assumes "good \<Longrightarrow> set variables \<subseteq> set bound"
  shows "runs (require_bound e bound variables) (rejects ctl good) (\<lambda>_. set variables \<subseteq> set bound)"
  unfolding require_bound_def
  by (rule runs_for_each [where I = "\<lambda>A _. \<forall>v\<in>A. v \<in> set bound"])
    (use assms in \<open>auto intro!: runs_ok runs_err simp: subset_iff\<close>)

definition negative_inv ::
  "ValidationLimits \<Rightarrow> Rule \<Rightarrow> Variable set \<Rightarrow> Atom set \<Rightarrow> DependencyGraph \<Rightarrow> (RelationId \<times> RelationId) set \<Rightarrow>
   (RelationId \<times> RelationId) set \<Rightarrow> (RelationId \<times> RelationId) set \<Rightarrow> Atom set \<Rightarrow>
   arity_map \<times> DependencyGraph \<Rightarrow> bool" where
  "negative_inv lim r V S g P N C A acc \<longleftrightarrow> (case acc of (ar', g') \<Rightarrow>
     arity_inv ar' (S \<union> A) \<and> (\<forall>a\<in>A. atom_within lim a \<and> no_generators a \<and> atom_vars a \<subseteq> V) \<and>
     edges_inv g' P (N \<union> {relation (head r)} \<times> relation ` A) C \<and>
     set (relations g') = set (relations g) \<union> relation ` A)"

lemma negative_inv_step:
  assumes "negative_inv lim r V S g P N C A (ar, g')"
    and "map_of ar (relation a) \<in> {None, Some (Atom_arity a)}"
    and "atom_vars a \<subseteq> V" and "no_generators a" and "atom_within lim a"
  shows "negative_inv lim r V S g P N C (insert a A)
    (btm_insert (relation a) (Atom_arity a) ar, add_negative g' (relation (head r)) (relation a))"
proof -
  let ?h = "relation (head r)"
  have "N \<union> {?h} \<times> relation ` insert a A = insert (?h, relation a) (N \<union> {?h} \<times> relation ` A)"
    by auto
  then show ?thesis
    using assms arity_inv_insert edges_inv_ops(3)
    by (auto simp: negative_inv_def set_relations_ops)
qed

lemma runs_check_negative_body:
  assumes ar: "arity_inv ar S" and g: "edges_inv g P N C" and vs: "set vs = body_vars r"
    and good: "good \<Longrightarrow> rule_within lim r \<and> rule_safe r"
    and consistent: "good \<Longrightarrow> \<forall>a\<in>S \<union> set (rule_atoms r). c (relation a) = Some (Atom_arity a)"
  shows "runs (check_negative_body ctl lim r vs ar g) (rejects ctl good)
    (negative_inv lim r (body_vars r) S g P N C (set (negative_body r)))"
  unfolding check_negative_body_def
proof (rule runs_for_each [where I = "negative_inv lim r (body_vars r) S g P N C"])
  show "negative_inv lim r (body_vars r) S g P N C {} (ar, g)" using ar g by (simp add: negative_inv_def)
next
  fix A a acc
  assume a: "a \<in> set (negative_body r)" and A: "A \<subseteq> set (negative_body r)"
    and inv: "negative_inv lim r (body_vars r) S g P N C A acc"
  obtain ar' g' where acc: "acc = (ar', g')" by (cases acc) auto
  have "runs (check_atom ctl a (rule_id r) lim ar' [] False) (rejects ctl good)
    (\<lambda>(ar'', vs'). ar'' = btm_insert (relation a) (Atom_arity a) ar' \<and>
       map_of ar' (relation a) \<in> {None, Some (Atom_arity a)} \<and>
       atom_within lim a \<and> set vs' = set [] \<union> atom_vars a \<and> (False \<or> no_generators a))"
  proof (rule runs_check_atom)
    assume good
    show "map_of ar' (relation a) \<in> {None, Some (Atom_arity a)}"
      by (rule arity_inv_consistent [of ar' "S \<union> A" a c])
        (use inv acc consistent [OF \<open>good\<close>] a A in \<open>auto simp: negative_inv_def rule_atoms_def\<close>)
  qed (use good a in \<open>auto simp: rule_within_def rule_safe_def rule_atoms_def\<close>)
  then show "runs (case acc of (ar, g) \<Rightarrow> bind (check_atom ctl a (rule_id r) lim ar [] False)
      (\<lambda>(ar, nvs). andthen (require_bound (UnsafeNegativeVariable (rule_id r)) vs nvs)
        (ok (ar, add_negative g (relation (head r)) (relation a))))) (rejects ctl good)
      (negative_inv lim r (body_vars r) S g P N C (insert a A))"
    unfolding acc prod.case
    by (rule runs_bind)
      (use inv acc vs good a in \<open>force simp: rule_safe_def
         intro!: runs_bind [OF runs_require_bound] runs_ok negative_inv_step\<close>)
qed

lemma runs_check_head:
  assumes ar: "arity_inv ar S" and vs: "set vs = body_vars r"
    and good: "good \<Longrightarrow> rule_within lim r \<and> rule_safe r"
    and consistent: "good \<Longrightarrow> \<forall>a\<in>S \<union> set (rule_atoms r). c (relation a) = Some (Atom_arity a)"
  shows "runs (check_head ctl lim r vs ar) (rejects ctl good)
    (\<lambda>ar'. arity_inv ar' (insert (head r) S) \<and> atom_within lim (head r) \<and> atom_vars (head r) \<subseteq> body_vars r \<and>
       (run_once r \<or> no_generators (head r)))"
proof -
  have "runs (check_atom ctl (head r) (rule_id r) lim ar [] True) (rejects ctl good)
    (\<lambda>(ar', vs'). ar' = btm_insert (relation (head r)) (Atom_arity (head r)) ar \<and>
       map_of ar (relation (head r)) \<in> {None, Some (Atom_arity (head r))} \<and>
       atom_within lim (head r) \<and> set vs' = set [] \<union> atom_vars (head r) \<and> (True \<or> no_generators (head r)))"
    (is "runs ?atom _ _")
  proof (rule runs_check_atom)
    assume good
    show "map_of ar (relation (head r)) \<in> {None, Some (Atom_arity (head r))}"
      by (rule arity_inv_consistent [OF ar, of "head r" c])
        (use consistent [OF \<open>good\<close>] in \<open>auto simp: rule_atoms_def\<close>)
  qed (use good in \<open>auto simp: rule_within_def rule_atoms_def\<close>)
  moreover have "runs (for_each (\<lambda>t _. case t of
      PGeneratedBlankNode gen \<Rightarrow> (if \<not> run_once r
        then err (Validation (GeneratedTermRequiresRunOnce (rule_id r) gen)) else ok ())
    | _ \<Rightarrow> ok ()) (terms (head r)) ()) (rejects ctl good) (\<lambda>_. run_once r \<or> no_generators (head r))"
    (is "runs ?generators _ _")
    by (rule runs_for_each [where I = "\<lambda>A _. run_once r \<or> (\<forall>gen. PGeneratedBlankNode gen \<notin> A)"])
      (use good in \<open>auto simp: no_generators_def rule_safe_def split: PatternTerm.splits
         intro!: runs_ok runs_err\<close>)
  ultimately show ?thesis
    unfolding check_head_def
    by (elim runs_bind [where m = ?atom])
      (use ar vs good in \<open>force simp: rule_safe_def intro!: arity_inv_insert
         runs_bind [where m = ?generators] runs_bind [OF runs_require_bound] runs_ok\<close>)
qed

text \<open>The loop over the rules: what holds once the rules \<open>D\<close> have been accepted.\<close>

definition pos_edges :: "Rule set \<Rightarrow> (RelationId \<times> RelationId) set" where
  "pos_edges D = (\<Union>r\<in>D. {relation (head r)} \<times> relation ` set (positive_body r))"

definition neg_edges :: "Rule set \<Rightarrow> (RelationId \<times> RelationId) set" where
  "neg_edges D = (\<Union>r\<in>D. {relation (head r)} \<times> relation ` set (negative_body r))"

definition run_once_edges :: "Rule set \<Rightarrow> (RelationId \<times> RelationId) set" where
  "run_once_edges D = pos_edges {r \<in> D. run_once r}"

definition atoms_of :: "Rule set \<Rightarrow> Atom set" where
  "atoms_of D = (\<Union>r\<in>D. set (rule_atoms r))"

lemma pos_edges_insert:
  "pos_edges (insert r D) = pos_edges D \<union> {relation (head r)} \<times> relation ` set (positive_body r)"
  "run_once_edges (insert r D) = (if run_once r
     then run_once_edges D \<union> {relation (head r)} \<times> relation ` set (positive_body r)
     else run_once_edges D)"
  by (auto simp: pos_edges_def run_once_edges_def)

lemma neg_edges_insert:
  "neg_edges (insert r D) = neg_edges D \<union> {relation (head r)} \<times> relation ` set (negative_body r)"
  by (auto simp: neg_edges_def)

lemma atoms_of_insert:
  "atoms_of (insert r D) =
    insert (head r) (atoms_of D \<union> set (positive_body r) \<union> set (negative_body r))"
  by (auto simp: atoms_of_def rule_atoms_def)

definition rules_inv :: "ValidationLimits \<Rightarrow> Rule list \<Rightarrow> validate_state \<Rightarrow> bool" where
  "rules_inv lim D st \<longleftrightarrow> (case st of (ids, ar, g) \<Rightarrow>
     set ids = rule_id ` set D \<and> distinct (map rule_id D) \<and> (\<forall>r\<in>set D. rule_within lim r \<and> rule_safe r) \<and>
     arity_inv ar (atoms_of (set D)) \<and> set (relations g) = relation ` atoms_of (set D) \<and>
     edges_inv g (pos_edges (set D)) (neg_edges (set D)) (run_once_edges (set D)))"

lemma rules_inv_step:
  assumes D: "rules_inv lim D (ids, ar, g)" and new: "rule_id r \<notin> set ids"
    and pos: "positive_inv lim r (atoms_of (set D)) g (pos_edges (set D)) (neg_edges (set D))
      (run_once_edges (set D)) (set (positive_body r)) (ar1, vs, g1)"
    and neg: "negative_inv lim r (body_vars r) (atoms_of (set D) \<union> set (positive_body r)) g1 (pos_edges (set (D @ [r])))
      (neg_edges (set D)) (run_once_edges (set (D @ [r]))) (set (negative_body r)) (ar2, g2)"
    and ar3: "arity_inv ar3 (insert (head r) (atoms_of (set D) \<union> set (positive_body r) \<union> set (negative_body r)))"
    and within: "sat_add (sat_add (length (positive_body r)) (length (negative_body r))) 1 \<le> max_atoms_per_rule lim"
      "length (rule_id r) \<le> max_identifier_bytes lim"
      "\<forall>src. rule_source r = Some src \<longrightarrow> length src \<le> max_source_bytes lim" "atom_within lim (head r)"
    and head: "atom_vars (head r) \<subseteq> body_vars r" "run_once r \<or> no_generators (head r)"
  shows "rules_inv lim (D @ [r]) (bts_insert (rule_id r) ids, ar3, ensure_relation g2 (relation (head r)))"
  unfolding rules_inv_def prod.case
proof (intro conjI)
  show "distinct (map rule_id (D @ [r]))" using D new by (auto simp: rules_inv_def)
  have "rule_safe r" using pos neg head by (auto simp: rule_safe_def positive_inv_def negative_inv_def)
  moreover have "rule_within lim r"
    using pos neg within by (auto simp: rule_within_def rule_atoms_def positive_inv_def negative_inv_def)
  ultimately show "\<forall>q\<in>set (D @ [r]). rule_within lim q \<and> rule_safe q"
    using D by (auto simp: rules_inv_def)
  show "set (relations (ensure_relation g2 (relation (head r)))) = relation ` atoms_of (set (D @ [r]))"
    using D pos neg
    by (simp add: rules_inv_def positive_inv_def negative_inv_def set_relations_ops atoms_of_insert image_Un)
      (auto simp: Un_assoc)
  show "edges_inv (ensure_relation g2 (relation (head r))) (pos_edges (set (D @ [r])))
      (neg_edges (set (D @ [r]))) (run_once_edges (set (D @ [r])))"
    using neg by (simp add: negative_inv_def neg_edges_insert edges_inv_ops(1))
qed (use D ar3 in \<open>auto simp: rules_inv_def atoms_of_insert\<close>)

lemma runs_check_rule:
  assumes D: "rules_inv lim D st"
    and good: "good \<Longrightarrow> rule_within lim r \<and> rule_safe r \<and> rule_id r \<notin> rule_id ` set D"
    and consistent: "good \<Longrightarrow> \<forall>a\<in>atoms_of (set (D @ [r])). c (relation a) = Some (Atom_arity a)"
  shows "runs (check_rule ctl lim r st) (rejects ctl good) (rules_inv lim (D @ [r]))"
proof -
  obtain ids ar g where st: "st = (ids, ar, g)" by (cases st) auto
  let ?S = "atoms_of (set D)"
  note positive = runs_check_positive_body [where ctl = ctl and lim = lim and c = c and good = good and r = r
      and S = ?S and ar = ar and g = g and P = "pos_edges (set D)" and N = "neg_edges (set D)"
      and C = "run_once_edges (set D)"]
  have tail: "runs (bind (check_positive_body ctl lim r ar g) (\<lambda>(ar, vs, g).
      bind (check_negative_body ctl lim r vs ar g) (\<lambda>(ar, g).
        bind (check_head ctl lim r vs ar) (\<lambda>ar.
          ok (bts_insert (rule_id r) ids, ar, ensure_relation g (relation (head r)))))))
      (rejects ctl good) (rules_inv lim (D @ [r]))"
    if new: "rule_id r \<notin> set ids"
      and within: "sat_add (sat_add (length (positive_body r)) (length (negative_body r))) 1 \<le> max_atoms_per_rule lim"
      "length (rule_id r) \<le> max_identifier_bytes lim"
      "\<forall>src. rule_source r = Some src \<longrightarrow> length src \<le> max_source_bytes lim"
  proof (rule runs_bind [OF positive], goal_cases)
    case (5 acc)
    obtain ar1 vs g1 where acc: "acc = (ar1, vs, g1)" by (cases acc) auto
    note pos = 5 [unfolded acc]
    have vs: "set vs = body_vars r" using pos by (simp add: positive_inv_def body_vars_def)
    note negative = runs_check_negative_body [where ctl = ctl and lim = lim and c = c and good = good
        and S = "?S \<union> set (positive_body r)" and ar = ar1 and g = g1 and P = "pos_edges (set (D @ [r]))"
        and N = "neg_edges (set D)" and C = "run_once_edges (set (D @ [r]))", OF _ _ vs]
    show ?case
      unfolding acc prod.case
    proof (rule runs_bind [OF negative], goal_cases)
      case (5 acc2)
      obtain ar2 g2 where acc2: "acc2 = (ar2, g2)" by (cases acc2) auto
      note neg = 5 [unfolded acc2]
      note head = runs_check_head [where ctl = ctl and lim = lim and c = c and good = good
          and S = "?S \<union> set (positive_body r) \<union> set (negative_body r)" and ar = ar2, OF _ vs]
      show ?case
        unfolding acc2 prod.case
        by (rule runs_bind [OF head])
          (use neg good consistent rules_inv_step [OF D [unfolded st] new pos neg _ within] in
            \<open>auto simp: negative_inv_def atoms_of_insert rule_atoms_def intro: runs_ok\<close>)
    qed (use pos good consistent in
        \<open>auto simp: positive_inv_def pos_edges_insert atoms_of_insert rule_atoms_def\<close>)
  qed (use D st good consistent in \<open>auto simp: rules_inv_def atoms_of_insert rule_atoms_def\<close>)
  have "set ids = rule_id ` set D" using D st by (simp add: rules_inv_def)
  then show ?thesis
    unfolding check_rule_def st prod.case Let_def
    by (intro runs_after_control runs_if runs_err runs_bind [OF runs_check_identifier]
        runs_bind [where R = "\<lambda>_. \<forall>src. rule_source r = Some src \<longrightarrow> length src \<le> max_source_bytes lim"] tail)
      (use good in \<open>auto simp: rule_within_def split: option.splits intro!: runs_ok runs_err\<close>)
qed

section \<open>Validation decides \<open>program_valid\<close>\<close>

lemma program_relations_atoms: "program_relations rs = relation ` atoms_of (set rs)"
  by (auto simp: program_relations_def atoms_of_def)

lemma rules_inv_graph:
  assumes "rules_inv lim rs (ids, ar, g)"
  shows "graph_wf g" and "set (relations g) = program_relations rs"
    and "stratifies g f \<longleftrightarrow> (\<forall>r\<in>set rs. rule_stratified f r)"
proof -
  have e: "btm_wf (positive_edges g)" "set (dependencies g q) = pos_edges (set rs) `` {q}"
    "set (negative_dependencies g q) = neg_edges (set rs) `` {q}"
    "set (closed_dependencies g q) = run_once_edges (set rs) `` {q}" for q
    using assms by (auto simp: rules_inv_def edges_inv_def)
  show rel: "set (relations g) = program_relations rs"
    using assms by (simp add: rules_inv_def program_relations_atoms)
  have body: "relation a \<in> program_relations rs"
    if "r \<in> set rs" "a \<in> set (positive_body r) \<union> set (negative_body r) \<union> {head r}" for r a
    using that by (auto simp: program_relations_def rule_atoms_def)
  then have "pos_edges (set rs) `` {q} \<subseteq> program_relations rs"
    "neg_edges (set rs) `` {q} \<subseteq> program_relations rs"
    "run_once_edges (set rs) `` {q} \<subseteq> program_relations rs" for q
    by (auto simp: pos_edges_def neg_edges_def run_once_edges_def)
  with e rel show "graph_wf g" by (simp add: graph_wf_def)
  show "stratifies g f \<longleftrightarrow> (\<forall>r\<in>set rs. rule_stratified f r)"
  proof
    assume "stratifies g f"
    then show "\<forall>r\<in>set rs. rule_stratified f r"
      unfolding stratifies_def e rel
      by (fastforce simp: rule_stratified_def pos_edges_def neg_edges_def run_once_edges_def
          program_relations_def rule_atoms_def)
  next
    assume "\<forall>r\<in>set rs. rule_stratified f r"
    then show "stratifies g f"
      unfolding stratifies_def e by (auto simp: rule_stratified_def pos_edges_def neg_edges_def run_once_edges_def)
  qed
qed

text \<open>The level computation as a step of a run.\<close>

lemma runs_compute_strata:
  assumes wf: "graph_wf g" and small: "card (set (relations g)) < 2 ^ 32" and good: "good \<Longrightarrow> \<exists>f. stratifies g f"
    and k: "\<And>s. btm_wf s \<Longrightarrow> dom (map_of s) = set (relations g) \<Longrightarrow> stratifies g (stratum_or_0 s) \<Longrightarrow>
      \<forall>f. stratifies g f \<longrightarrow> (\<forall>r\<in>set (relations g). stratum_or_0 s r \<le> f r) \<Longrightarrow>
      runs (k s) (rejects ctl good) Q"
  shows "runs (case compute_strata g of Inl e \<Rightarrow> err (Validation e) | Inr s \<Rightarrow> k s) (rejects ctl good) Q"
proof -
  have "distinct (relations g)" using wf by (simp add: graph_wf_def relations_def btm_wf_def strict_sorted_iff)
  then have len: "length (relations g) < 2 ^ 32" using small by (simp add: distinct_card)
  show ?thesis
  proof (cases "compute_strata g")
    case (Inl e)
    then show ?thesis using good compute_strata_total [OF wf len] by (auto intro!: runs_err)
  next
    case (Inr s)
    then show ?thesis using compute_strata_Inr [OF wf len Inr] by (simp add: k)
  qed
qed

definition vp_least :: "ValidatedProgram \<Rightarrow> bool" where
  "vp_least vp \<longleftrightarrow> (\<forall>f. (\<forall>r\<in>set (vp_rules vp). rule_stratified f r) \<longrightarrow>
     (\<forall>q\<in>program_relations (vp_rules vp). stratum_or_0 (vp_strata vp) q \<le> f q))"

lemma sorted_wrt_less_sort_key:
  "distinct (map f (sort_key f rs)) \<Longrightarrow> sorted_wrt (<) (map f (sort_key f rs))"
  by (simp add: strict_sorted_iff)

lemma program_valid_perm:
  assumes "mset rs = mset rs'"
  shows "program_valid lim rs = program_valid lim rs'"
proof -
  have "distinct (map rule_id rs) = distinct (map rule_id rs')"
    using assms by (metis mset_eq_imp_distinct_iff mset_map)
  with mset_eq_setD [OF assms] mset_eq_length [OF assms] show ?thesis
    by (simp add: program_valid_def arity_consistent_def)
qed

lemma runs_validate_with_control:
  assumes small: "card (program_relations (rules prog)) < 2 ^ 32"
  shows "runs (validate_with_control ctl prog lim) (rejects ctl (program_valid lim (rules prog)))
    (\<lambda>vp. program_valid lim (rules prog) \<and> vp_ok vp \<and> vp_least vp \<and>
       vp_rules vp = sort_key rule_id (rules prog))"
  (is "runs _ (rejects ctl ?good) ?Q")
proof -
  define rs where "rs = sort_key rule_id (rules prog)"
  have perm: "mset rs = mset (rules prog)" by (simp add: rs_def)
  note set_rs = mset_eq_setD [OF perm] and good_rs = program_valid_perm [OF perm, of lim]
  have rel: "program_relations rs = program_relations (rules prog)"
    by (simp add: program_relations_def set_rs)
  have loop: "runs (for_each (check_rule ctl lim) rs ([], [], DependencyGraph_default))
    (rejects ctl ?good) (rules_inv lim rs)"
  proof (rule runs_for_each_split [where I = "\<lambda>done rest. rules_inv lim done"])
    fix "done" r rest st
    assume split: "rs = done @ r # rest" and inv: "rules_inv lim done st"
    show "runs (check_rule ctl lim r st) (rejects ctl ?good) (rules_inv lim (done @ [r]))"
    proof (cases "\<exists>c. arity_consistent c rs")
      case True
      then obtain c where "arity_consistent c rs" ..
      with inv split good_rs show ?thesis
        by (intro runs_check_rule [where c = c])
          (auto simp: program_valid_def arity_consistent_def atoms_of_def)
    next
      case False
      with inv good_rs show ?thesis
        by (intro runs_check_rule) (auto simp: program_valid_def)
    qed
  qed (simp_all add: rules_inv_def arity_inv_def edges_inv_def atoms_of_def pos_edges_def neg_edges_def
      run_once_edges_def graph_op_defs DependencyGraph_default_def dependencies_def negative_dependencies_def
      closed_dependencies_def edges_from_def relations_def btm_wf_def)
  show ?thesis
    unfolding validate_with_control_def Let_def rs_def [symmetric]
  proof (intro runs_after_control runs_if runs_err runs_bind [OF loop], goal_cases)
    case (2 acc)
    obtain ids ar g where acc: "acc = (ids, ar, g)" by (cases acc) auto
    note inv = 2(2) [unfolded acc]
    note graph = rules_inv_graph [OF inv]
    show ?case
      unfolding acc prod.case
    proof (rule runs_compute_strata [OF graph(1)], goal_cases)
      case (3 s)
      have "?Q \<lparr>vp_rules = rs, vp_arities = ar, vp_dependencies = g, vp_strata = s\<rparr>"
      proof (intro conjI)
        show "program_valid lim (rules prog)"
          using inv 3 graph 2(1)
          unfolding good_rs [symmetric]
          by (auto simp: program_valid_def rules_inv_def arity_consistent_def arity_inv_def atoms_of_def rs_def)
        show "vp_ok \<lparr>vp_rules = rs, vp_arities = ar, vp_dependencies = g, vp_strata = s\<rparr>"
          using inv 3 graph sorted_wrt_less_sort_key [of rule_id "rules prog"]
          by (auto simp: vp_ok_def rules_inv_def arity_consistent_def arity_inv_def program_relations_atoms
              atoms_of_def rs_def)
      qed (use 3 graph in \<open>simp_all add: vp_least_def rs_def\<close>)
      then show ?case by (intro runs_after_control runs_ok) (simp add: rs_def)
    qed (use small rel graph good_rs in \<open>auto simp: program_valid_def\<close>)
  qed (use good_rs in \<open>auto simp: program_valid_def rs_def\<close>)
qed

lemma validate_sound:
  assumes "card (program_relations (rules prog)) < 2 ^ 32" and "validate prog lim = Inr vp"
  shows "program_valid lim (rules prog)" and "vp_ok vp" and "vp_least vp"
    and "vp_rules vp = sort_key rule_id (rules prog)"
proof -
  obtain u where "validate_with_control (ok () :: (unit, ValidationError, unit) fallible) prog lim () = Inr (vp, u)"
    using assms(2) by (auto simp: validate_def split: sum.splits ControlledValidationError.splits)
  from runs_Inr [OF runs_validate_with_control [OF assms(1)] this]
  show "program_valid lim (rules prog)" and "vp_ok vp" and "vp_least vp"
    and "vp_rules vp = sort_key rule_id (rules prog)" by simp_all
qed

lemma validate_complete:
  assumes "card (program_relations (rules prog)) < 2 ^ 32" and "program_valid lim (rules prog)"
  shows "\<exists>vp. validate prog lim = Inr vp"
proof (cases "validate_with_control (ok () :: (unit, ValidationError, unit) fallible) prog lim ()")
  case (Inl e)
  from runs_Inl [OF runs_validate_with_control [OF assms(1)] this] assms(2) show ?thesis
    by (cases e) (auto simp: ok_def)
qed (auto simp: validate_def)

section \<open>Properties\<close>

text \<open>
  C8. Validation decides validity: a program with fewer than \<open>2 ^ 32\<close> relations is accepted exactly
  when its rules are within the limits, have distinct identifiers, are safe, use each relation with one
  arity, and admit a stratification.
\<close>

theorem validate_iff_valid:
  assumes "card (program_relations (rules prog)) < 2 ^ 32"
  shows "(\<exists>vp. validate prog lim = Inr vp) \<longleftrightarrow> program_valid lim (rules prog)"
  using validate_sound(1) [OF assms] validate_complete [OF assms] by blast

definition demo_rule :: Rule where
  "demo_rule = Rule_new_stratified ''r'' (Atom_new ''p'' [PVariable ''x''])
     [Atom_new ''e'' [PVariable ''x'']] [Atom_new ''q'' [PVariable ''x'']]"

definition demo_program :: Program where
  "demo_program = Program_new [demo_rule]"

lemma demo_program_small: "card (program_relations (rules demo_program)) < 2 ^ 32"
  by (simp add: demo_program_def demo_rule_def Program_new_def Rule_new_stratified_def program_relations_def rule_atoms_def Atom_new_def)

lemma demo_program_accepted: "\<exists>vp. validate demo_program ValidationLimits_default = Inr vp \<and> vp_stratum vp ''p'' = Some 1"
proof -
  have "case validate demo_program ValidationLimits_default of Inl e \<Rightarrow> False | Inr vp \<Rightarrow> vp_stratum vp ''p'' = Some 1"
    by code_simp
  then show ?thesis by (auto split: sum.splits)
qed

theorem validate_iff_valid_witness:
  "card (program_relations (rules demo_program)) < 2 ^ 32 \<and> program_valid ValidationLimits_default (rules demo_program)"
proof -
  have "\<exists>vp. validate demo_program ValidationLimits_default = Inr vp" using demo_program_accepted by blast
  with validate_iff_valid [OF demo_program_small] demo_program_small show ?thesis by blast
qed

text \<open>
  C9. What validation returns: the rules sorted by identifier, arities that fit every atom, a
  dependency graph over exactly the relations of the program, and the least levels under which every
  rule is stratified.
\<close>

theorem validate_result:
  assumes "card (program_relations (rules prog)) < 2 ^ 32" and "validate prog lim = Inr vp"
  shows "vp_rules vp = sort_key rule_id (rules prog) \<and> vp_ok vp \<and> vp_least vp"
  using validate_sound [OF assms] by blast

theorem validate_result_witness:
  "case validate demo_program ValidationLimits_default of Inl e \<Rightarrow> False
   | Inr vp \<Rightarrow> vp_stratum vp ''p'' = Some 1 \<and> vp_ok vp \<and> vp_least vp"
  using demo_program_accepted validate_result [OF demo_program_small] by (auto split: sum.splits)

text \<open>
  C30. The order of the rules does not matter: a program accepted with some result is accepted with the
  same result when its rules are permuted.
\<close>

theorem validate_permuted:
  assumes "card (program_relations (rules prog)) < 2 ^ 32" and "validate prog lim = Inr vp"
    and "mset (rules prog') = mset (rules prog)"
  shows "validate prog' lim = Inr vp"
proof -
  have "distinct (map rule_id (rules prog))"
    using validate_sound(1) [OF assms(1,2)] by (simp add: program_valid_def)
  then have inj: "inj_on rule_id (set (rules prog))" by (simp add: distinct_map)
  have sorted: "map rule_id (sort_key rule_id rs) = sort (map rule_id rs)" for rs
    by (rule properties_for_sort [symmetric]) simp_all
  have "map rule_id (sort_key rule_id (rules prog')) = map rule_id (sort_key rule_id (rules prog))"
    unfolding sorted by (rule properties_for_sort) (simp_all add: assms(3))
  then have same: "sort_key rule_id (rules prog') = sort_key rule_id (rules prog)"
    using inj by (auto simp: inj_on_map_eq_map mset_eq_setD [OF assms(3)])
  have "validate prog' lim = validate prog lim"
    unfolding validate_def validate_with_control_def same mset_eq_length [OF assms(3)] ..
  with assms(2) show ?thesis by simp
qed

theorem validate_permuted_witness:
  "mset (rules (Program_new [demo_rule, demo_rule\<lparr>rule_id := ''a''\<rparr>])) =
     mset (rules (Program_new [demo_rule\<lparr>rule_id := ''a''\<rparr>, demo_rule])) \<and>
   (case validate (Program_new [demo_rule\<lparr>rule_id := ''a''\<rparr>, demo_rule]) ValidationLimits_default of
      Inl e \<Rightarrow> False
    | Inr vp \<Rightarrow> validate (Program_new [demo_rule, demo_rule\<lparr>rule_id := ''a''\<rparr>]) ValidationLimits_default = Inr vp)"
proof -
  let ?p = "Program_new [demo_rule\<lparr>rule_id := ''a''\<rparr>, demo_rule]" and ?q = "Program_new [demo_rule, demo_rule\<lparr>rule_id := ''a''\<rparr>]"
  have eq: "mset (rules ?q) = mset (rules ?p)" by (simp add: Program_new_def add_mset_commute)
  have small: "card (program_relations (rules ?p)) < 2 ^ 32"
    by (simp add: demo_rule_def Program_new_def Rule_new_stratified_def program_relations_def rule_atoms_def Atom_new_def)
  have "case validate ?p ValidationLimits_default of Inl e \<Rightarrow> False | Inr vp \<Rightarrow> True" by code_simp
  with validate_permuted [OF small _ eq, of ValidationLimits_default] eq show ?thesis by (auto split: sum.splits)
qed

definition cyclic_program :: Program where
  "cyclic_program = Program_new
     [Rule_new ''r1'' (Atom_new ''a'' [PVariable ''x'']) [Atom_new ''b'' [PVariable ''x'']],
      Rule_new_stratified ''r2'' (Atom_new ''p'' [PVariable ''x'']) [Atom_new ''b'' [PVariable ''x'']]
        [Atom_new ''p'' [PVariable ''x'']]]"


end
