(* ===== verification/Datalog_Control.thy ===== *)
theory Datalog_Control
  imports Datalog_Validate
begin

text \<open>
  Options, errors and resource control of the engine (\<open>lib/oxdatalog/src/engine.rs\<close>,
  \<open>engine/control.rs\<close>). Code runs in the \<open>fallible\<close> monad over the mutable
  \<open>ExecutionGuard\<close> and \<open>RuntimeMemory\<close>.

  What the program reads from outside is an argument: the answers of the caller's cancellation
  callback and the stores of other token holders, the elapsed time (both indexed by the number of
  reads made so far), the sizes the compiler gives to types, and the SHA-256 digest in hexadecimal.
\<close>

section \<open>Options and errors\<close>

datatype LimitKind = Facts | IntermediateRows | Iterations | Memory | Terms | Time

text \<open>Durations are in nanoseconds.\<close>

record EvaluationLimits =
  max_facts :: nat
  max_intermediate_rows :: nat
  max_iterations :: nat
  max_memory_bytes :: nat
  max_term_bytes :: nat
  timeout :: "nat option"

definition EvaluationLimits_default :: EvaluationLimits where
  "EvaluationLimits_default = \<lparr>max_facts = 1000000, max_intermediate_rows = 1000000,
     max_iterations = 1000, max_memory_bytes = 256 * 1024 * 1024, max_term_bytes = 1024 * 1024,
     timeout = Some (30 * 10 ^ 9)\<rparr>"

text \<open>A callback's answer may depend on when it is asked; it is a function of the read number.\<close>

record CancellationToken =
  token_cancelled :: bool
  token_check :: "(nat \<Rightarrow> bool) option"

definition CancellationToken_new :: CancellationToken where
  "CancellationToken_new = \<lparr>token_cancelled = False, token_check = None\<rparr>"

definition with_cancellation_check :: "CancellationToken \<Rightarrow> (nat \<Rightarrow> bool) \<Rightarrow> CancellationToken" where
  "with_cancellation_check tok chk =
     (let previous = token_check tok
      in tok\<lparr>token_check := Some (\<lambda>n. (case previous of Some p \<Rightarrow> p n | None \<Rightarrow> False) \<or> chk n)\<rparr>)"

record EvaluationOptions =
  limits :: EvaluationLimits
  track_provenance :: bool
  cancellation_token :: CancellationToken

datatype EvaluationError =
    ValidationFailed ValidationError
  | InputArity RelationId nat nat
  | InputTermLimit nat nat
  | GeneratedTermLimit nat nat
  | GeneratedBlankNodeSpaceExhausted
  | Cancelled
  | LimitExceeded LimitKind nat

text \<open>
  How a run can fail to return a value: an \<open>Err\<close>, a panic (an index out of range, a missing map
  key), or a loop that exceeds its bound in the model.
\<close>

datatype failure = Failed EvaluationError | Panic | Diverged

section \<open>The surroundings of a run\<close>

text \<open>\<open>size_of::<T>()\<close> for the types the estimates mention; \<open>u32\<close> has four bytes.\<close>

record Layout =
  size_Value :: nat
  size_Vec_Value :: nat
  size_HashMap_Value_TermId :: nat
  size_HashMap_String_TermId :: nat
  size_RelationData :: nat
  size_BTreeMap_index :: nat
  size_BTreeMap_relations :: nat
  size_BTreeMap_candidates :: nat
  size_BTreeMap_binding :: nat
  size_Vec_JoinState :: nat
  size_Vec_Fact :: nat
  size_Vec_FactKey :: nat
  size_Derivation :: nat

definition size_TermId :: nat where
  "size_TermId = 4"

record Config =
  options :: EvaluationOptions
  cancel_request :: "nat \<Rightarrow> bool"
  elapsed_at :: "nat \<Rightarrow> nat"
  layout :: Layout
  sha256_hex :: "string \<Rightarrow> string"

abbreviation cfg_limits :: "Config \<Rightarrow> EvaluationLimits" where
  "cfg_limits cfg \<equiv> limits (options cfg)"

section \<open>Memory accounting and the execution guard\<close>

record RuntimeMemory =
  mem_input :: nat
  mem_interner :: nat
  mem_base_keys :: nat
  mem_all :: nat
  mem_delta :: nat
  mem_next_delta :: nat
  mem_candidates :: nat
  mem_provenance :: nat
  mem_join_states :: nat
  mem_output :: nat

definition RuntimeMemory_default :: RuntimeMemory where
  "RuntimeMemory_default = \<lparr>mem_input = 0, mem_interner = 0, mem_base_keys = 0, mem_all = 0,
     mem_delta = 0, mem_next_delta = 0, mem_candidates = 0, mem_provenance = 0, mem_join_states = 0,
     mem_output = 0\<rparr>"

definition RuntimeMemory_total :: "RuntimeMemory \<Rightarrow> nat" where
  "RuntimeMemory_total m = sat_sum 0 [mem_input m, mem_interner m, mem_base_keys m, mem_all m,
     mem_delta m, mem_next_delta m, mem_candidates m, mem_provenance m, mem_join_states m,
     mem_output m]"

text \<open>
  The mutable state of a run: the shared cancellation flag, the number of reads of the outside
  world, the guard's peak and the memory counters.
\<close>

record Exec =
  cancelled :: bool
  reads :: nat
  peak_estimated_bytes :: nat
  memory :: RuntimeMemory

type_synonym 'a engine = "(Exec, failure, 'a) fallible"

definition ExecutionGuard_new :: "Config \<Rightarrow> Exec" where
  "ExecutionGuard_new cfg = \<lparr>cancelled = token_cancelled (cancellation_token (options cfg)), reads = 0,
     peak_estimated_bytes = 0, memory = RuntimeMemory_default\<rparr>"

definition cancel :: "Exec \<Rightarrow> Exec" where
  "cancel s = s\<lparr>cancelled := True\<rparr>"

text \<open>A load of the shared flag sees the stores of this run and those of other token holders.\<close>

definition load_cancelled :: "Config \<Rightarrow> Exec \<Rightarrow> bool \<times> Exec" where
  "load_cancelled cfg s =
     (let c = cancelled s \<or> cancel_request cfg (reads s)
      in (c, s\<lparr>cancelled := c, reads := Suc (reads s)\<rparr>))"

definition is_cancelled :: "Config \<Rightarrow> Exec \<Rightarrow> bool \<times> Exec" where
  "is_cancelled cfg s =
     (case load_cancelled cfg s of (c, s) \<Rightarrow>
       if c then (True, s)
       else if (case token_check (cancellation_token (options cfg)) of
                  Some chk \<Rightarrow> chk (reads s) | None \<Rightarrow> False)
       then (True, cancel s)
       else load_cancelled cfg s)"

definition timed_out :: "nat \<Rightarrow> nat \<Rightarrow> bool" where
  "timed_out elapsed limit \<longleftrightarrow> elapsed \<ge> limit"

definition timeout_millis :: "nat \<Rightarrow> nat" where
  "timeout_millis t = min usize_max (t div 10 ^ 6)"

definition check :: "Config \<Rightarrow> unit engine" where
  "check cfg = (\<lambda>s. case is_cancelled cfg s of (c, s) \<Rightarrow>
     if c then Inl (Failed Cancelled)
     else case timeout (cfg_limits cfg) of
       Some t \<Rightarrow>
         (if timed_out (elapsed_at cfg (reads s)) t
          then Inl (Failed (LimitExceeded Time (timeout_millis t)))
          else Inr ((), s))
     | None \<Rightarrow> Inr ((), s))"

definition observe :: "Config \<Rightarrow> unit engine" where
  "observe cfg = andthen (check cfg) (\<lambda>s.
     let estimated_bytes = RuntimeMemory_total (memory s);
         s = s\<lparr>peak_estimated_bytes := max (peak_estimated_bytes s) estimated_bytes\<rparr>
     in if estimated_bytes > max_memory_bytes (cfg_limits cfg)
        then Inl (Failed (LimitExceeded Memory (max_memory_bytes (cfg_limits cfg))))
        else Inr ((), s))"

definition set_memory :: "(RuntimeMemory \<Rightarrow> RuntimeMemory) \<Rightarrow> unit engine" where
  "set_memory f = modify (\<lambda>s. s\<lparr>memory := f (memory s)\<rparr>)"

text \<open>An assignment to a memory counter followed by \<open>guard.observe(memory)?\<close>.\<close>

definition charge :: "Config \<Rightarrow> (RuntimeMemory \<Rightarrow> RuntimeMemory) \<Rightarrow> unit engine" where
  "charge cfg f = andthen (set_memory f) (observe cfg)"

definition estimate_fact :: "Config \<Rightarrow> Fact \<Rightarrow> nat" where
  "estimate_fact cfg f =
     sat_add (sat_add (sat_add 64 (length (fact_relation f)))
       (sat_mul (length (fact_values f)) (size_Value (layout cfg))))
       (sat_sum 0 (map Value_estimated_bytes (fact_values f)))"

section \<open>What the guard guarantees\<close>

text \<open>
  \<open>permitted cfg\<close>: the errors a run may end with once its input is accepted. Each reports the
  configured limit; a panic, a diverging loop or an exhausted label space is not among them.
\<close>

definition permitted :: "Config \<Rightarrow> failure \<Rightarrow> bool" where
  "permitted cfg f = (case f of
     Failed Cancelled \<Rightarrow> True
   | Failed (LimitExceeded k n) \<Rightarrow>
       (case k of
          Facts \<Rightarrow> n = max_facts (cfg_limits cfg)
        | IntermediateRows \<Rightarrow> n = max_intermediate_rows (cfg_limits cfg)
        | Iterations \<Rightarrow> n = max_iterations (cfg_limits cfg)
        | Memory \<Rightarrow> n = max_memory_bytes (cfg_limits cfg)
        | Terms \<Rightarrow> n = 2 ^ 32 - 1
        | Time \<Rightarrow> (\<exists>t. timeout (cfg_limits cfg) = Some t \<and> n = timeout_millis t))
   | Failed (GeneratedTermLimit actual n) \<Rightarrow> n = max_term_bytes (cfg_limits cfg) \<and> n < actual
   | _ \<Rightarrow> False)"

lemma permitted_simps [simp]:
  "permitted cfg (Failed Cancelled)"
  "permitted cfg (Failed (LimitExceeded Facts n)) \<longleftrightarrow> n = max_facts (cfg_limits cfg)"
  "permitted cfg (Failed (LimitExceeded IntermediateRows n)) \<longleftrightarrow> n = max_intermediate_rows (cfg_limits cfg)"
  "permitted cfg (Failed (LimitExceeded Iterations n)) \<longleftrightarrow> n = max_iterations (cfg_limits cfg)"
  "permitted cfg (Failed (LimitExceeded Memory n)) \<longleftrightarrow> n = max_memory_bytes (cfg_limits cfg)"
  "permitted cfg (Failed (LimitExceeded Terms n)) \<longleftrightarrow> n = 2 ^ 32 - 1"
  "permitted cfg (Failed (LimitExceeded Time n)) \<longleftrightarrow>
     (\<exists>t. timeout (cfg_limits cfg) = Some t \<and> n = timeout_millis t)"
  "permitted cfg (Failed (GeneratedTermLimit a n)) \<longleftrightarrow> n = max_term_bytes (cfg_limits cfg) \<and> n < a"
  "\<not> permitted cfg (Failed GeneratedBlankNodeSpaceExhausted)"
  "\<not> permitted cfg Panic" "\<not> permitted cfg Diverged"
  by (simp_all add: permitted_def)

lemma runs_check: "runs (check cfg) (permitted cfg) (\<lambda>_. True)"
  by (auto simp: runs_def check_def split: prod.splits if_splits option.splits)

lemma runs_observe: "runs (observe cfg) (permitted cfg) (\<lambda>_. True)"
  unfolding observe_def
  by (rule runs_bind [OF runs_check]) (auto simp: runs_def Let_def split: if_splits)

lemma runs_after_check: "runs m (permitted cfg) Q \<Longrightarrow> runs (andthen (check cfg) m) (permitted cfg) Q"
  by (rule runs_bind [OF runs_check])

lemma runs_after_observe: "runs m (permitted cfg) Q \<Longrightarrow> runs (andthen (observe cfg) m) (permitted cfg) Q"
  by (rule runs_bind [OF runs_observe])

lemma runs_after_charge: "runs m (permitted cfg) Q \<Longrightarrow> runs (andthen (charge cfg f) m) (permitted cfg) Q"
  unfolding charge_def set_memory_def
  by (rule runs_bind [OF runs_andthen_modify [OF runs_observe]])

lemma runs_after_set_memory: "runs m E Q \<Longrightarrow> runs (andthen (set_memory f) m) E Q"
  unfolding set_memory_def by (rule runs_andthen_modify)

lemma runs_charge: "runs (charge cfg f) (permitted cfg) (\<lambda>_. True)"
  unfolding charge_def by (rule runs_after_set_memory [OF runs_observe])

lemmas runs_guard = runs_after_check runs_after_observe runs_after_charge runs_after_set_memory

text \<open>The memory budget: the peak never passes the limit on a run that goes on.\<close>

definition within_budget :: "Config \<Rightarrow> Exec \<Rightarrow> bool" where
  "within_budget cfg s \<longleftrightarrow> peak_estimated_bytes s \<le> max_memory_bytes (cfg_limits cfg)"

lemma peak_load_cancelled: "load_cancelled cfg s = (c, s') \<Longrightarrow> peak_estimated_bytes s' = peak_estimated_bytes s"
  by (auto simp: load_cancelled_def Let_def)

lemma peak_is_cancelled: "is_cancelled cfg s = (c, s') \<Longrightarrow> peak_estimated_bytes s' = peak_estimated_bytes s"
  by (auto simp: is_cancelled_def cancel_def split: prod.splits if_splits dest!: peak_load_cancelled)

lemma keeps_budget_check [keeps_intros]: "keeps (within_budget cfg) (check cfg)"
  by (auto simp: keeps_def check_def within_budget_def split: prod.splits if_splits option.splits
      dest: peak_is_cancelled)

lemma keeps_budget_observe [keeps_intros]: "keeps (within_budget cfg) (observe cfg)"
  unfolding observe_def
  by (rule keeps_bind [OF keeps_budget_check]) (auto simp: keeps_def within_budget_def Let_def split: if_splits)

lemma keeps_budget_set_memory [keeps_intros]: "keeps (within_budget cfg) (set_memory f)"
  unfolding set_memory_def by (rule keeps_modify) (simp add: within_budget_def)

lemma keeps_budget_charge [keeps_intros]: "keeps (within_budget cfg) (charge cfg f)"
  unfolding charge_def by (intro keeps_intros)

text \<open>Cancellation is one-way.\<close>

lemma load_cancelled_mono: "load_cancelled cfg s = (c, s') \<Longrightarrow> cancelled s \<Longrightarrow> c \<and> cancelled s'"
  by (auto simp: load_cancelled_def Let_def)

lemma is_cancelled_sticky:
  assumes "is_cancelled cfg s = (True, s')"
  shows "cancelled s'" and "fst (is_cancelled cfg s')"
proof -
  show "cancelled s'"
    using assms
    by (auto simp: is_cancelled_def load_cancelled_def cancel_def Let_def split: if_splits option.splits)
  then show "fst (is_cancelled cfg s')"
    by (auto simp: is_cancelled_def load_cancelled_def Let_def)
qed

section \<open>Properties\<close>

text \<open>The surroundings of a run with nothing unusual: no cancellation, no time limit.\<close>

definition plain_layout :: Layout where
  "plain_layout = \<lparr>size_Value = 40, size_Vec_Value = 24, size_HashMap_Value_TermId = 48, size_HashMap_String_TermId = 48,
     size_RelationData = 48, size_BTreeMap_index = 24, size_BTreeMap_relations = 24, size_BTreeMap_candidates = 24,
     size_BTreeMap_binding = 24, size_Vec_JoinState = 24, size_Vec_Fact = 24, size_Vec_FactKey = 24, size_Derivation = 96\<rparr>"

definition plain_config :: Config where
  "plain_config = \<lparr>options = \<lparr>limits = EvaluationLimits_default\<lparr>timeout := None\<rparr>, track_provenance = True,
       cancellation_token = CancellationToken_new\<rparr>,
     cancel_request = (\<lambda>_. False), elapsed_at = (\<lambda>_. 0), layout = plain_layout, sha256_hex = (\<lambda>_. ''00'')\<rparr>"

text \<open>
  Cancellation is final: once a token has answered that it is cancelled, whether by its flag or by
  a callback, every later check of the run fails with \<open>Cancelled\<close>.
\<close>

lemma cancelled_forever:
  assumes "is_cancelled cfg s = (True, s')"
  shows "check cfg s' = Inl (Failed Cancelled)"
  using is_cancelled_sticky(2) [OF assms] by (auto simp: check_def split: prod.splits)

lemma cancelled_forever_example:
  "is_cancelled plain_config (cancel (ExecutionGuard_new plain_config)) =
     (True, cancel (ExecutionGuard_new plain_config)\<lparr>reads := 1\<rparr>) \<and>
   check plain_config (cancel (ExecutionGuard_new plain_config)\<lparr>reads := 1\<rparr>) = Inl (Failed Cancelled)"
proof -
  have h: "is_cancelled plain_config (cancel (ExecutionGuard_new plain_config)) =
     (True, cancel (ExecutionGuard_new plain_config)\<lparr>reads := 1\<rparr>)"
    by (simp add: is_cancelled_def load_cancelled_def cancel_def ExecutionGuard_new_def plain_config_def
        CancellationToken_new_def)
  with cancelled_forever [OF h] show ?thesis by simp
qed

text \<open>
  Callbacks accumulate: a token given a further cancellation check asks the earlier one too, so it
  is cancelled when either of them says so and keeps its own flag.
\<close>

lemma cancellation_checks_accumulate:
  "(\<exists>f. token_check (with_cancellation_check (with_cancellation_check tok c) d) = Some f \<and>
     (\<forall>n. f n \<longleftrightarrow> (case token_check tok of Some p \<Rightarrow> p n | None \<Rightarrow> False) \<or> c n \<or> d n)) \<and>
   token_cancelled (with_cancellation_check tok c) = token_cancelled tok"
  by (simp add: with_cancellation_check_def Let_def)

text \<open>
  Observing memory: a run goes on past \<open>observe\<close> exactly when the check succeeds and the sum of
  the counters, saturating at the largest \<open>usize\<close>, is within the limit; the peak then covers that sum.
\<close>

lemma observe_budget:
  "observe cfg s = (case check cfg s of
     Inl e \<Rightarrow> Inl e
   | Inr (_, s') \<Rightarrow>
       (let total = min usize_max (mem_input (memory s') + mem_interner (memory s') + mem_base_keys (memory s')
              + mem_all (memory s') + mem_delta (memory s') + mem_next_delta (memory s') + mem_candidates (memory s')
              + mem_provenance (memory s') + mem_join_states (memory s') + mem_output (memory s'))
        in if total \<le> max_memory_bytes (cfg_limits cfg)
           then Inr ((), s'\<lparr>peak_estimated_bytes := max (peak_estimated_bytes s') total\<rparr>)
           else Inl (Failed (LimitExceeded Memory (max_memory_bytes (cfg_limits cfg))))))"
proof -
  have "RuntimeMemory_total m = min usize_max (mem_input m + mem_interner m + mem_base_keys m
      + mem_all m + mem_delta m + mem_next_delta m + mem_candidates m + mem_provenance m + mem_join_states m + mem_output m)" for m
    unfolding RuntimeMemory_total_def by (subst sat_sum_eq) (simp_all add: add.assoc)
  then show ?thesis
    by (auto simp: observe_def bind_def Let_def split: sum.splits)
qed

end
