(* ===== verification/Datalog_Interner.thy ===== *)
theory Datalog_Interner
  imports Datalog_Control
begin

text \<open>
  The interner of \<open>lib/oxdatalog/src/engine/storage.rs\<close>: ground values are numbered, tuples hold
  the numbers, and run-once rules add blank nodes named after a digest of their generation key.
  \<open>HashMap\<close> values are association lists without duplicate keys.
\<close>

type_synonym TermId = nat
type_synonym Tuple = "TermId list"
type_synonym FactKey = "RelationId \<times> Tuple"
type_synonym binding = "(Variable, TermId) btree_map"

definition term_id_max :: nat where
  "term_id_max = 2 ^ 32 - 1"

record Interner =
  interned :: "Value list"
  ids :: "(Value, TermId) hash_map"
  generated :: "(string, TermId) hash_map"
  interner_bytes :: nat

section \<open>Operations\<close>

definition estimate_value_slot :: "Config \<Rightarrow> Value \<Rightarrow> nat" where
  "estimate_value_slot cfg v = sat_add (sat_add (size_Value (layout cfg)) (Value_estimated_bytes v)) 16"

definition estimate_values :: "Config \<Rightarrow> Value list \<Rightarrow> nat" where
  "estimate_values cfg vs = sat_sum (size_Vec_Value (layout cfg)) (map (estimate_value_slot cfg) vs)"

definition estimate_id_entry :: "Config \<Rightarrow> Value \<Rightarrow> nat" where
  "estimate_id_entry cfg v = sat_add (sat_add (estimate_value_slot cfg v) size_TermId) 48"

definition push_value :: "Config \<Rightarrow> Value \<Rightarrow> Value list \<times> nat \<Rightarrow> (Value list \<times> nat) engine" where
  "push_value cfg v acc = (case acc of (vs, values_bytes) \<Rightarrow>
     let projected = sat_add values_bytes (estimate_value_slot cfg v)
     in andthen (charge cfg (mem_interner_update (\<lambda>_. projected)))
          (ok (vs @ [v], projected)))"

text \<open>The two collection loops of \<open>Interner::new\<close>.\<close>

definition push_fact :: "Config \<Rightarrow> Fact \<Rightarrow> Value list \<times> nat \<Rightarrow> (Value list \<times> nat) engine" where
  "push_fact cfg f = for_each (push_value cfg) (fact_values f)"

definition push_constants :: "Config \<Rightarrow> Rule \<Rightarrow> Value list \<times> nat \<Rightarrow> (Value list \<times> nat) engine" where
  "push_constants cfg r =
     for_each (\<lambda>a. for_each (\<lambda>t acc. case t of PConstant v \<Rightarrow> push_value cfg v acc | _ \<Rightarrow> ok acc) (terms a))
       (rule_atoms r)"

text \<open>
  \<open>Interner::new\<close>. The sort is by printed form; values that print alike may come in any order
  there, and the model takes the stable one. \<open>dedup\<close> drops equal neighbours.
\<close>

definition Interner_new :: "Config \<Rightarrow> ValidatedProgram \<Rightarrow> Fact list \<Rightarrow> Interner engine" where
  "Interner_new cfg program facts =
     bind (for_each (push_fact cfg) facts ([], size_Vec_Value (layout cfg))) (\<lambda>acc.
     bind (for_each (push_constants cfg) (vp_rules program) acc) (\<lambda>(vs, _).
     andthen (check cfg)
     (let vs = sort_key Value_sort_key vs
      in andthen (check cfg)
     (let vs = remdups_adj vs
      in if length vs > term_id_max
         then err (Failed (LimitExceeded Terms term_id_max))
         else
           let values_bytes = estimate_values cfg vs;
               ids_bytes = sat_sum (size_HashMap_Value_TermId (layout cfg)) (map (estimate_id_entry cfg) vs);
               interner = sat_add (sat_add values_bytes ids_bytes) (size_HashMap_String_TermId (layout cfg))
           in andthen (charge cfg (mem_interner_update (\<lambda>_. interner)))
              (bind (for_each (\<lambda>(i, v) m. andthen (check cfg) (ok (AList.update v i m))) (List.enumerate 0 vs) [])
                (\<lambda>m. ok \<lparr>interned = vs, ids = m, generated = [], interner_bytes = interner\<rparr>))))))"

definition Interner_id :: "Interner \<Rightarrow> Value \<Rightarrow> ('s, failure, TermId) fallible" where
  "Interner_id I v = expect Panic (map_of (ids I) v)"

definition value_at :: "Interner \<Rightarrow> TermId \<Rightarrow> ('s, failure, Value) fallible" where
  "value_at I i = expect Panic (nth_opt (interned I) i)"

text \<open>\<open>iter().map(f).collect()\<close> for a fallible \<open>f\<close>.\<close>

fun collect :: "('x \<Rightarrow> ('s, 'e, 'y) fallible) \<Rightarrow> 'x list \<Rightarrow> ('s, 'e, 'y list) fallible" where
  "collect f [] = ok []"
| "collect f (x # xs) = bind (f x) (\<lambda>y. bind (collect f xs) (\<lambda>ys. ok (y # ys)))"

definition encode_fact :: "Interner \<Rightarrow> Fact \<Rightarrow> ('s, failure, FactKey) fallible" where
  "encode_fact I f = bind (collect (Interner_id I) (fact_values f)) (\<lambda>t. ok (fact_relation f, t))"

definition decode_fact :: "Interner \<Rightarrow> FactKey \<Rightarrow> ('s, failure, Fact) fallible" where
  "decode_fact I k = bind (collect (value_at I) (snd k)) (\<lambda>vs. ok (Fact_new (fst k) vs))"

text \<open>One \<open>|len:variable=len:value\<close> section of a generation key.\<close>

definition key_section :: "Variable \<Rightarrow> string \<Rightarrow> string" where
  "key_section x value = ''|'' @ show_nat (length x) @ '':'' @ x @ ''='' @ show_nat (length value) @ '':'' @ value"

definition generation_key :: "Interner \<Rightarrow> RuleId \<Rightarrow> BlankNodeGenerator \<Rightarrow> binding \<Rightarrow> ('s, failure, string) fallible" where
  "generation_key I rule generator b =
     for_each (\<lambda>(x, i) key. bind (value_at I i) (\<lambda>v. ok (key @ key_section x (Value_sort_key v)))) b
       (show_nat (length rule) @ '':'' @ rule @ ''|'' @ show_nat (length generator) @ '':'' @ generator)"

text \<open>The search for an unused label.\<close>

definition candidate_node :: "string \<Rightarrow> nat \<Rightarrow> Value" where
  "candidate_node base suffix =
     VTerm (TBlankNode (BlankNode_new_unchecked (if suffix = 0 then base else base @ ''-'' @ show_nat suffix)))"

fun unused_label :: "Config \<Rightarrow> Interner \<Rightarrow> string \<Rightarrow> nat list \<Rightarrow> (Value option) engine" where
  "unused_label cfg I base [] = ok None"
| "unused_label cfg I base (n # ns) =
     andthen (check cfg)
       (if map_of (ids I) (candidate_node base n) = None then ok (Some (candidate_node base n))
        else unused_label cfg I base ns)"

definition generate_blank_node ::
  "Config \<Rightarrow> RuleId \<Rightarrow> BlankNodeGenerator \<Rightarrow> binding \<Rightarrow> Interner \<Rightarrow> (TermId \<times> Interner) engine" where
  "generate_blank_node cfg rule generator b I =
     bind (generation_key I rule generator b) (\<lambda>key.
     case map_of (generated I) key of
       Some i \<Rightarrow> ok (i, I)
     | None \<Rightarrow>
         (if length (interned I) > term_id_max
          then err (Failed (LimitExceeded Terms term_id_max))
          else
            let i = length (interned I);
                base = ''oxdatalog-'' @ sha256_hex cfg key
            in bind (unused_label cfg I base [0..<Suc (length (ids I))]) (\<lambda>candidate.
               case candidate of
                 None \<Rightarrow> err (Failed GeneratedBlankNodeSpaceExhausted)
               | Some v \<Rightarrow>
                   (let actual = Value_estimated_bytes v
                    in if actual > max_term_bytes (cfg_limits cfg)
                       then err (Failed (GeneratedTermLimit actual (max_term_bytes (cfg_limits cfg))))
                       else
                         let projected = sat_add (sat_add (sat_add (sat_add (interner_bytes I)
                               (estimate_value_slot cfg v)) (estimate_id_entry cfg v)) (length key)) 64
                         in andthen (charge cfg (mem_interner_update (\<lambda>_. projected)))
                            (ok (i, \<lparr>interned = interned I @ [v], ids = AList.update v i (ids I),
                               generated = AList.update key i (generated I), interner_bytes = projected\<rparr>))))))"

section \<open>Invariant and growth\<close>

text \<open>
  A value that prints like another one may be listed twice; the number under which \<open>ids\<close> knows it
  is the canonical one, and tuples hold canonical numbers only.
\<close>

definition canonical :: "Interner \<Rightarrow> TermId \<Rightarrow> bool" where
  "canonical I i \<longleftrightarrow> i < length (interned I) \<and> map_of (ids I) (interned I ! i) = Some i"

definition blank_value :: "Value \<Rightarrow> bool" where
  "blank_value v \<longleftrightarrow> (\<exists>s. v = VTerm (TBlankNode (BlankNode_new_unchecked s)))"

definition interner_ok :: "Interner \<Rightarrow> bool" where
  "interner_ok I \<longleftrightarrow> distinct (map fst (ids I)) \<and> distinct (map fst (generated I)) \<and>
     dom (map_of (ids I)) = set (interned I) \<and>
     (\<forall>v i. map_of (ids I) v = Some i \<longrightarrow> i < length (interned I) \<and> interned I ! i = v) \<and>
     (\<forall>k i. map_of (generated I) k = Some i \<longrightarrow> canonical I i \<and> blank_value (interned I ! i)) \<and>
     inj_on (map_of (generated I)) (dom (map_of (generated I)))"

definition interner_le :: "Interner \<Rightarrow> Interner \<Rightarrow> bool" where
  "interner_le I J \<longleftrightarrow> (\<exists>ws. interned J = interned I @ ws) \<and>
     map_of (ids I) \<subseteq>\<^sub>m map_of (ids J) \<and> map_of (generated I) \<subseteq>\<^sub>m map_of (generated J) \<and>
     (\<forall>k i. map_of (generated J) k = Some i \<longrightarrow>
        map_of (generated I) k = Some i \<or> length (interned I) \<le> i)"

lemma interner_le_refl [simp]: "interner_le I I"
  by (simp add: interner_le_def)

lemma interner_le_trans [trans]:
  assumes IJ: "interner_le I J" and JK: "interner_le J K"
  shows "interner_le I K"
proof -
  obtain ws vs where ws: "interned J = interned I @ ws" "interned K = interned J @ vs"
    using IJ JK by (auto simp: interner_le_def)
  have "map_of (ids I) \<subseteq>\<^sub>m map_of (ids K)" "map_of (generated I) \<subseteq>\<^sub>m map_of (generated K)"
    using IJ JK by (auto simp: interner_le_def intro: map_le_trans)
  moreover have "map_of (generated I) k = Some i \<or> length (interned I) \<le> i"
    if "map_of (generated K) k = Some i" for k i
    using IJ JK that ws unfolding interner_le_def by (metis add_leD1 length_append)
  ultimately show ?thesis using ws by (auto simp: interner_le_def)
qed

lemma interner_le_nth:
  assumes "interner_le I J" and "i < length (interned I)"
  shows "i < length (interned J)" and "interned J ! i = interned I ! i"
  using assms by (auto simp: interner_le_def nth_append)

lemma interner_le_ids: "interner_le I J \<Longrightarrow> map_of (ids I) v = Some i \<Longrightarrow> map_of (ids J) v = Some i"
  by (force simp: interner_le_def map_le_def)

lemma interner_le_generated:
  "interner_le I J \<Longrightarrow> map_of (generated I) k = Some i \<Longrightarrow> map_of (generated J) k = Some i"
  by (force simp: interner_le_def map_le_def)

lemma canonical_mono: "interner_le I J \<Longrightarrow> canonical I i \<Longrightarrow> canonical J i"
  by (auto simp: canonical_def interner_le_nth interner_le_ids)

lemma canonical_inj: "canonical I i \<Longrightarrow> canonical I j \<Longrightarrow> interned I ! i = interned I ! j \<Longrightarrow> i = j"
  by (auto simp: canonical_def)

lemma interner_ok_id: "interner_ok I \<Longrightarrow> map_of (ids I) v = Some i \<Longrightarrow> canonical I i \<and> interned I ! i = v"
  by (auto simp: interner_ok_def canonical_def)

text \<open>The decoded fact of a key, and the keys whose numbers are canonical.\<close>

definition fact_of :: "Interner \<Rightarrow> FactKey \<Rightarrow> Fact" where
  "fact_of I k = Fact_new (fst k) (map (\<lambda>i. interned I ! i) (snd k))"

definition key_ok :: "Interner \<Rightarrow> FactKey \<Rightarrow> bool" where
  "key_ok I k \<longleftrightarrow> list_all (canonical I) (snd k)"

lemma key_ok_mono: "interner_le I J \<Longrightarrow> key_ok I k \<Longrightarrow> key_ok J k"
  by (auto simp: key_ok_def list_all_iff canonical_mono)

lemma fact_of_mono: "interner_le I J \<Longrightarrow> key_ok I k \<Longrightarrow> fact_of J k = fact_of I k"
  unfolding fact_of_def
  by (rule arg_cong [where f = "Fact_new (fst k)"])
    (simp add: key_ok_def list_all_iff canonical_def interner_le_nth)

lemma fact_of_inj:
  assumes "key_ok I k" and "key_ok I l" and "fact_of I k = fact_of I l"
  shows "k = l"
proof -
  obtain r t where k: "k = (r, t)" by (cases k)
  obtain q u where l: "l = (q, u)" by (cases l)
  have "map (\<lambda>i. interned I ! i) t = map (\<lambda>i. interned I ! i) u" and rq: "r = q"
    using assms(3) by (simp_all add: k l fact_of_def Fact_new_def)
  then have "length t = length u" and "\<forall>n<length t. interned I ! (t ! n) = interned I ! (u ! n)"
    by (metis length_map) (metis length_map nth_map \<open>map _ t = map _ u\<close>)
  with assms(1,2) have "t = u"
    by (intro nth_equalityI) (auto simp: k l key_ok_def list_all_length intro: canonical_inj)
  with rq show ?thesis by (simp add: k l)
qed

section \<open>Encoding and decoding\<close>

lemma runs_collect:
  assumes "\<And>x. x \<in> set xs \<Longrightarrow> runs (f x) E (R x)"
  shows "runs (collect f xs) E (list_all2 R xs)"
  using assms
proof (induction xs)
  case (Cons x xs)
  then have "runs (f x) E (R x)" and "runs (collect f xs) E (list_all2 R xs)" by auto
  then show ?case by (auto intro!: runs_bind [where m = "f x"] runs_bind [where m = "collect f xs"] runs_ok)
qed (auto intro: runs_ok)

lemma runs_collect_map:
  assumes "\<And>x. x \<in> set xs \<Longrightarrow> runs (f x) E (\<lambda>y. y = g x)"
  shows "runs (collect f xs) E (\<lambda>ys. ys = map g xs)"
  by (rule runs_weaken [OF runs_collect [OF assms]]) (auto simp: list_all2_conv_all_nth intro: nth_equalityI)

lemma runs_value_at: "i < length (interned I) \<Longrightarrow> runs (value_at I i) E (\<lambda>v. v = interned I ! i)"
  by (auto simp: value_at_def intro: runs_expect)

lemma runs_Interner_id: "map_of (ids I) v = Some i \<Longrightarrow> runs (Interner_id I v) E (\<lambda>j. j = i)"
  by (auto simp: Interner_id_def intro: runs_expect)

lemma runs_decode_fact: "key_ok I k \<Longrightarrow> runs (decode_fact I k) E (\<lambda>f. f = fact_of I k)"
  unfolding decode_fact_def fact_of_def
  by (rule runs_bind [OF runs_collect_map [where g = "\<lambda>i. interned I ! i"]])
    (auto simp: key_ok_def list_all_iff canonical_def intro!: runs_value_at runs_ok)

text \<open>Encoding a known fact gives a canonical key that decodes to it.\<close>

lemma runs_encode_fact:
  assumes I: "interner_ok I" and f: "set (fact_values f) \<subseteq> dom (map_of (ids I))"
  shows "runs (encode_fact I f) E
    (\<lambda>k. key_ok I k \<and> fact_of I k = f \<and> fst k = fact_relation f \<and> length (snd k) = Fact_arity f)"
proof -
  have enc: "map_of (ids I) v = Some (the (map_of (ids I) v))" if "v \<in> set (fact_values f)" for v
    using f that by (auto simp: dom_def)
  let ?t = "map (\<lambda>v. the (map_of (ids I) v)) (fact_values f)"
  have can: "canonical I (the (map_of (ids I) v)) \<and> interned I ! the (map_of (ids I) v) = v"
    if "v \<in> set (fact_values f)" for v
    using interner_ok_id [OF I enc [OF that]] .
  have "key_ok I (fact_relation f, ?t) \<and> fact_of I (fact_relation f, ?t) = f"
    using can by (simp add: key_ok_def fact_of_def list_all_iff Fact_new_def comp_def map_idI)
  then show ?thesis
    unfolding encode_fact_def
    by (intro runs_bind [OF runs_collect_map [where g = "\<lambda>v. the (map_of (ids I) v)"]])
      (auto simp: Fact_arity_def intro!: runs_ok runs_Interner_id enc)
qed

section \<open>Construction\<close>

definition values_of_facts :: "Fact list \<Rightarrow> Value set" where
  "values_of_facts fs = (\<Union>f\<in>set fs. set (fact_values f))"

definition constants_of :: "Atom set \<Rightarrow> Value set" where
  "constants_of A = {c. \<exists>a\<in>A. PConstant c \<in> set (terms a)}"

lemma constants_of_atoms_of [simp]:
  "constants_of (atoms_of {}) = {}"
  "constants_of (atoms_of (insert r D)) = constants_of (set (rule_atoms r)) \<union> constants_of (atoms_of D)"
  by (auto simp: constants_of_def atoms_of_def)

lemma runs_push_value: "runs (push_value cfg v acc) (permitted cfg) (\<lambda>acc'. set (fst acc') = insert v (set (fst acc)))"
  by (cases acc) (auto simp: push_value_def Let_def intro!: runs_guard runs_ok)

lemma runs_push_fact:
  "runs (push_fact cfg f acc) (permitted cfg) (\<lambda>acc'. set (fst acc') = set (fst acc) \<union> set (fact_values f))"
  unfolding push_fact_def
  by (rule runs_for_each [where I = "\<lambda>A acc'. set (fst acc') = set (fst acc) \<union> A"])
    (auto intro!: runs_weaken [OF runs_push_value])

lemma runs_push_constants:
  "runs (push_constants cfg r acc) (permitted cfg)
    (\<lambda>acc'. set (fst acc') = set (fst acc) \<union> constants_of (set (rule_atoms r)))"
proof -
  have atom: "runs (for_each (\<lambda>t acc. case t of PConstant v \<Rightarrow> push_value cfg v acc | _ \<Rightarrow> ok acc) (terms a) acc)
    (permitted cfg) (\<lambda>acc'. set (fst acc') = set (fst acc) \<union> constants_of {a})" for a acc
    by (rule runs_for_each [where I = "\<lambda>A acc'. set (fst acc') = set (fst acc) \<union> {c. PConstant c \<in> A}"])
      (auto simp: constants_of_def split: PatternTerm.splits intro!: runs_weaken [OF runs_push_value] runs_ok)
  show ?thesis
    unfolding push_constants_def
    by (rule runs_for_each [where I = "\<lambda>A acc'. set (fst acc') = set (fst acc) \<union> constants_of A"])
      (auto simp: constants_of_def intro!: runs_weaken [OF atom])
qed

lemma runs_Interner_new:
  "runs (Interner_new cfg vp fs) (permitted cfg) (\<lambda>I. interner_ok I \<and> generated I = [] \<and>
     dom (map_of (ids I)) = values_of_facts fs \<union> constants_of (atoms_of (set (vp_rules vp))))"
proof -
  let ?E = "permitted cfg"
  have facts: "runs (for_each (push_fact cfg) fs ([], n)) ?E (\<lambda>acc. set (fst acc) = values_of_facts fs)" for n
    by (rule runs_for_each [where I = "\<lambda>A acc. set (fst acc) = (\<Union>f\<in>A. set (fact_values f))"])
      (auto simp: values_of_facts_def intro!: runs_weaken [OF runs_push_fact])
  have constants: "runs (for_each (push_constants cfg) rs acc) ?E
      (\<lambda>acc'. set (fst acc') = set (fst acc) \<union> constants_of (atoms_of (set rs)))" for rs acc
    by (rule runs_for_each [where I = "\<lambda>A acc'. set (fst acc') = set (fst acc) \<union> constants_of (atoms_of A)"])
      (auto intro!: runs_weaken [OF runs_push_constants])
  define J :: "(nat \<times> Value) set \<Rightarrow> (Value, TermId) hash_map \<Rightarrow> bool" where
    "J A m \<longleftrightarrow> distinct (map fst m) \<and> dom (map_of m) = snd ` A \<and>
       (\<forall>v i. map_of m v = Some i \<longrightarrow> (i, v) \<in> A)" for A m
  have index: "runs (for_each (\<lambda>(i, v) m. andthen (check cfg) (ok (AList.update v i m))) (List.enumerate 0 vs) [])
      ?E (J (set (List.enumerate 0 vs)))" for vs
    by (rule runs_for_each [where I = J])
      (auto simp: J_def update_conv' distinct_update intro!: runs_guard runs_ok split: if_splits)
  have ok: "interner_ok \<lparr>interned = vs, ids = m, generated = [], interner_bytes = n\<rparr> \<and>
      dom (map_of m) = set vs" if "J (set (List.enumerate 0 vs)) m" for vs m n
  proof -
    have "snd ` set (List.enumerate 0 vs) = set vs"
      by (metis list.set_map map_snd_enumerate)
    with that show ?thesis by (auto simp: J_def interner_ok_def in_set_enumerate_eq)
  qed
  show ?thesis
    unfolding Interner_new_def Let_def
  proof (rule runs_bind [OF facts], rule runs_bind [OF constants], goal_cases)
    case (1 acc acc')
    obtain vs n where acc': "acc' = (vs, n)" by (cases acc')
    with 1 show ?case
      unfolding acc' prod.case
      by (intro runs_guard runs_if runs_err runs_bind [OF index] runs_ok)
        (auto simp only: term_id_max_def permitted_simps Interner.simps ok remdups_adj_set fst_conv set_sort)
  qed
qed

section \<open>Generated blank nodes\<close>

text \<open>The generation key as a function of the decoded binding.\<close>

definition gen_key :: "RuleId \<Rightarrow> BlankNodeGenerator \<Rightarrow> (Variable \<times> Value) list \<Rightarrow> string" where
  "gen_key rule generator b =
     netstring rule @ ''|'' @ netstring generator @ concat (map (\<lambda>(x, v). key_section x (Value_sort_key v)) b)"

lemma key_section_netstring: "key_section x w = ''|'' @ netstring x @ ''='' @ netstring w"
  by (simp add: key_section_def netstring_def)

text \<open>Rules, generators and printed bindings are read back off the key.\<close>

lemma gen_key_eq_iff:
  "gen_key r g b = gen_key r' g' b' \<longleftrightarrow>
     r = r' \<and> g = g' \<and> map (map_prod id Value_sort_key) b = map (map_prod id Value_sort_key) b'"
proof -
  let ?sec = "\<lambda>b. concat (map (\<lambda>(x, v). key_section x (Value_sort_key v)) b)"
  have "?sec b = ?sec b' \<longleftrightarrow> map (map_prod id Value_sort_key) b = map (map_prod id Value_sort_key) b'"
    for b b' :: "(Variable \<times> Value) list"
  proof (induction b arbitrary: b')
    case Nil
    then show ?case by (cases b') (auto simp: key_section_def)
  next
    case (Cons p b)
    then show ?case
      by (cases b')
        (auto simp: key_section_netstring map_prod_def simp del: Value_sort_key_eq_iff split: prod.splits)
  qed
  then show ?thesis by (auto simp: gen_key_def simp del: Value_sort_key_eq_iff)
qed

abbreviation decoded :: "Interner \<Rightarrow> binding \<Rightarrow> (Variable \<times> Value) list" where
  "decoded I b \<equiv> map (map_prod id (\<lambda>i. interned I ! i)) b"

lemma runs_generation_key:
  assumes "\<forall>(x, i)\<in>set b. i < length (interned I)"
  shows "runs (generation_key I r g b) E (\<lambda>k. k = gen_key r g (decoded I b))"
proof -
  let ?hd = "show_nat (length r) @ '':'' @ r @ ''|'' @ show_nat (length g) @ '':'' @ g"
  let ?sec = "\<lambda>b. concat (map (\<lambda>(x, v). key_section x (Value_sort_key v)) (decoded I b))"
  show ?thesis
    unfolding generation_key_def
  proof (rule runs_for_each_split [where I = "\<lambda>done rest key. key = ?hd @ ?sec done"])
    fix "done" :: binding and x rest acc
    assume "b = done @ x # rest" and "acc = ?hd @ ?sec done"
    with assms show "runs ((case x of (x, i) \<Rightarrow> \<lambda>key. bind (value_at I i)
        (\<lambda>v. ok (key @ key_section x (Value_sort_key v)))) acc) E (\<lambda>key. key = ?hd @ ?sec (done @ [x]))"
      by (cases x) (auto intro!: runs_bind [OF runs_value_at] runs_ok)
  qed (simp_all add: gen_key_def netstring_def)
qed

lemma BlankNode_new_unchecked_eq_iff: "BlankNode_new_unchecked s = BlankNode_new_unchecked t \<longleftrightarrow> s = t"
  using arg_cong [of "BlankNode_new_unchecked s" "BlankNode_new_unchecked t" BlankNode_as_str]
  unfolding BlankNode_as_str_new_unchecked by blast

lemma candidate_node_inj: "candidate_node base n = candidate_node base m \<longleftrightarrow> n = m"
  by (simp add: candidate_node_def BlankNode_new_unchecked_eq_iff)

lemma runs_unused_label:
  "runs (unused_label cfg I base ns) (permitted cfg) (\<lambda>c. case c of
     Some v \<Rightarrow> v \<notin> dom (map_of (ids I)) \<and> blank_value v
   | None \<Rightarrow> \<forall>n\<in>set ns. candidate_node base n \<in> dom (map_of (ids I)))"
  by (induction ns) (auto simp: blank_value_def candidate_node_def intro!: runs_ok runs_guard elim!: runs_weaken split: option.splits)

text \<open>
  One label more than there are known values is tried, so the search always finds an unused one:
  \<open>GeneratedBlankNodeSpaceExhausted\<close> is never reported.
\<close>

lemma runs_unused_label_found:
  assumes "interner_ok I"
  shows "runs (unused_label cfg I base [0..<Suc (length (ids I))]) (permitted cfg)
    (\<lambda>c. \<exists>v. c = Some v \<and> v \<notin> dom (map_of (ids I)) \<and> blank_value v)"
proof -
  have "\<not> (\<forall>n\<in>set [0..<Suc (length (ids I))]. candidate_node base n \<in> dom (map_of (ids I)))"
  proof
    assume "\<forall>n\<in>set [0..<Suc (length (ids I))]. candidate_node base n \<in> dom (map_of (ids I))"
    then have "candidate_node base ` {0..<Suc (length (ids I))} \<subseteq> dom (map_of (ids I))"
      unfolding set_upt by blast
    then have "card (candidate_node base ` {0..<Suc (length (ids I))}) \<le> card (dom (map_of (ids I)))"
      by (rule card_mono [OF finite_dom_map_of])
    moreover have "card (candidate_node base ` {0..<Suc (length (ids I))}) = Suc (length (ids I))"
      by (subst card_image) (auto simp: inj_on_def candidate_node_inj)
    moreover have "card (dom (map_of (ids I))) \<le> length (ids I)"
      by (metis card_length dom_map_of_conv_image_fst length_map list.set_map)
    ultimately show False by simp
  qed
  then show ?thesis
    by (intro runs_weaken [OF runs_unused_label]) (auto split: option.splits)
qed

definition fresh_extension :: "Interner \<Rightarrow> string \<Rightarrow> Value \<Rightarrow> nat \<Rightarrow> Interner" where
  "fresh_extension I key v bytes = \<lparr>interned = interned I @ [v], ids = AList.update v (length (interned I)) (ids I),
     generated = AList.update key (length (interned I)) (generated I), interner_bytes = bytes\<rparr>"

lemma fresh_extension_ok:
  assumes I: "interner_ok I" and v: "v \<notin> dom (map_of (ids I))" "blank_value v" and k: "map_of (generated I) key = None"
  shows "interner_ok (fresh_extension I key v n)" and "interner_le I (fresh_extension I key v n)"
    and "map_of (generated (fresh_extension I key v n)) key = Some (length (interned I))"
proof -
  let ?J = "fresh_extension I key v n"
  have ids: "map_of (ids ?J) = (map_of (ids I))(v \<mapsto> length (interned I))"
    and gen: "map_of (generated ?J) = (map_of (generated I))(key \<mapsto> length (interned I))"
    and vals: "interned ?J = interned I @ [v]"
    by (simp_all add: fresh_extension_def update_conv')
  have old: "i < length (interned I)" if "map_of (generated I) k' = Some i" for k' i
    using I that by (auto simp: interner_ok_def canonical_def)
  show le: "interner_le I ?J"
    using v(1) k unfolding interner_le_def ids gen vals by (auto simp: map_le_def split: if_splits)
  show "map_of (generated ?J) key = Some (length (interned I))" by (simp add: gen)
  have "canonical ?J i \<and> blank_value (interned ?J ! i)" if "map_of (generated ?J) k' = Some i" for k' i
  proof (cases "k' = key")
    case True
    with that v(2) show ?thesis by (auto simp: gen canonical_def ids vals)
  next
    case False
    with that I have "canonical I i" "blank_value (interned I ! i)" by (simp_all add: gen interner_ok_def)
    then show ?thesis using canonical_mono [OF le] by (simp add: vals nth_append canonical_def)
  qed
  moreover have "inj_on (map_of (generated ?J)) (dom (map_of (generated ?J)))"
    using I old unfolding gen by (force simp: interner_ok_def inj_on_def dom_def)
  moreover have "distinct (map fst (ids ?J))" "distinct (map fst (generated ?J))"
    using I by (simp_all add: fresh_extension_def interner_ok_def distinct_update)
  moreover have "dom (map_of (ids ?J)) = set (interned ?J)"
    "\<forall>w i. map_of (ids ?J) w = Some i \<longrightarrow> i < length (interned ?J) \<and> interned ?J ! i = w"
    using I unfolding ids vals by (auto simp: interner_ok_def nth_append less_Suc_eq)
  ultimately show "interner_ok ?J" by (simp add: interner_ok_def)
qed

lemma runs_generate_blank_node:
  assumes I: "interner_ok I" and b: "\<forall>(x, i)\<in>set b. i < length (interned I)"
  shows "runs (generate_blank_node cfg r g b I) (permitted cfg) (\<lambda>(i, J). interner_ok J \<and> interner_le I J \<and>
     map_of (generated J) (gen_key r g (decoded I b)) = Some i)"
  unfolding generate_blank_node_def
proof (rule runs_bind [OF runs_generation_key [OF b]], goal_cases)
  case (1 key)
  show ?case
  proof (cases "map_of (generated I) key")
    case None
    then show ?thesis
      unfolding Let_def option.case fresh_extension_def [symmetric]
      by (auto simp: term_id_max_def 1 simp del: upt_Suc intro!: runs_if runs_err runs_bind [OF runs_unused_label_found [OF I]]
          runs_guard runs_ok fresh_extension_ok [OF I])
  qed (use I 1 in \<open>auto intro: runs_ok\<close>)
qed

section \<open>Properties\<close>

text \<open>
  C21. The interner of an input numbers all of it: after \<open>Interner::new\<close>, encoding a fact of the input
  and decoding the key gives the fact back, and neither step panics.
\<close>

theorem interned_fact_roundtrip:
  assumes "f \<in> set fs"
  shows "runs (bind (Interner_new cfg vp fs) (\<lambda>I. bind (encode_fact I f) (decode_fact I))) (permitted cfg) (\<lambda>g. g = f)"
proof (rule runs_bind [OF runs_Interner_new], elim conjE, goal_cases)
  case (1 I)
  have "set (fact_values f) \<subseteq> dom (map_of (ids I))" using assms 1(3) by (auto simp: values_of_facts_def)
  from runs_encode_fact [OF 1(1) this] show ?case
    by (rule runs_bind) (auto intro: runs_weaken [OF runs_decode_fact])
qed

definition no_rules :: ValidatedProgram where
  "no_rules = \<lparr>vp_rules = [], vp_arities = [], vp_dependencies = DependencyGraph_default, vp_strata = []\<rparr>"

theorem interned_fact_roundtrip_witness:
  "Fact_new ''e'' [VDefaultGraph] \<in> set [Fact_new ''e'' [VDefaultGraph]] \<and>
   runs (bind (Interner_new plain_config no_rules [Fact_new ''e'' [VDefaultGraph]])
     (\<lambda>I. bind (encode_fact I (Fact_new ''e'' [VDefaultGraph])) (decode_fact I)))
     (permitted plain_config) (\<lambda>g. g = Fact_new ''e'' [VDefaultGraph])"
  using interned_fact_roundtrip [of "Fact_new ''e'' [VDefaultGraph]" "[Fact_new ''e'' [VDefaultGraph]]" plain_config no_rules] by simp


definition demo_interner :: Interner where
  "demo_interner = \<lparr>interned = [VDefaultGraph], ids = [(VDefaultGraph, 0)], generated = [], interner_bytes = 0\<rparr>"


text \<open>
  C22. Generation keys do not collide: two keys are equal only if the rules, the generators, the bound
  variables and the printed values are.
\<close>

theorem generation_key_injective:
  assumes "generation_key I r g b s = Inr (k, s')" and "generation_key I r' g' b' t = Inr (k, t')"
    and "\<forall>(x, i)\<in>set b \<union> set b'. i < length (interned I)"
  shows "r = r' \<and> g = g' \<and> map (map_prod id Value_sort_key) (decoded I b) = map (map_prod id Value_sort_key) (decoded I b')"
proof -
  have "\<forall>(x, i)\<in>set b. i < length (interned I)" and "\<forall>(x, i)\<in>set b'. i < length (interned I)"
    using assms(3) by blast+
  then have "k = gen_key r g (decoded I b)" and "k = gen_key r' g' (decoded I b')"
    using runs_Inr [OF runs_generation_key assms(1)] runs_Inr [OF runs_generation_key assms(2)] by blast+
  then show ?thesis by (simp add: gen_key_eq_iff)
qed

theorem generation_key_injective_witness:
  "generation_key demo_interner ''r'' ''g'' [(''x'', 0)] () = Inr (''1:r|1:g|1:x=1:G'', ()) \<and>
   map (map_prod id Value_sort_key) (decoded demo_interner [(''x'', 0)]) = [(''x'', ''G'')]"
proof -
  have h: "generation_key demo_interner ''r'' ''g'' [(''x'', 0)] () = Inr (''1:r|1:g|1:x=1:G'', ())" by code_simp
  from generation_key_injective [OF h h] h show ?thesis by (auto simp: demo_interner_def)
qed

end
