(* ===== verification/Datalog_Relations.thy ===== *)
theory Datalog_Relations
  imports Datalog_Interner
begin

text \<open>
  Relations and the relation store of \<open>lib/oxdatalog/src/engine/storage.rs\<close>. A relation keeps its
  tuples and one index per position; the store keeps an estimate of its own size. \<open>None\<close> stands for
  a panic on an index out of range.
\<close>

section \<open>One relation\<close>

type_synonym position_index = "(TermId, Tuple btree_set) btree_map"

record RelationData =
  tuples :: "Tuple btree_set"
  indexes :: "position_index list"

definition RelationData_new :: "nat \<Rightarrow> RelationData" where
  "RelationData_new arity = \<lparr>tuples = [], indexes = replicate arity []\<rparr>"

definition RelationData_is_empty :: "RelationData \<Rightarrow> bool" where
  "RelationData_is_empty d \<longleftrightarrow> tuples d = []"

text \<open>\<open>entry(value).or_default()\<close>.\<close>

definition index_entry :: "position_index \<Rightarrow> TermId \<Rightarrow> Tuple btree_set" where
  "index_entry m v = (case map_of m v of None \<Rightarrow> [] | Some s \<Rightarrow> s)"

text \<open>The loop of \<open>insert\<close> over the positions of the tuple.\<close>

fun index_tuple :: "Tuple \<Rightarrow> (nat \<times> TermId) list \<Rightarrow> position_index list \<Rightarrow> position_index list option" where
  "index_tuple t [] idx = Some idx"
| "index_tuple t ((position, v) # rest) idx =
     (case nth_opt idx position of
        None \<Rightarrow> None
      | Some m \<Rightarrow>
          index_tuple t rest (idx[position := btm_insert v (bts_insert t (index_entry m v)) m]))"

definition RelationData_insert :: "Tuple \<Rightarrow> RelationData \<Rightarrow> (bool \<times> RelationData) option" where
  "RelationData_insert t d =
     (if t \<in> set (tuples d) then Some (False, d)
      else case index_tuple t (List.enumerate 0 t) (indexes d) of
        None \<Rightarrow> None
      | Some idx \<Rightarrow> Some (True, \<lparr>tuples = bts_insert t (tuples d), indexes = idx\<rparr>))"

text \<open>The constraints an atom and a binding put on the positions of a tuple.\<close>

fun constraints :: "Interner \<Rightarrow> binding \<Rightarrow> (nat \<times> PatternTerm) list \<Rightarrow> (nat \<times> TermId) list option" where
  "constraints I b [] = Some []"
| "constraints I b ((position, t) # ts) =
     (case t of
        PConstant c \<Rightarrow>
          (case map_of (ids I) c of
             None \<Rightarrow> None
           | Some i \<Rightarrow> map_option (\<lambda>cs. (position, i) # cs) (constraints I b ts))
      | PVariable x \<Rightarrow>
          (case map_of b x of
             None \<Rightarrow> constraints I b ts
           | Some i \<Rightarrow> map_option (\<lambda>cs. (position, i) # cs) (constraints I b ts))
      | PGeneratedBlankNode _ \<Rightarrow> constraints I b ts)"

text \<open>\<open>min_by_key\<close> over a key that may panic: the first element with the least key.\<close>

fun min_by_key :: "('a \<Rightarrow> nat option) \<Rightarrow> 'a list \<Rightarrow> 'a option option" where
  "min_by_key f [] = Some None"
| "min_by_key f (x # xs) =
     (case f x of
        None \<Rightarrow> None
      | Some k \<Rightarrow>
          (case min_by_key f xs of
             None \<Rightarrow> None
           | Some None \<Rightarrow> Some (Some x)
           | Some (Some y) \<Rightarrow> (if k \<le> the (f y) then Some (Some x) else Some (Some y))))"

definition index_size :: "RelationData \<Rightarrow> nat \<times> TermId \<Rightarrow> nat option" where
  "index_size d c = (case c of (position, v) \<Rightarrow>
     map_option (\<lambda>m. case map_of m v of None \<Rightarrow> 0 | Some s \<Rightarrow> length s) (nth_opt (indexes d) position))"

fun satisfies :: "(nat \<times> TermId) list \<Rightarrow> Tuple \<Rightarrow> bool option" where
  "satisfies [] t = Some True"
| "satisfies ((position, v) # cs) t =
     (case nth_opt t position of
        None \<Rightarrow> None
      | Some w \<Rightarrow> if w = v then satisfies cs t else Some False)"

fun filter_opt :: "('a \<Rightarrow> bool option) \<Rightarrow> 'a list \<Rightarrow> 'a list option" where
  "filter_opt p [] = Some []"
| "filter_opt p (x # xs) =
     (case p x of
        None \<Rightarrow> None
      | Some keep \<Rightarrow> map_option (\<lambda>ys. if keep then x # ys else ys) (filter_opt p xs))"

text \<open>
  \<open>matching\<close>: the smallest index entry among the constrained positions is scanned, or all tuples
  when there is none. The source returns a lazy iterator; here it is the list of its items.
\<close>

definition matching :: "RelationData \<Rightarrow> Atom \<Rightarrow> binding \<Rightarrow> Interner \<Rightarrow> Tuple list option" where
  "matching d atom b I =
     (case constraints I b (List.enumerate 0 (terms atom)) of
        None \<Rightarrow> None
      | Some cs \<Rightarrow>
          (case min_by_key (index_size d) cs of
             None \<Rightarrow> None
           | Some least \<Rightarrow>
               let selected = (case least of
                     None \<Rightarrow> None
                   | Some (position, v) \<Rightarrow> Option.bind (nth_opt (indexes d) position) (\<lambda>m. map_of m v))
               in filter_opt (satisfies cs) (case selected of None \<Rightarrow> tuples d | Some s \<Rightarrow> s)))"

definition base_estimated_bytes :: "Config \<Rightarrow> nat \<Rightarrow> nat" where
  "base_estimated_bytes cfg arity =
     sat_add (size_RelationData (layout cfg)) (sat_mul arity (size_BTreeMap_index (layout cfg)))"

definition tuple_estimated_bytes :: "nat \<Rightarrow> nat" where
  "tuple_estimated_bytes arity = sat_mul (arity + 1) (sat_add (sat_mul arity size_TermId) 48)"

section \<open>The store\<close>

record RelationStore =
  store_relations :: "(RelationId, RelationData) btree_map"
  store_bytes :: nat

definition relation_estimated_bytes :: "Config \<Rightarrow> RelationId \<Rightarrow> nat \<Rightarrow> nat" where
  "relation_estimated_bytes cfg r arity = sat_add (sat_add (length r) (base_estimated_bytes cfg arity)) 48"

definition fact_key_estimated_bytes :: "FactKey \<Rightarrow> nat" where
  "fact_key_estimated_bytes k = (case k of (r, t) \<Rightarrow>
     sat_add (sat_add (length r) (sat_mul (length t) size_TermId)) 64)"

definition RelationStore_new :: "Config \<Rightarrow> arity_map \<Rightarrow> RelationStore" where
  "RelationStore_new cfg arities =
     \<lparr>store_relations = map (\<lambda>(r, arity). (r, RelationData_new arity)) arities,
      store_bytes = sat_sum (size_BTreeMap_relations (layout cfg))
        (map (\<lambda>(r, arity). relation_estimated_bytes cfg r arity) arities)\<rparr>"

definition store_relation :: "RelationStore \<Rightarrow> RelationId \<Rightarrow> RelationData option" where
  "store_relation st r = map_of (store_relations st) r"

definition insert_key :: "Config \<Rightarrow> FactKey \<Rightarrow> RelationStore \<Rightarrow> (bool \<times> RelationStore) option" where
  "insert_key cfg k st = (case k of (r, t) \<Rightarrow>
     let arity = length t;
         relation_bytes = (if map_of (store_relations st) r \<noteq> None then 0
           else relation_estimated_bytes cfg r arity);
         data = (case map_of (store_relations st) r of Some d \<Rightarrow> d | None \<Rightarrow> RelationData_new arity)
     in case RelationData_insert t data of
          None \<Rightarrow> None
        | Some (True, d) \<Rightarrow>
            Some (True, \<lparr>store_relations = btm_insert r d (store_relations st),
              store_bytes = sat_add (sat_add (store_bytes st) relation_bytes) (tuple_estimated_bytes arity)\<rparr>)
        | Some (False, d) \<Rightarrow> Some (False, st\<lparr>store_relations := btm_insert r d (store_relations st)\<rparr>))"

definition contains_key :: "RelationStore \<Rightarrow> FactKey \<Rightarrow> bool" where
  "contains_key st k = (case k of (r, t) \<Rightarrow>
     (case map_of (store_relations st) r of Some d \<Rightarrow> t \<in> set (tuples d) | None \<Rightarrow> False))"

definition store_is_empty :: "RelationStore \<Rightarrow> bool" where
  "store_is_empty st \<longleftrightarrow> list_all (\<lambda>(r, d). RelationData_is_empty d) (store_relations st)"

definition store_keys :: "RelationStore \<Rightarrow> FactKey list" where
  "store_keys st = concat (map (\<lambda>(r, d). map (Pair r) (tuples d)) (store_relations st))"

definition keys_for_relation :: "RelationStore \<Rightarrow> RelationId \<Rightarrow> FactKey list" where
  "keys_for_relation st r =
     (case map_of (store_relations st) r of Some d \<Rightarrow> map (Pair r) (tuples d) | None \<Rightarrow> [])"

definition store_len :: "RelationStore \<Rightarrow> nat" where
  "store_len st = sum_list (map (\<lambda>(r, d). length (tuples d)) (store_relations st))"

definition projected_insert_bytes :: "Config \<Rightarrow> RelationStore \<Rightarrow> FactKey \<Rightarrow> nat" where
  "projected_insert_bytes cfg st k = (case k of (r, t) \<Rightarrow>
     if (case map_of (store_relations st) r of Some d \<Rightarrow> t \<in> set (tuples d) | None \<Rightarrow> False)
     then store_bytes st
     else sat_add (sat_add (store_bytes st)
       (if map_of (store_relations st) r \<noteq> None then 0 else relation_estimated_bytes cfg r (length t)))
       (tuple_estimated_bytes (length t)))"

section \<open>Relations keep their indexes\<close>

definition index_ok :: "Tuple set \<Rightarrow> nat \<Rightarrow> position_index \<Rightarrow> bool" where
  "index_ok T p m \<longleftrightarrow> btm_wf m \<and>
     (\<forall>v. bts_wf (index_entry m v) \<and> set (index_entry m v) = {t \<in> T. t ! p = v})"

definition rel_ok :: "nat \<Rightarrow> RelationData \<Rightarrow> bool" where
  "rel_ok arity d \<longleftrightarrow> bts_wf (tuples d) \<and> (\<forall>t\<in>set (tuples d). length t = arity) \<and>
     length (indexes d) = arity \<and> (\<forall>p<arity. index_ok (set (tuples d)) p (indexes d ! p))"

lemma rel_ok_new: "rel_ok n (RelationData_new n)"
  by (simp add: rel_ok_def RelationData_new_def index_ok_def index_entry_def)

lemma index_ok_insert:
  "index_ok T p m \<Longrightarrow> t ! p = v \<Longrightarrow> index_ok (insert t T) p (btm_insert v (bts_insert t (index_entry m v)) m)"
  by (auto simp: index_ok_def index_entry_def btm_wf_insert bts_wf_insert)

lemma index_tuple_ok:
  assumes "length idx = length t" and "t = us @ vs"
    and "\<forall>p<length us. index_ok (insert t T) p (idx ! p)"
    and "\<forall>p<length t. length us \<le> p \<longrightarrow> index_ok T p (idx ! p)"
  shows "\<exists>idx'. index_tuple t (List.enumerate (length us) vs) idx = Some idx' \<and> length idx' = length t \<and>
    (\<forall>p<length t. index_ok (insert t T) p (idx' ! p))"
  using assms
proof (induction vs arbitrary: us idx)
  case Nil
  then show ?case by simp
next
  case (Cons v vs)
  let ?p = "length us" and ?m = "idx ! length us"
  have v: "t ! ?p = v" and p: "?p < length t" using Cons.prems(2) by auto
  define m where "m = btm_insert v (bts_insert t (index_entry ?m v)) ?m"
  have m: "index_ok (insert t T) ?p m"
    unfolding m_def by (rule index_ok_insert) (use Cons.prems p v in auto)
  have "\<exists>idx'. index_tuple t (List.enumerate (length (us @ [v])) vs) (idx[?p := m]) = Some idx' \<and>
      length idx' = length t \<and> (\<forall>p<length t. index_ok (insert t T) p (idx' ! p))"
    by (rule Cons.IH) (use Cons.prems m p in \<open>auto simp: nth_list_update less_Suc_eq\<close>)
  then show ?case
    using p Cons.prems(1) by (simp add: nth_opt_def m_def Let_def)
qed

lemma RelationData_insert_ok:
  assumes "rel_ok (length t) d"
  shows "\<exists>d'. RelationData_insert t d = Some (t \<notin> set (tuples d), d') \<and> rel_ok (length t) d' \<and>
    set (tuples d') = insert t (set (tuples d)) \<and> (t \<in> set (tuples d) \<longrightarrow> d' = d)"
proof (cases "t \<in> set (tuples d)")
  case True
  then show ?thesis using assms by (auto simp: RelationData_insert_def)
next
  case False
  obtain idx where "index_tuple t (List.enumerate 0 t) (indexes d) = Some idx" "length idx = length t"
    "\<forall>p<length t. index_ok (insert t (set (tuples d))) p (idx ! p)"
    using index_tuple_ok [of "indexes d" t "[]" t "set (tuples d)"] assms by (auto simp: rel_ok_def)
  then show ?thesis
    using False assms by (auto simp: RelationData_insert_def rel_ok_def bts_wf_insert)
qed

section \<open>Matching is filtering\<close>

text \<open>The number an atom's term demands at its position, and the tuples that agree with all of them.\<close>

definition demanded :: "Interner \<Rightarrow> binding \<Rightarrow> PatternTerm \<Rightarrow> TermId option" where
  "demanded I b t = (case t of PConstant c \<Rightarrow> map_of (ids I) c | PVariable x \<Rightarrow> map_of b x
     | PGeneratedBlankNode _ \<Rightarrow> None)"

definition agrees :: "Interner \<Rightarrow> binding \<Rightarrow> Atom \<Rightarrow> Tuple \<Rightarrow> bool" where
  "agrees I b a t \<longleftrightarrow> (\<forall>p<Atom_arity a. \<forall>i. demanded I b (terms a ! p) = Some i \<longrightarrow> t ! p = i)"

lemma constraints_ok:
  assumes "\<forall>c. PConstant c \<in> set ts \<longrightarrow> c \<in> dom (map_of (ids I))"
  shows "\<exists>cs. constraints I b (List.enumerate n ts) = Some cs \<and>
    set cs = {(n + p, i) | p i. p < length ts \<and> demanded I b (ts ! p) = Some i}"
  using assms
proof (induction ts arbitrary: n)
  case (Cons t ts)
  have "\<forall>c. PConstant c \<in> set ts \<longrightarrow> c \<in> dom (map_of (ids I))"
    using Cons.prems by simp
  from Cons.IH [OF this, of "Suc n"]
  obtain cs where cs: "constraints I b (List.enumerate (Suc n) ts) = Some cs"
    "set cs = {(Suc n + p, i) | p i. p < length ts \<and> demanded I b (ts ! p) = Some i}"
    by blast
  have split: "{(n + p, i) | p i. p < length (t # ts) \<and> demanded I b ((t # ts) ! p) = Some i} =
    (case demanded I b t of None \<Rightarrow> {} | Some i \<Rightarrow> {(n, i)}) \<union> set cs" (is "?L = ?R")
  proof (rule set_eqI)
    fix x
    have "x \<in> ?L \<longleftrightarrow> (\<exists>i. x = (n, i) \<and> demanded I b t = Some i) \<or> x \<in> set cs"
      unfolding cs(2) by (auto simp: less_Suc_eq_0_disj)
    then show "x \<in> ?L \<longleftrightarrow> x \<in> ?R" by (auto split: option.splits)
  qed
  have "\<forall>c. t = PConstant c \<longrightarrow> c \<in> dom (map_of (ids I))"
    using Cons.prems by simp
  with cs(1) show ?case
    unfolding split by (auto simp: demanded_def split: PatternTerm.splits option.splits)
qed simp

lemma min_by_key_ok:
  assumes "\<forall>x\<in>set xs. f x \<noteq> None"
  shows "\<exists>y. min_by_key f xs = Some y \<and> (case y of None \<Rightarrow> xs = [] | Some x \<Rightarrow> x \<in> set xs)"
  using assms
  by (induction xs) (auto split: option.splits)

lemma satisfies_ok: "\<forall>(p, v)\<in>set cs. p < length t \<Longrightarrow> satisfies cs t = Some (\<forall>(p, v)\<in>set cs. t ! p = v)"
  by (induction cs) (auto simp: nth_opt_def)

lemma filter_opt_ok: "\<forall>x\<in>set xs. p x = Some (q x) \<Longrightarrow> filter_opt p xs = Some (filter q xs)"
  by (induction xs) auto

lemma bts_wf_filter: "bts_wf xs \<Longrightarrow> bts_wf (filter p xs)"
  by (rule sorted_wrt_filter)

text \<open>The index-driven scan returns what a scan of all tuples returns, in the same order.\<close>

lemma matching_eq_filter:
  assumes d: "rel_ok (Atom_arity a) d" and c: "constants_of {a} \<subseteq> dom (map_of (ids I))"
  shows "matching d a b I = Some (filter (agrees I b a) (tuples d))"
proof -
  obtain cs where cs: "constraints I b (List.enumerate 0 (terms a)) = Some cs"
    "set cs = {(p, i) | p i. p < Atom_arity a \<and> demanded I b (terms a ! p) = Some i}"
    using constraints_ok [of "terms a" I b 0] c by (auto simp: Atom_arity_def constants_of_def)
  then have pos: "p < Atom_arity a" if "(p, v) \<in> set cs" for p v using that by auto
  have agrees: "agrees I b a t \<longleftrightarrow> (\<forall>(p, v)\<in>set cs. t ! p = v)" for t
    by (auto simp: agrees_def cs(2))
  have "\<forall>x\<in>set cs. index_size d x \<noteq> None"
    using d pos by (auto simp: index_size_def rel_ok_def nth_opt_def)
  then obtain least where least: "min_by_key (index_size d) cs = Some least"
    "case least of None \<Rightarrow> cs = [] | Some x \<Rightarrow> x \<in> set cs"
    using min_by_key_ok by blast
  define sel where "sel = (case least of None \<Rightarrow> None
    | Some (position, v) \<Rightarrow> Option.bind (nth_opt (indexes d) position) (\<lambda>m. map_of m v))"
  define ts where "ts = (case sel of None \<Rightarrow> tuples d | Some s \<Rightarrow> s)"
  have sub: "set ts \<subseteq> set (tuples d) \<and> bts_wf ts \<and> {t \<in> set (tuples d). agrees I b a t} \<subseteq> set ts"
  proof (cases sel)
    case None
    then show ?thesis using d by (simp add: ts_def rel_ok_def)
  next
    case (Some s)
    then obtain p v where pv: "least = Some (p, v)" "p < Atom_arity a" "map_of (indexes d ! p) v = Some s"
      using least(2) pos d
      by (auto simp: sel_def rel_ok_def nth_opt_def split: option.splits if_splits)
    then have "index_ok (set (tuples d)) p (indexes d ! p)" using d by (simp add: rel_ok_def)
    then have "bts_wf s \<and> set s = {t \<in> set (tuples d). t ! p = v}"
      using pv(3) by (auto simp: index_ok_def index_entry_def dest: spec [of _ v])
    moreover have "(p, v) \<in> set cs" using least(2) pv(1) by simp
    ultimately show ?thesis using Some by (auto simp: ts_def agrees)
  qed
  have "filter_opt (satisfies cs) ts = Some (filter (agrees I b a) ts)"
    by (rule filter_opt_ok) (use sub d pos in \<open>auto simp: agrees rel_ok_def intro!: satisfies_ok\<close>)
  moreover have "filter (agrees I b a) ts = filter (agrees I b a) (tuples d)"
    by (rule bts_wf_unique) (use sub d in \<open>auto simp: bts_wf_filter rel_ok_def\<close>)
  ultimately show ?thesis
    by (simp add: matching_def cs(1) least(1) Let_def sel_def [symmetric] ts_def [symmetric])
qed

section \<open>Sets of fact keys\<close>

text \<open>
  What the engine asks of a set of keys: insertion reports whether the key is new, and membership
  answers for what was inserted. The store promises it for keys of the right arity, \<open>BTreeSet\<close> for
  all keys.
\<close>

locale key_set =
  fixes inv :: "'s \<Rightarrow> bool" and elems :: "'s \<Rightarrow> 'k set" and admissible :: "'k \<Rightarrow> bool"
    and ins :: "'k \<Rightarrow> 's \<Rightarrow> (bool \<times> 's) option" and mem :: "'s \<Rightarrow> 'k \<Rightarrow> bool"
  assumes ins_ok: "inv s \<Longrightarrow> admissible k \<Longrightarrow>
      \<exists>s'. ins k s = Some (k \<notin> elems s, s') \<and> inv s' \<and> elems s' = insert k (elems s)"
    and mem_iff: "inv s \<Longrightarrow> mem s k \<longleftrightarrow> k \<in> elems s"
begin

lemma runs_ins:
  assumes "inv s" and "admissible k"
  shows "runs (expect e (ins k s)) E
    (\<lambda>(new, s'). new = (k \<notin> elems s) \<and> inv s' \<and> elems s' = insert k (elems s))"
  using ins_ok [OF assms] by (auto intro: runs_expect)

lemma mem_after_ins:
  assumes "inv s" and "admissible k" and "ins k s = Some (new, s')"
  shows "mem s' j \<longleftrightarrow> j = k \<or> mem s j" and "new \<longleftrightarrow> \<not> mem s k"
  using ins_ok [OF assms(1,2)] assms(1,3) by (auto simp: mem_iff)

text \<open>A loop that inserts keys one by one.\<close>

lemma runs_ins_all:
  assumes "inv s" and "\<forall>k\<in>set ks. admissible k"
  shows "runs (for_each (\<lambda>k s. bind (expect e (ins k s)) (\<lambda>(new, s'). ok s')) ks s) E
    (\<lambda>s'. inv s' \<and> elems s' = elems s \<union> set ks)"
  by (rule runs_for_each [where I = "\<lambda>A s'. inv s' \<and> elems s' = elems s \<union> A"])
    (use assms in \<open>auto intro!: runs_bind [OF runs_ins] runs_ok\<close>)

end

definition store_ok :: "(RelationId \<Rightarrow> nat option) \<Rightarrow> RelationStore \<Rightarrow> bool" where
  "store_ok ar st \<longleftrightarrow> btm_wf (store_relations st) \<and>
     (\<forall>r d. map_of (store_relations st) r = Some d \<longrightarrow> (\<exists>n. ar r = Some n \<and> rel_ok n d))"

definition keys_of :: "RelationStore \<Rightarrow> FactKey set" where
  "keys_of st = {(r, t). \<exists>d. map_of (store_relations st) r = Some d \<and> t \<in> set (tuples d)}"

definition arity_ok :: "(RelationId \<Rightarrow> nat option) \<Rightarrow> FactKey \<Rightarrow> bool" where
  "arity_ok ar k \<longleftrightarrow> ar (fst k) = Some (length (snd k))"

lemma insert_key_ok:
  assumes st: "store_ok ar st" and k: "arity_ok ar k"
  shows "\<exists>st'. insert_key cfg k st = Some (k \<notin> keys_of st, st') \<and> store_ok ar st' \<and>
    keys_of st' = insert k (keys_of st) \<and> dom (map_of (store_relations st')) =
      insert (fst k) (dom (map_of (store_relations st))) \<and>
    store_bytes st' = projected_insert_bytes cfg st k"
proof -
  obtain r t where k_eq: "k = (r, t)" by (cases k)
  define d where "d = (case map_of (store_relations st) r of Some d \<Rightarrow> d | None \<Rightarrow> RelationData_new (length t))"
  have ar: "ar r = Some (length t)" using k by (simp add: arity_ok_def k_eq)
  then have "rel_ok (length t) d"
    using st by (cases "map_of (store_relations st) r") (fastforce simp: d_def store_ok_def rel_ok_new)+
  from RelationData_insert_ok [OF this] obtain d' where d': "RelationData_insert t d = Some (t \<notin> set (tuples d), d')"
    "rel_ok (length t) d'" "set (tuples d') = insert t (set (tuples d))" "t \<in> set (tuples d) \<longrightarrow> d' = d"
    by blast
  have mem: "k \<in> keys_of st \<longleftrightarrow> t \<in> set (tuples d)"
    by (auto simp: keys_of_def k_eq d_def RelationData_new_def split: option.splits)
  define st' where "st' = \<lparr>store_relations = btm_insert r d' (store_relations st),
    store_bytes = projected_insert_bytes cfg st k\<rparr>"
  have "insert_key cfg k st = Some (k \<notin> keys_of st, st')"
    using d'(1) mem unfolding insert_key_def k_eq prod.case Let_def d_def [symmetric]
    by (auto simp: st'_def projected_insert_bytes_def k_eq d_def RelationData_new_def split: option.splits bool.splits)
  moreover have "store_ok ar st'"
    using st d'(2) ar by (auto simp: store_ok_def st'_def btm_wf_insert)
  moreover have "keys_of st' = insert k (keys_of st)"
    using d'(3) by (auto simp: keys_of_def st'_def k_eq d_def RelationData_new_def split: option.splits if_splits)
  moreover have "dom (map_of (store_relations st')) = insert (fst k) (dom (map_of (store_relations st)))"
    by (auto simp: st'_def k_eq dom_def)
  ultimately show ?thesis by (auto simp: st'_def)
qed

lemma contains_key_iff [simp]: "contains_key st k \<longleftrightarrow> k \<in> keys_of st"
  by (auto simp: contains_key_def keys_of_def split: option.splits prod.splits)

interpretation store: key_set "store_ok ar" keys_of "arity_ok ar" "insert_key cfg" contains_key for ar cfg
proof unfold_locales
  fix st k
  assume "store_ok ar st" "arity_ok ar k"
  from insert_key_ok [OF this] show "\<exists>s'. insert_key cfg k st = Some (k \<notin> keys_of st, s') \<and> store_ok ar s' \<and>
      keys_of s' = insert k (keys_of st)" by blast
qed simp

interpretation btset: key_set bts_wf set "\<lambda>_. True" "\<lambda>k s. Some (k \<notin> set s, bts_insert k s)" "\<lambda>s k. k \<in> set s"
  by unfold_locales (auto simp: bts_wf_insert)

text \<open>The other queries of the store.\<close>

lemma store_ok_distinct: "store_ok ar st \<Longrightarrow> distinct (map fst (store_relations st))"
  by (simp add: store_ok_def btm_wf_distinct)

lemma store_ok_tuples: "store_ok ar st \<Longrightarrow> (r, d) \<in> set (store_relations st) \<Longrightarrow> distinct (tuples d)"
  by (auto simp: store_ok_def rel_ok_def strict_sorted_iff dest!: map_of_is_SomeI [OF btm_wf_distinct, rotated])

lemma set_store_keys: "store_ok ar st \<Longrightarrow> set (store_keys st) = keys_of st"
  by (auto simp: store_keys_def keys_of_def map_of_eq_Some_iff [OF store_ok_distinct])

lemma distinct_keyed_concat:
  "distinct (map fst m) \<Longrightarrow> (\<And>r d. (r, d) \<in> set m \<Longrightarrow> distinct (f d)) \<Longrightarrow>
   distinct (concat (map (\<lambda>(r, d). map (Pair r) (f d)) m))"
proof (induction m)
  case (Cons p m)
  obtain r d where p: "p = (r, d)" by (cases p)
  have "(r, t) \<notin> set (concat (map (\<lambda>(r, d). map (Pair r) (f d)) m))" for t
    using Cons.prems(1) by (auto simp: p image_iff)
  moreover have "distinct (concat (map (\<lambda>(r, d). map (Pair r) (f d)) m))"
    by (rule Cons.IH) (use Cons.prems in auto)
  moreover have "distinct (map (Pair r) (f d))"
    using Cons.prems(2) [of r d] by (simp add: p distinct_map inj_on_def)
  ultimately show ?case by (simp add: p) blast
qed simp

lemma distinct_store_keys: "store_ok ar st \<Longrightarrow> distinct (store_keys st)"
  unfolding store_keys_def
  by (rule distinct_keyed_concat) (auto dest: store_ok_distinct store_ok_tuples)

lemma length_store_keys: "length (store_keys st) = store_len st"
  by (simp add: store_keys_def store_len_def length_concat comp_def case_prod_unfold)

lemma store_len_card: "store_ok ar st \<Longrightarrow> store_len st = card (keys_of st)"
  using distinct_store_keys set_store_keys length_store_keys by (metis distinct_card)

lemma set_keys_for_relation: "set (keys_for_relation st r) = {k \<in> keys_of st. fst k = r}"
  by (cases "map_of (store_relations st) r") (auto simp: keys_for_relation_def keys_of_def)

lemma store_is_empty_iff: "store_ok ar st \<Longrightarrow> store_is_empty st \<longleftrightarrow> keys_of st = {}"
  by (auto simp: store_is_empty_def keys_of_def list_all_iff RelationData_is_empty_def
      map_of_eq_Some_iff [OF store_ok_distinct]) (metis ex_in_conv set_empty2)

lemma store_ok_arity: "store_ok ar st \<Longrightarrow> k \<in> keys_of st \<Longrightarrow> arity_ok ar k"
  by (auto simp: store_ok_def keys_of_def arity_ok_def rel_ok_def)

lemma store_ok_new:
  assumes "btm_wf arities" and "\<And>r n. map_of arities r = Some n \<Longrightarrow> ar r = Some n"
  shows "store_ok ar (RelationStore_new cfg arities)" and "keys_of (RelationStore_new cfg arities) = {}"
    and "dom (map_of (store_relations (RelationStore_new cfg arities))) = dom (map_of arities)"
proof -
  have *: "map_of (store_relations (RelationStore_new cfg arities)) r = map_option RelationData_new (map_of arities r)" for r
    unfolding RelationStore_new_def by (induction arities) auto
  then show "dom (map_of (store_relations (RelationStore_new cfg arities))) = dom (map_of arities)"
    by (auto simp: dom_def)
  show "keys_of (RelationStore_new cfg arities) = {}"
    unfolding keys_of_def * by (auto simp: RelationData_new_def)
  have "map fst (store_relations (RelationStore_new cfg arities)) = map fst arities"
    by (simp add: RelationStore_new_def case_prod_beta comp_def)
  then show "store_ok ar (RelationStore_new cfg arities)"
    using assms unfolding store_ok_def * by (auto simp: btm_wf_def rel_ok_new)
qed

section \<open>Properties\<close>

text \<open>
  C18. The index-driven scan is a filter: on a relation whose indexes are consistent with its tuples,
  \<open>matching\<close> returns exactly the tuples that agree with the constants and bound variables of the
  atom, in the order of the relation, and does not panic.
\<close>

theorem matching_is_filter:
  assumes "rel_ok (Atom_arity a) d" and "constants_of {a} \<subseteq> dom (map_of (ids I))"
  shows "matching d a b I = Some (filter (agrees I b a) (tuples d))"
  by (rule matching_eq_filter [OF assms])

definition demo_relation :: RelationData where
  "demo_relation = snd (the (RelationData_insert [0, 1] (snd (the (RelationData_insert [2, 1] (RelationData_new 2))))))"

theorem matching_is_filter_witness:
  "matching demo_relation (Atom_new ''e'' [PVariable ''x'', PVariable ''y'']) [(''y'', 1)] demo_interner = Some [[0, 1], [2, 1]] \<and>
   filter (agrees demo_interner [(''y'', 1)] (Atom_new ''e'' [PVariable ''x'', PVariable ''y''])) (tuples demo_relation) = [[0, 1], [2, 1]]"
proof -
  let ?a = "Atom_new ''e'' [PVariable ''x'', PVariable ''y'']"
  have ins: "rel_ok 2 (snd (the (RelationData_insert [p, q] d)))" if "rel_ok 2 d" for p q d
    using RelationData_insert_ok [of "[p, q]" d] that by (auto simp: numeral_2_eq_2)
  have "rel_ok 2 demo_relation" unfolding demo_relation_def by (intro ins rel_ok_new)
  then have h: "rel_ok (Atom_arity ?a) demo_relation" by (simp add: Atom_arity_def Atom_new_def numeral_2_eq_2)
  have c: "constants_of {?a} \<subseteq> dom (map_of (ids demo_interner))" by (simp add: constants_of_def Atom_new_def)
  have m: "matching demo_relation ?a [(''y'', 1)] demo_interner = Some [[0, 1], [2, 1]]" by code_simp
  with matching_is_filter [OF h c, of "[(''y'', 1)]"] show ?thesis by simp
qed

text \<open>
  Inserting a key keeps the store consistent: the indexes stay in step with the tuples, the flag
  says whether the key is new, and the byte count becomes the one projected before the insertion.
\<close>

lemma insert_key_invariant:
  assumes "store_ok ar st" and "ar (fst k) = Some (length (snd k))"
  shows "\<exists>st'. insert_key cfg k st = Some (\<not> contains_key st k, st') \<and> store_ok ar st' \<and>
    keys_of st' = insert k (keys_of st) \<and> store_bytes st' = projected_insert_bytes cfg st k"
  using insert_key_ok [OF assms(1), of k cfg] assms(2) by (auto simp: arity_ok_def)

lemma insert_key_invariant_example:
  "\<exists>st'. insert_key plain_config (''e'', [0, 1]) (RelationStore_new plain_config [(''e'', 2)]) = Some (True, st') \<and>
    keys_of st' = {(''e'', [0, 1])}"
proof -
  have st: "store_ok (map_of [(''e'', 2)]) (RelationStore_new plain_config [(''e'', 2)])"
    "keys_of (RelationStore_new plain_config [(''e'', 2)]) = {}"
    by (rule store_ok_new; simp add: btm_wf_def)+
  have ar: "map_of [(''e'', 2)] (fst (''e'', [0, 1 :: nat])) = Some (length (snd (''e'', [0, 1 :: nat])))" by simp
  from insert_key_invariant [OF st(1) ar, of plain_config] st(2) show ?thesis by auto
qed

text \<open>
  C19. A store is a set of keys: inserting keys of the right arities one by one into a new store never
  panics, and then the keys listed, counted and found are exactly those inserted, each once.
\<close>

theorem store_as_set:
  assumes "btm_wf arities" and "\<forall>k\<in>set ks. map_of arities (fst k) = Some (length (snd k))"
  shows "runs (for_each (\<lambda>k st. bind (expect Panic (insert_key cfg k st)) (\<lambda>(new, st'). ok st')) ks (RelationStore_new cfg arities))
    (\<lambda>e. False) (\<lambda>st. set (store_keys st) = set ks \<and> distinct (store_keys st) \<and> store_len st = card (set ks) \<and>
      (store_is_empty st \<longleftrightarrow> ks = []) \<and> (\<forall>k. contains_key st k \<longleftrightarrow> k \<in> set ks) \<and>
      (\<forall>r. set (keys_for_relation st r) = {k \<in> set ks. fst k = r}))"
proof -
  let ?ar = "map_of arities"
  have st: "store_ok ?ar (RelationStore_new cfg arities)" "keys_of (RelationStore_new cfg arities) = {}"
    using store_ok_new [OF assms(1), of ?ar cfg] by simp_all
  have "\<forall>k\<in>set ks. arity_ok ?ar k" using assms(2) by (simp add: arity_ok_def)
  note ins = store.runs_ins_all [OF st(1) this, of Panic cfg "\<lambda>e. False"]
  show ?thesis
  proof (rule runs_weaken [OF ins], assumption, elim conjE, goal_cases)
    case (1 st')
    note store = set_store_keys [OF 1(1)] distinct_store_keys [OF 1(1)] store_len_card [OF 1(1)] store_is_empty_iff [OF 1(1)]
    show ?case
      by (simp only: store 1(2) st(2) Un_empty_left
          set_keys_for_relation contains_key_iff set_empty simp_thms)
  qed
qed

theorem store_as_set_witness:
  "runs (for_each (\<lambda>k st. bind (expect Panic (insert_key plain_config k st)) (\<lambda>(new, st'). ok st'))
      [(''e'', [0, 1]), (''e'', [0, 1])] (RelationStore_new plain_config [(''e'', 2)]) :: (unit, failure, RelationStore) fallible)
    (\<lambda>e. False) (\<lambda>st. store_len st = 1)"
proof -
  have h: "btm_wf [(''e'', 2 :: nat)]" by (simp add: btm_wf_def)
  have a: "\<forall>k\<in>set [(''e'', [0, 1]), (''e'', [0, 1 :: nat])]. map_of [(''e'', 2)] (fst k) = Some (length (snd k))" by simp
  show ?thesis by (rule runs_weaken [OF store_as_set [OF h a]]) auto
qed

end
