(* ===== verification/Datalog_Provenance.thy ===== *)
theory Datalog_Provenance
  imports Datalog_Interner
begin

text \<open>Retained derivations (\<open>lib/oxdatalog/src/provenance.rs\<close>).\<close>

section \<open>Derivations\<close>

record Derivation =
  der_rule_id :: RuleId
  der_rule_source :: "string option"
  der_premises :: "Fact list"
  der_absent :: "Fact list"

definition new_with_absence :: "RuleId \<Rightarrow> string option \<Rightarrow> Fact list \<Rightarrow> Fact list \<Rightarrow> Derivation" where
  "new_with_absence rule source ps absent =
     \<lparr>der_rule_id = rule, der_rule_source = source, der_premises = sort_key Fact_canonical_key ps,
      der_absent = sort_key Fact_canonical_key absent\<rparr>"

definition Derivation_canonical_key :: "Derivation \<Rightarrow> string" where
  "Derivation_canonical_key d =
     der_rule_id d @ ''|'' @ (case der_rule_source d of Some src \<Rightarrow> src | None \<Rightarrow> [])
       @ concat (map (\<lambda>p. ''|'' @ Fact_canonical_key p) (der_premises d))
       @ concat (map (\<lambda>p. ''|!'' @ Fact_canonical_key p) (der_absent d))"

definition provenance_estimate_fact :: "Config \<Rightarrow> Fact \<Rightarrow> nat" where
  "provenance_estimate_fact cfg f =
     sat_add (sat_add 64 (length (fact_relation f)))
       (sat_sum 0 (map (\<lambda>v. sat_add (Value_estimated_bytes v) (size_Value (layout cfg))) (fact_values f)))"

definition Derivation_estimated_bytes :: "Config \<Rightarrow> Derivation \<Rightarrow> nat" where
  "Derivation_estimated_bytes cfg d =
     sat_add (sat_add (sat_add (sat_add (size_Derivation (layout cfg)) (length (der_rule_id d)))
       (case der_rule_source d of Some src \<Rightarrow> length src | None \<Rightarrow> 0))
       (sat_sum 0 (map (provenance_estimate_fact cfg) (der_premises d))))
       (sat_sum 0 (map (provenance_estimate_fact cfg) (der_absent d)))"

section \<open>Provenance\<close>

record Provenance =
  derivations :: "(Fact, Derivation) hash_map"
  provenance_bytes :: nat

definition Provenance_default :: Provenance where
  "Provenance_default = \<lparr>derivations = [], provenance_bytes = 0\<rparr>"

definition derivation_of :: "Provenance \<Rightarrow> Fact \<Rightarrow> Derivation option" where
  "derivation_of p f = map_of (derivations p) f"

definition Provenance_len :: "Provenance \<Rightarrow> nat" where
  "Provenance_len p = length (derivations p)"

definition Provenance_is_empty :: "Provenance \<Rightarrow> bool" where
  "Provenance_is_empty p \<longleftrightarrow> derivations p = []"

definition provenance_entry_bytes :: "Config \<Rightarrow> Fact \<Rightarrow> Derivation \<Rightarrow> nat" where
  "provenance_entry_bytes cfg f d =
     sat_add (sat_add (provenance_estimate_fact cfg f) (Derivation_estimated_bytes cfg d)) 64"

definition Provenance_projected_insert_bytes :: "Config \<Rightarrow> Provenance \<Rightarrow> Fact \<Rightarrow> Derivation \<Rightarrow> nat" where
  "Provenance_projected_insert_bytes cfg p f d =
     (let old = (case map_of (derivations p) f of Some old \<Rightarrow> provenance_entry_bytes cfg f old | None \<Rightarrow> 0)
      in sat_add (sat_sub (provenance_bytes p) old) (provenance_entry_bytes cfg f d))"

definition Provenance_insert :: "Config \<Rightarrow> Fact \<Rightarrow> Derivation \<Rightarrow> Provenance \<Rightarrow> Provenance" where
  "Provenance_insert cfg f d p =
     \<lparr>derivations = AList.update f d (derivations p),
      provenance_bytes = Provenance_projected_insert_bytes cfg p f d\<rparr>"

section \<open>Properties\<close>

lemma premises_new_with_absence [simp]:
  "mset (der_premises (new_with_absence r src ps as)) = mset ps"
  "mset (der_absent (new_with_absence r src ps as)) = mset as"
  "set (der_premises (new_with_absence r src ps as)) = set ps"
  "set (der_absent (new_with_absence r src ps as)) = set as"
  by (simp_all add: new_with_absence_def)

lemma derivation_of_insert:
  "derivation_of (Provenance_insert cfg f d p) g = (if g = f then Some d else derivation_of p g)"
  by (simp add: derivation_of_def Provenance_insert_def update_conv')

text \<open>The running estimate is the sum of the entries, as long as that sum is a \<open>usize\<close>.\<close>

definition provenance_total :: "Config \<Rightarrow> (Fact, Derivation) hash_map \<Rightarrow> nat" where
  "provenance_total cfg m = sum_list (map (\<lambda>(f, d). provenance_entry_bytes cfg f d) m)"

definition provenance_ok :: "Config \<Rightarrow> Provenance \<Rightarrow> bool" where
  "provenance_ok cfg p \<longleftrightarrow> distinct (map fst (derivations p)) \<and>
     (provenance_total cfg (derivations p) \<le> usize_max \<longrightarrow>
        provenance_bytes p = provenance_total cfg (derivations p))"

lemma provenance_total_update:
  assumes "distinct (map fst m)"
  shows "provenance_total cfg (AList.update f d m) +
    (case map_of m f of Some old \<Rightarrow> provenance_entry_bytes cfg f old | None \<Rightarrow> 0) =
    provenance_total cfg m + provenance_entry_bytes cfg f d"
  using assms by (induction m) (auto simp: provenance_total_def split: option.splits)

lemma provenance_ok_default: "provenance_ok cfg Provenance_default"
  by (simp add: provenance_ok_def Provenance_default_def provenance_total_def)

lemma provenance_ok_insert:
  assumes p: "provenance_ok cfg p" and small: "provenance_total cfg (derivations p) \<le> usize_max"
  shows "provenance_ok cfg (Provenance_insert cfg f d p)"
proof -
  let ?old = "case map_of (derivations p) f of Some old \<Rightarrow> provenance_entry_bytes cfg f old | None \<Rightarrow> 0"
  have distinct: "distinct (map fst (derivations p))"
    and total: "provenance_bytes p = provenance_total cfg (derivations p)"
    using p small by (auto simp: provenance_ok_def)
  note upd = provenance_total_update [OF distinct, of cfg f d]
  have "?old \<le> provenance_total cfg (derivations p)"
    by (force simp: provenance_total_def split: option.splits dest!: map_of_SomeD
        intro!: member_le_sum_list [of "provenance_entry_bytes cfg f _"])
  with upd total show ?thesis
    by (auto simp: provenance_ok_def Provenance_insert_def Provenance_projected_insert_bytes_def Let_def
        sat_sub_def sat_add_def distinct_update distinct)
qed

text \<open>
  C32. Provenance accounting: recording a derivation replaces the one the fact had, answers for the
  other facts as before, and keeps the byte count equal to the sum of the entries, while that sum is a
  \<open>usize\<close>; the projection made before the insertion is the count after it.
\<close>

theorem provenance_insert_correct:
  assumes "provenance_ok cfg p" and "provenance_total cfg (derivations p) \<le> usize_max"
  shows "provenance_ok cfg (Provenance_insert cfg f d p) \<and>
    derivation_of (Provenance_insert cfg f d p) = (derivation_of p)(f \<mapsto> d) \<and>
    provenance_bytes (Provenance_insert cfg f d p) = Provenance_projected_insert_bytes cfg p f d"
  using provenance_ok_insert [OF assms] derivation_of_insert [of cfg f d p]
  by (auto simp: Provenance_insert_def)

theorem provenance_insert_correct_witness:
  "provenance_ok plain_config (Provenance_insert plain_config (Fact_new ''p'' []) (new_with_absence ''r'' None [] []) Provenance_default)"
proof -
  have "provenance_total plain_config (derivations Provenance_default) \<le> usize_max"
    by (simp add: Provenance_default_def provenance_total_def)
  from provenance_insert_correct [OF provenance_ok_default this] show ?thesis by blast
qed

end
