(* ===== verification/Datalog_Rules.thy ===== *)
theory Datalog_Rules
  imports Datalog_Relations Datalog_Provenance
begin

text \<open>
  Rule evaluation (\<open>lib/oxdatalog/src/engine/rules.rs\<close>): candidates, joins, safe negation, head
  instantiation and the commit of new facts.
\<close>

section \<open>Candidates\<close>

record CandidateSet =
  entries :: "(FactKey, Derivation) btree_map"
  candidates_bytes :: nat

definition candidate_bytes :: "Config \<Rightarrow> FactKey \<Rightarrow> Derivation \<Rightarrow> nat" where
  "candidate_bytes cfg k d = sat_add (sat_add (fact_key_estimated_bytes k) (Derivation_estimated_bytes cfg d)) 64"

definition CandidateSet_new :: "Config \<Rightarrow> CandidateSet" where
  "CandidateSet_new cfg = \<lparr>entries = [], candidates_bytes = size_BTreeMap_candidates (layout cfg)\<rparr>"

definition CandidateSet_insert :: "Config \<Rightarrow> FactKey \<Rightarrow> Derivation \<Rightarrow> CandidateSet \<Rightarrow> CandidateSet engine" where
  "CandidateSet_insert cfg key d cs =
     (case map_of (entries cs) key of
        None \<Rightarrow>
          (if length (entries cs) \<ge> max_facts (cfg_limits cfg)
           then err (Failed (LimitExceeded Facts (max_facts (cfg_limits cfg))))
           else
             let projected = sat_add (candidates_bytes cs) (candidate_bytes cfg key d)
             in andthen (charge cfg (mem_candidates_update (\<lambda>_. projected)))
                  (ok \<lparr>entries = btm_insert key d (entries cs), candidates_bytes = projected\<rparr>))
      | Some old \<Rightarrow>
          (if Derivation_canonical_key d < Derivation_canonical_key old
           then
             let projected = sat_add (sat_sub (candidates_bytes cs) (candidate_bytes cfg key old))
                   (candidate_bytes cfg key d)
             in andthen (charge cfg (mem_candidates_update (\<lambda>_. projected)))
                  (ok \<lparr>entries = btm_insert key d (entries cs), candidates_bytes = projected\<rparr>)
           else ok cs))"

definition retain_new :: "Config \<Rightarrow> RelationStore \<Rightarrow> CandidateSet \<Rightarrow> CandidateSet engine" where
  "retain_new cfg all cs =
     andthen (check cfg)
     (let kept = filter (\<lambda>(k, d). \<not> contains_key all k) (entries cs);
          bytes = sat_sum (size_BTreeMap_candidates (layout cfg))
            (map (\<lambda>(k, d). candidate_bytes cfg k d) kept)
      in andthen (charge cfg (mem_candidates_update (\<lambda>_. bytes)))
           (ok \<lparr>entries = kept, candidates_bytes = bytes\<rparr>))"

section \<open>Instantiation\<close>

text \<open>\<open>bind\<close>: match the terms of an atom against a tuple, extending a binding.\<close>

fun bind_tuple :: "Interner \<Rightarrow> (PatternTerm \<times> TermId) list \<Rightarrow> binding \<Rightarrow> ('s, failure, binding option) fallible" where
  "bind_tuple I [] b = ok (Some b)"
| "bind_tuple I ((pattern, v) # rest) b =
     (case pattern of
        PConstant c \<Rightarrow> bind (Interner_id I c) (\<lambda>i. if i \<noteq> v then ok None else bind_tuple I rest b)
      | PVariable x \<Rightarrow>
          (case map_of b x of
             Some bound \<Rightarrow> if bound \<noteq> v then ok None else bind_tuple I rest (btm_insert x v b)
           | None \<Rightarrow> bind_tuple I rest (btm_insert x v b))
      | PGeneratedBlankNode _ \<Rightarrow> ok None)"

definition bind_atom :: "Interner \<Rightarrow> Atom \<Rightarrow> Tuple \<Rightarrow> binding \<Rightarrow> ('s, failure, binding option) fallible" where
  "bind_atom I atom t b = bind_tuple I (zip (terms atom) t) b"

text \<open>\<open>map(..).collect()\<close> into an optional tuple: the first \<open>None\<close> ends the collection.\<close>

fun ground_terms :: "Interner \<Rightarrow> binding \<Rightarrow> PatternTerm list \<Rightarrow> ('s, failure, Tuple option) fallible" where
  "ground_terms I b [] = ok (Some [])"
| "ground_terms I b (t # ts) =
     bind (case t of
         PConstant c \<Rightarrow> bind (Interner_id I c) (\<lambda>i. ok (Some i))
       | PVariable x \<Rightarrow> ok (map_of b x)
       | PGeneratedBlankNode _ \<Rightarrow> ok None)
     (\<lambda>v. case v of
         None \<Rightarrow> ok None
       | Some i \<Rightarrow> bind (ground_terms I b ts) (\<lambda>rest. ok (map_option (Cons i) rest)))"

definition instantiate_ground :: "Interner \<Rightarrow> Atom \<Rightarrow> binding \<Rightarrow> ('s, failure, Tuple option) fallible" where
  "instantiate_ground I atom b = ground_terms I b (terms atom)"

fun head_terms :: "Config \<Rightarrow> Rule \<Rightarrow> binding \<Rightarrow> PatternTerm list \<Rightarrow> Interner \<Rightarrow> (Tuple option \<times> Interner) engine" where
  "head_terms cfg rule b [] I = ok (Some [], I)"
| "head_terms cfg rule b (t # ts) I =
     bind (case t of
         PConstant c \<Rightarrow> bind (Interner_id I c) (\<lambda>i. ok (Some i, I))
       | PVariable x \<Rightarrow> ok (map_of b x, I)
       | PGeneratedBlankNode g \<Rightarrow>
           bind (generate_blank_node cfg (rule_id rule) g b I) (\<lambda>(i, I). ok (Some i, I)))
     (\<lambda>(v, I). case v of
         None \<Rightarrow> ok (None, I)
       | Some i \<Rightarrow> bind (head_terms cfg rule b ts I) (\<lambda>(rest, I). ok (map_option (Cons i) rest, I)))"

definition instantiate_head :: "Config \<Rightarrow> Rule \<Rightarrow> binding \<Rightarrow> Interner \<Rightarrow> (Tuple option \<times> Interner) engine" where
  "instantiate_head cfg rule b I = head_terms cfg rule b (terms (head rule)) I"

text \<open>The loop over the negated atoms, which returns \<open>None\<close> at the first one that does not hold.\<close>

fun absent_loop :: "Config \<Rightarrow> binding \<Rightarrow> RelationStore \<Rightarrow> Interner \<Rightarrow> Atom list \<Rightarrow> Fact list \<Rightarrow> (Fact list option) engine" where
  "absent_loop cfg b all I [] absent = ok (Some absent)"
| "absent_loop cfg b all I (atom # atoms) absent =
     andthen (check cfg)
     (bind (instantiate_ground I atom b) (\<lambda>tuple.
       case tuple of
         None \<Rightarrow> ok None
       | Some t \<Rightarrow>
           (let key = (relation atom, t)
            in if contains_key all key then ok None
               else bind (decode_fact I key) (\<lambda>f. absent_loop cfg b all I atoms (absent @ [f])))))"

definition ground_absent_premises :: "Config \<Rightarrow> Rule \<Rightarrow> binding \<Rightarrow> RelationStore \<Rightarrow> Interner \<Rightarrow> (Fact list option) engine" where
  "ground_absent_premises cfg rule b all I = absent_loop cfg b all I (negative_body rule) []"

section \<open>Joins\<close>

type_synonym JoinState = "binding \<times> FactKey list"

definition estimate_state :: "Config \<Rightarrow> binding \<Rightarrow> FactKey list \<Rightarrow> nat" where
  "estimate_state cfg b ps =
     sat_add
       (sat_sum (size_BTreeMap_binding (layout cfg)) (map (\<lambda>(x, i). sat_add (length x) 64) b))
       (sat_sum (size_Vec_FactKey (layout cfg)) (map fact_key_estimated_bytes ps))"

definition estimate_states :: "Config \<Rightarrow> JoinState list \<Rightarrow> nat" where
  "estimate_states cfg states =
     sat_sum (size_Vec_JoinState (layout cfg)) (map (\<lambda>(b, ps). estimate_state cfg b ps) states)"

text \<open>The body of the loop over the matching tuples.\<close>

definition join_tuple ::
  "Config \<Rightarrow> Atom \<Rightarrow> Interner \<Rightarrow> nat \<Rightarrow> JoinState \<Rightarrow> Tuple \<Rightarrow> JoinState list \<times> nat \<Rightarrow> (JoinState list \<times> nat) engine" where
  "join_tuple cfg atom I states_bytes state t acc = (case (state, acc) of ((b, ps), (next, next_bytes)) \<Rightarrow>
     andthen (check cfg)
     (bind (bind_atom I atom t b) (\<lambda>r.
       case r of
         None \<Rightarrow> ok (next, next_bytes)
       | Some b' \<Rightarrow>
           (let ps' = ps @ [(relation atom, t)];
                projected = sat_add next_bytes (estimate_state cfg b' ps')
            in andthen (charge cfg (mem_join_states_update (\<lambda>_. sat_add states_bytes projected)))
               (let next = next @ [(b', ps')]
                in if length next > max_intermediate_rows (cfg_limits cfg)
                   then err (Failed (LimitExceeded IntermediateRows (max_intermediate_rows (cfg_limits cfg))))
                   else ok (next, projected))))))"

text \<open>The body of the loop over the join states.\<close>

definition join_state ::
  "Config \<Rightarrow> Atom \<Rightarrow> RelationData \<Rightarrow> Interner \<Rightarrow> nat \<Rightarrow> JoinState \<Rightarrow> JoinState list \<times> nat \<Rightarrow> (JoinState list \<times> nat) engine" where
  "join_state cfg atom data I states_bytes state acc =
     andthen (check cfg)
     (bind (expect Panic (matching data atom (fst state) I)) (\<lambda>ts.
       for_each (join_tuple cfg atom I states_bytes state) ts acc))"

text \<open>The loop over the positive body; \<open>None\<close> when the rule returns early.\<close>

fun join_body ::
  "Config \<Rightarrow> RelationStore \<Rightarrow> RelationStore \<Rightarrow> nat option \<Rightarrow> Interner \<Rightarrow> (nat \<times> Atom) list \<Rightarrow>
   JoinState list \<times> nat \<Rightarrow> ((JoinState list \<times> nat) option) engine" where
  "join_body cfg all delta delta_position I [] acc = ok (Some acc)"
| "join_body cfg all delta delta_position I ((position, atom) # rest) (states, states_bytes) =
     (let store = (if Some position = delta_position then delta else all)
      in case store_relation store (relation atom) of
           None \<Rightarrow> andthen (charge cfg (mem_join_states_update (\<lambda>_. 0))) (ok None)
         | Some data \<Rightarrow>
             bind (for_each (join_state cfg atom data I states_bytes) states
                 ([], size_Vec_JoinState (layout cfg)))
             (\<lambda>(next, next_bytes).
               andthen (charge cfg (mem_join_states_update (\<lambda>_. next_bytes)))
               (if next = []
                then andthen (charge cfg (mem_join_states_update (\<lambda>_. 0))) (ok None)
                else join_body cfg all delta delta_position I rest (next, next_bytes))))"

text \<open>The loop that decodes the premises, and the body of the loop that derives the heads.\<close>

definition decode_premises :: "Config \<Rightarrow> Interner \<Rightarrow> nat \<Rightarrow> FactKey list \<Rightarrow> (Fact list) engine" where
  "decode_premises cfg I states_bytes ps =
     bind (for_each (\<lambda>p (decoded, decoded_bytes).
         andthen (check cfg)
         (bind (decode_fact I p) (\<lambda>f.
           let decoded_bytes = sat_add decoded_bytes (estimate_fact cfg f)
           in andthen (charge cfg (mem_join_states_update (\<lambda>_. sat_add states_bytes decoded_bytes)))
                (ok (decoded @ [f], decoded_bytes)))))
       ps ([], size_Vec_Fact (layout cfg)))
     (\<lambda>(decoded, _). ok decoded)"

definition derive_state ::
  "Config \<Rightarrow> Rule \<Rightarrow> RelationStore \<Rightarrow> nat \<Rightarrow> JoinState \<Rightarrow> Interner \<times> CandidateSet \<Rightarrow> (Interner \<times> CandidateSet) engine" where
  "derive_state cfg rule all states_bytes state acc = (case (state, acc) of ((b, ps), (I, candidates)) \<Rightarrow>
     andthen (check cfg)
     (bind (ground_absent_premises cfg rule b all I) (\<lambda>absent.
       case absent of
         None \<Rightarrow> ok (I, candidates)
       | Some absent_facts \<Rightarrow>
           bind (instantiate_head cfg rule b I) (\<lambda>(tuple, I).
             case tuple of
               None \<Rightarrow> ok (I, candidates)
             | Some t \<Rightarrow>
                 bind (decode_premises cfg I states_bytes ps) (\<lambda>decoded.
                 andthen (check cfg)
                 (let d = new_with_absence (rule_id rule) (rule_source rule) decoded absent_facts
                  in andthen (check cfg)
                     (bind (CandidateSet_insert cfg (relation (head rule), t) d candidates)
                       (\<lambda>candidates. ok (I, candidates)))))))))"

definition evaluate_rule_join ::
  "Config \<Rightarrow> Rule \<Rightarrow> nat option \<Rightarrow> RelationStore \<Rightarrow> RelationStore \<Rightarrow> Interner \<times> CandidateSet \<Rightarrow>
   (Interner \<times> CandidateSet) engine" where
  "evaluate_rule_join cfg rule delta_position all delta acc =
     (let states = [([], [])];
          states_bytes = estimate_states cfg states
      in andthen (charge cfg (mem_join_states_update (\<lambda>_. states_bytes)))
         (bind (join_body cfg all delta delta_position (fst acc) (List.enumerate 0 (positive_body rule))
             (states, states_bytes))
         (\<lambda>joined. case joined of
            None \<Rightarrow> ok acc
          | Some (states, states_bytes) \<Rightarrow>
              bind (for_each (derive_state cfg rule all states_bytes) states acc) (\<lambda>acc.
              andthen (charge cfg (mem_join_states_update (\<lambda>_. 0))) (ok acc)))))"

definition evaluate_rule ::
  "Config \<Rightarrow> Rule \<Rightarrow> nat \<Rightarrow> RelationStore \<Rightarrow> RelationStore \<Rightarrow> Interner \<times> CandidateSet \<Rightarrow>
   (Interner \<times> CandidateSet) engine" where
  "evaluate_rule cfg rule delta_position all delta acc =
     evaluate_rule_join cfg rule (Some delta_position) all delta acc"

definition evaluate_rule_once ::
  "Config \<Rightarrow> Rule \<Rightarrow> RelationStore \<Rightarrow> Interner \<times> CandidateSet \<Rightarrow> (Interner \<times> CandidateSet) engine" where
  "evaluate_rule_once cfg rule all acc = evaluate_rule_join cfg rule None all all acc"

section \<open>Commit\<close>

datatype DeltaTarget = Current | Next

type_synonym commit_state = "RelationStore \<times> RelationStore \<times> Provenance option"

definition delta_counter :: "DeltaTarget \<Rightarrow> nat \<Rightarrow> RuntimeMemory \<Rightarrow> RuntimeMemory" where
  "delta_counter target n = (case target of
     Current \<Rightarrow> mem_delta_update (\<lambda>_. n) | Next \<Rightarrow> mem_next_delta_update (\<lambda>_. n))"

text \<open>The body of the loop over the candidates.\<close>

definition commit_candidate ::
  "Config \<Rightarrow> DeltaTarget \<Rightarrow> Interner \<Rightarrow> FactKey \<times> Derivation \<Rightarrow> commit_state \<Rightarrow> commit_state engine" where
  "commit_candidate cfg target I candidate acc = (case (candidate, acc) of ((key, d), (all, delta, provenance)) \<Rightarrow>
     andthen (check cfg)
     (if contains_key all key then ok acc
      else if store_len all \<ge> max_facts (cfg_limits cfg)
      then err (Failed (LimitExceeded Facts (max_facts (cfg_limits cfg))))
      else
        andthen (set_memory (mem_all_update (\<lambda>_. projected_insert_bytes cfg all key)))
        (andthen (set_memory (delta_counter target (projected_insert_bytes cfg delta key)))
        (bind (case provenance of
            None \<Rightarrow> ok None
          | Some _ \<Rightarrow> bind (decode_fact I key) (\<lambda>f. ok (Some f)))
        (\<lambda>decoded.
          andthen (case (provenance, decoded) of
              (Some p, Some f) \<Rightarrow>
                set_memory (mem_provenance_update (\<lambda>_. Provenance_projected_insert_bytes cfg p f d))
            | _ \<Rightarrow> ok ())
          (andthen (observe cfg)
          (bind (expect Panic (insert_key cfg key all)) (\<lambda>(_, all).
           bind (expect Panic (insert_key cfg key delta)) (\<lambda>(_, delta).
           case (provenance, decoded) of
             (Some p, Some f) \<Rightarrow>
               (let p = Provenance_insert cfg f d p
                in andthen (set_memory (mem_provenance_update (\<lambda>_. provenance_bytes p)))
                     (ok (all, delta, Some p)))
           | _ \<Rightarrow> ok (all, delta, provenance))))))))))"

definition commit_candidates ::
  "Config \<Rightarrow> DeltaTarget \<Rightarrow> Interner \<Rightarrow> CandidateSet \<Rightarrow> commit_state \<Rightarrow> commit_state engine" where
  "commit_candidates cfg target I candidates acc =
     bind (for_each (commit_candidate cfg target I) (entries candidates) acc) (\<lambda>acc.
     andthen (charge cfg (mem_candidates_update (\<lambda>_. 0))) (ok acc))"

end
