(* ===== verification/Datalog_Engine.thy ===== *)
theory Datalog_Engine
  imports Datalog_Rules
begin

text \<open>
  The evaluation of strata (\<open>lib/oxdatalog/src/engine/strata.rs\<close>) and the entry points of the engine
  (\<open>lib/oxdatalog/src/engine.rs\<close>).
\<close>

section \<open>Strata\<close>

definition rules_in :: "ValidatedProgram \<Rightarrow> nat \<Rightarrow> Rule list" where
  "rules_in vp s = filter (\<lambda>r. vp_stratum vp (relation (head r)) = Some s) (vp_rules vp)"

definition initial_delta :: "Config \<Rightarrow> ValidatedProgram \<Rightarrow> nat \<Rightarrow> RelationStore \<Rightarrow> RelationStore engine" where
  "initial_delta cfg vp s all =
     (let delta = RelationStore_new cfg (vp_arities vp)
      in andthen (charge cfg (mem_delta_update (\<lambda>_. store_bytes delta)))
         (bind (for_each (\<lambda>r. for_each (\<lambda>key delta.
               andthen (check cfg)
               (andthen (charge cfg (mem_delta_update (\<lambda>_. projected_insert_bytes cfg delta key)))
               (bind (expect Panic (insert_key cfg key delta)) (\<lambda>(_, delta). ok delta))))
             (keys_for_relation all r))
           (filter (\<lambda>r. vp_stratum vp r = Some s) (relations (vp_dependencies vp))) delta)
         (\<lambda>delta. andthen (charge cfg (mem_delta_update (\<lambda>_. store_bytes delta))) (ok delta))))"

type_synonym stratum_state = "Interner \<times> RelationStore \<times> RelationStore \<times> Provenance option"

definition nonrecursive :: "ValidatedProgram \<Rightarrow> nat \<Rightarrow> Rule \<Rightarrow> bool" where
  "nonrecursive vp s r \<longleftrightarrow> list_all (\<lambda>a. vp_stratum vp (relation a) \<noteq> Some s) (positive_body r)"

definition evaluate_nonrecursive_rules ::
  "Config \<Rightarrow> ValidatedProgram \<Rightarrow> nat \<Rightarrow> stratum_state \<Rightarrow> stratum_state engine" where
  "evaluate_nonrecursive_rules cfg vp s st = (case st of (I, all, delta, provenance) \<Rightarrow>
     let candidates = CandidateSet_new cfg
     in andthen (charge cfg (mem_candidates_update (\<lambda>_. candidates_bytes candidates)))
        (bind (for_each (\<lambda>r. evaluate_rule_once cfg r all)
            (filter (nonrecursive vp s) (rules_in vp s)) (I, candidates)) (\<lambda>(I, candidates).
         bind (retain_new cfg all candidates) (\<lambda>candidates.
         bind (commit_candidates cfg Current I candidates (all, delta, provenance)) (\<lambda>(all, delta, provenance).
         andthen (set_memory (mem_all_update (\<lambda>_. store_bytes all)))
         (andthen (charge cfg (mem_delta_update (\<lambda>_. store_bytes delta)))
           (ok (I, all, delta, provenance))))))))"

text \<open>The loops over the rules of the stratum and over the positions of their bodies.\<close>

definition evaluate_delta_rule ::
  "Config \<Rightarrow> ValidatedProgram \<Rightarrow> nat \<Rightarrow> RelationStore \<Rightarrow> RelationStore \<Rightarrow> Rule \<Rightarrow> Interner \<times> CandidateSet \<Rightarrow>
   (Interner \<times> CandidateSet) engine" where
  "evaluate_delta_rule cfg vp s all delta r =
     for_each (\<lambda>(position, a) acc.
       if vp_stratum vp (relation a) \<noteq> Some s then ok acc
       else if (case store_relation delta (relation a) of None \<Rightarrow> True | Some d \<Rightarrow> RelationData_is_empty d)
       then ok acc
       else evaluate_rule cfg r position all delta acc) (List.enumerate 0 (positive_body r))"

type_synonym round_state = "stratum_state \<times> nat"

text \<open>The body of the \<open>while\<close> loop.\<close>

definition evaluate_round :: "Config \<Rightarrow> ValidatedProgram \<Rightarrow> nat \<Rightarrow> round_state \<Rightarrow> round_state engine" where
  "evaluate_round cfg vp s st = (case st of ((I, all, delta, provenance), iterations) \<Rightarrow>
     andthen (check cfg)
     (if iterations \<ge> max_iterations (cfg_limits cfg)
      then err (Failed (LimitExceeded Iterations (max_iterations (cfg_limits cfg))))
      else
        let candidates = CandidateSet_new cfg
        in andthen (charge cfg (mem_candidates_update (\<lambda>_. candidates_bytes candidates)))
           (bind (for_each (evaluate_delta_rule cfg vp s all delta) (rules_in vp s) (I, candidates))
           (\<lambda>(I, candidates).
             let next_delta = RelationStore_new cfg (vp_arities vp)
             in andthen (charge cfg (mem_next_delta_update (\<lambda>_. store_bytes next_delta)))
                (bind (retain_new cfg all candidates) (\<lambda>candidates.
                 bind (commit_candidates cfg Next I candidates (all, next_delta, provenance))
                 (\<lambda>(all, delta, provenance).
                   andthen (set_memory (mem_delta_update (\<lambda>_. store_bytes delta)))
                   (andthen (set_memory (mem_next_delta_update (\<lambda>_. 0)))
                   (andthen (charge cfg (mem_all_update (\<lambda>_. store_bytes all)))
                     (ok ((I, all, delta, provenance), iterations + 1)))))))))))"

text \<open>
  The body of the loop over the strata. The \<open>while\<close> loop is bounded by one pass more than the
  iterations left, after which its body reports the iteration limit.
\<close>

type_synonym strata_state = "Interner \<times> RelationStore \<times> Provenance option \<times> nat"

definition evaluate_stratum :: "Config \<Rightarrow> ValidatedProgram \<Rightarrow> nat \<Rightarrow> strata_state \<Rightarrow> strata_state engine" where
  "evaluate_stratum cfg vp s st = (case st of (I, all, provenance, iterations) \<Rightarrow>
     andthen (check cfg)
     (bind (initial_delta cfg vp s all) (\<lambda>delta.
      bind (evaluate_nonrecursive_rules cfg vp s (I, all, delta, provenance)) (\<lambda>st.
      bind (while_loop (Suc (max_iterations (cfg_limits cfg) - iterations)) Diverged
          (\<lambda>((I, all, delta, provenance), iterations). \<not> store_is_empty delta)
          (evaluate_round cfg vp s) (st, iterations))
      (\<lambda>((I, all, delta, provenance), iterations).
        andthen (charge cfg (mem_delta_update (\<lambda>_. 0)))
          (ok (I, all, provenance, iterations)))))))"

definition evaluate_strata ::
  "Config \<Rightarrow> ValidatedProgram \<Rightarrow> Interner \<times> RelationStore \<times> Provenance option \<Rightarrow> strata_state engine" where
  "evaluate_strata cfg vp st = (case st of (I, all, provenance) \<Rightarrow>
     for_each (evaluate_stratum cfg vp) [0..<Suc (vp_max_stratum vp)] (I, all, provenance, 0))"

section \<open>Input\<close>

text \<open>The loop that collects the caller's facts.\<close>

definition collect_input :: "Config \<Rightarrow> Fact list \<Rightarrow> (Fact list) engine" where
  "collect_input cfg fs =
     for_each (\<lambda>f input.
       andthen (check cfg)
       (if length input \<ge> max_facts (cfg_limits cfg)
        then err (Failed (LimitExceeded Facts (max_facts (cfg_limits cfg))))
        else andthen (charge cfg (mem_input_update (\<lambda>n. sat_add n (estimate_fact cfg f))))
          (ok (input @ [f])))) fs []"

definition validate_fact :: "Config \<Rightarrow> Fact \<Rightarrow> arity_map \<Rightarrow> arity_map engine" where
  "validate_fact cfg f arities =
     andthen (check cfg)
     (let previous = map_of arities (fact_relation f);
          arities = btm_insert (fact_relation f) (Fact_arity f) arities;
          check_values = for_each (\<lambda>v _.
            andthen (check cfg)
            (let actual = Value_estimated_bytes v
             in if actual > max_term_bytes (cfg_limits cfg)
                then err (Failed (InputTermLimit actual (max_term_bytes (cfg_limits cfg))))
                else ok ())) (fact_values f) ()
      in case previous of
           Some expected \<Rightarrow>
             (if expected \<noteq> Fact_arity f
              then err (Failed (InputArity (fact_relation f) expected (Fact_arity f)))
              else andthen check_values (ok arities))
         | None \<Rightarrow> andthen check_values (ok arities))"

definition validate_input :: "Config \<Rightarrow> ValidatedProgram \<Rightarrow> Fact list \<Rightarrow> unit engine" where
  "validate_input cfg vp input =
     bind (for_each (validate_fact cfg) input (vp_arities vp)) (\<lambda>_. ok ())"

definition load_fact ::
  "Config \<Rightarrow> Interner \<Rightarrow> Fact \<Rightarrow> FactKey btree_set \<times> RelationStore \<Rightarrow> (FactKey btree_set \<times> RelationStore) engine" where
  "load_fact cfg I f acc = (case acc of (base, all) \<Rightarrow>
     andthen (check cfg)
     (bind (encode_fact I f) (\<lambda>key.
      andthen
        (if key \<notin> set base
         then andthen (set_memory (mem_base_keys_update (\<lambda>n. sat_add n (fact_key_estimated_bytes key))))
           (charge cfg (mem_all_update (\<lambda>_. projected_insert_bytes cfg all key)))
         else ok ())
      (bind (expect Panic (insert_key cfg key all)) (\<lambda>(_, all).
        ok (bts_insert key base, all))))))"

section \<open>Output and entry points\<close>

record EvaluationResult =
  result_facts :: "Fact list"
  result_derived :: "Fact list"
  result_provenance :: "Provenance option"
  result_iterations :: nat
  result_elapsed :: nat
  result_peak :: nat

definition output_facts :: "Config \<Rightarrow> Interner \<Rightarrow> FactKey list \<Rightarrow> (Fact list) engine" where
  "output_facts cfg I ks =
     bind (for_each (\<lambda>key out.
         andthen (check cfg)
         (bind (decode_fact I key) (\<lambda>f.
          andthen (charge cfg (mem_output_update (\<lambda>n. sat_add n (estimate_fact cfg f))))
            (ok (out @ [f]))))) ks [])
     (\<lambda>out. andthen (check cfg)
       (let sorted = sort_key Fact_canonical_key out in andthen (check cfg) (ok sorted)))"

definition evaluate_validated_with_guard ::
  "Config \<Rightarrow> ValidatedProgram \<Rightarrow> Fact list \<Rightarrow> EvaluationResult engine" where
  "evaluate_validated_with_guard cfg vp fs =
     andthen (charge cfg (\<lambda>_. RuntimeMemory_default))
     (bind (collect_input cfg fs) (\<lambda>input.
      andthen (check cfg)
      (andthen (validate_input cfg vp input)
      (bind (Interner_new cfg vp input) (\<lambda>I.
       andthen (set_memory (mem_interner_update (\<lambda>_. interner_bytes I)))
       (let all = RelationStore_new cfg (vp_arities vp)
        in andthen (charge cfg (mem_all_update (\<lambda>_. store_bytes all)))
           (bind (for_each (load_fact cfg I) input ([], all)) (\<lambda>(base, all).
            andthen (charge cfg (mem_all_update (\<lambda>_. store_bytes all)))
            (let provenance = (if track_provenance (options cfg) then Some Provenance_default else None)
             in bind (evaluate_strata cfg vp (I, all, provenance)) (\<lambda>(I, all, provenance, iterations).
                andthen (charge cfg (mem_delta_update (\<lambda>_. 0)))
                (bind (output_facts cfg I (store_keys all)) (\<lambda>facts.
                 bind (output_facts cfg I (filter (\<lambda>k. k \<notin> set base) (store_keys all))) (\<lambda>derived.
                   (\<lambda>s. Inr (\<lparr>result_facts = facts, result_derived = derived,
                      result_provenance = provenance, result_iterations = iterations,
                      result_elapsed = elapsed_at cfg (reads s),
                      result_peak = peak_estimated_bytes s\<rparr>, s)))))))))))))))"

definition evaluate_validated :: "Config \<Rightarrow> ValidatedProgram \<Rightarrow> Fact list \<Rightarrow> failure + EvaluationResult" where
  "evaluate_validated cfg vp fs =
     (case andthen (check cfg) (evaluate_validated_with_guard cfg vp fs) (ExecutionGuard_new cfg) of
        Inl e \<Rightarrow> Inl e
      | Inr (result, _) \<Rightarrow> Inr result)"

definition validation_failure :: "failure ControlledValidationError \<Rightarrow> failure" where
  "validation_failure e = (case e of Validation v \<Rightarrow> Failed (ValidationFailed v) | Control c \<Rightarrow> c)"

definition evaluate :: "Config \<Rightarrow> ValidationLimits \<Rightarrow> Program \<Rightarrow> Fact list \<Rightarrow> failure + EvaluationResult" where
  "evaluate cfg vlimits program fs =
     (case andthen (check cfg)
         (bind (map_err validation_failure (validate_with_control (check cfg) program vlimits)) (\<lambda>vp.
           andthen (check cfg) (evaluate_validated_with_guard cfg vp fs))) (ExecutionGuard_new cfg) of
        Inl e \<Rightarrow> Inl e
      | Inr (result, _) \<Rightarrow> Inr result)"

end
