(* ===== verification/Datalog_Semantics.thy ===== *)
theory Datalog_Semantics
  imports Datalog_Interner
begin

text \<open>
  What a validated program means, independently of the engine: the iterated least model over its
  strata. Rule variables range over all values; a generated blank node is the value that a naming
  function \<open>sk\<close> gives to the generation key of its rule, generator and body bindings.
\<close>

section \<open>Rule instances\<close>

type_synonym valuation = "Variable \<Rightarrow> Value"
type_synonym naming = "string \<Rightarrow> Value"

definition node_key :: "Rule \<Rightarrow> BlankNodeGenerator \<Rightarrow> valuation \<Rightarrow> string" where
  "node_key r g \<nu> = gen_key (rule_id r) g (map (\<lambda>x. (x, \<nu> x)) (sorted_list_of_set (body_vars r)))"

definition term_value :: "naming \<Rightarrow> Rule \<Rightarrow> valuation \<Rightarrow> PatternTerm \<Rightarrow> Value" where
  "term_value sk r \<nu> t = (case t of
     PVariable x \<Rightarrow> \<nu> x | PConstant c \<Rightarrow> c | PGeneratedBlankNode g \<Rightarrow> sk (node_key r g \<nu>))"

definition ground :: "naming \<Rightarrow> Rule \<Rightarrow> valuation \<Rightarrow> Atom \<Rightarrow> Fact" where
  "ground sk r \<nu> a = Fact_new (relation a) (map (term_value sk r \<nu>) (terms a))"

text \<open>\<open>body_holds sk r \<nu> P N\<close>: the positive atoms hold in \<open>P\<close> and no negated atom holds in \<open>N\<close>.\<close>

definition body_holds :: "naming \<Rightarrow> Rule \<Rightarrow> valuation \<Rightarrow> Fact set \<Rightarrow> Fact set \<Rightarrow> bool" where
  "body_holds sk r \<nu> P N \<longleftrightarrow> ground sk r \<nu> ` set (positive_body r) \<subseteq> P \<and>
     ground sk r \<nu> ` set (negative_body r) \<inter> N = {}"

lemma relation_ground [simp]: "fact_relation (ground sk r \<nu> a) = relation a"
  by (simp add: ground_def Fact_new_def)

lemma finite_body_vars: "finite (body_vars r)"
proof -
  have "{v. PVariable v \<in> set (terms b)} \<subseteq> (\<lambda>t. case t of PVariable v \<Rightarrow> v | _ \<Rightarrow> []) ` set (terms b)" for b
    by force
  then have "finite (atom_vars b)" for b
    unfolding atom_vars_def by (rule finite_subset) simp
  then show ?thesis by (simp add: body_vars_def)
qed

lemma node_key_cong:
  assumes "\<And>x. x \<in> body_vars r \<Longrightarrow> \<nu> x = \<mu> x"
  shows "node_key r g \<nu> = node_key r g \<mu>"
proof -
  have "map (\<lambda>x. (x, \<nu> x)) (sorted_list_of_set (body_vars r)) = map (\<lambda>x. (x, \<mu> x)) (sorted_list_of_set (body_vars r))"
    using assms by (simp add: finite_body_vars)
  then show ?thesis by (simp only: node_key_def)
qed

lemma ground_cong:
  assumes "rule_safe r" and "\<And>x. x \<in> body_vars r \<Longrightarrow> \<nu> x = \<mu> x" and "a \<in> set (rule_atoms r)"
  shows "ground sk r \<nu> a = ground sk r \<mu> a"
proof -
  have key: "node_key r g \<nu> = node_key r g \<mu>" for g
    by (rule node_key_cong) (rule assms(2))
  have "atom_vars a \<subseteq> body_vars r"
    using assms(1,3) by (auto simp: rule_safe_def rule_atoms_def body_vars_def)
  then have "term_value sk r \<nu> t = term_value sk r \<mu> t" if "t \<in> set (terms a)" for t
    using that key assms(2) by (auto simp: term_value_def atom_vars_def split: PatternTerm.splits)
  then show ?thesis by (simp add: ground_def cong: map_cong)
qed

lemma ground_no_generators: "no_generators a \<Longrightarrow> ground sk r \<nu> a = ground sk' r' \<nu> a"
  by (auto simp: ground_def term_value_def no_generators_def Fact_new_def split: PatternTerm.splits)

lemma body_holds_cong:
  assumes "rule_safe r" and "\<And>x. x \<in> body_vars r \<Longrightarrow> \<nu> x = \<mu> x"
  shows "body_holds sk r \<nu> P N \<longleftrightarrow> body_holds sk r \<mu> P N"
proof -
  have "ground sk r \<nu> a = ground sk r \<mu> a" if "a \<in> set (positive_body r) \<union> set (negative_body r)" for a
    by (rule ground_cong) (use assms that in \<open>auto simp: rule_atoms_def\<close>)
  then show ?thesis by (auto simp: body_holds_def image_def)
qed

section \<open>The model of a stratum and of a program\<close>

inductive_set stratum_model :: "naming \<Rightarrow> Rule set \<Rightarrow> Fact set \<Rightarrow> Fact set"
  for sk :: naming and R :: "Rule set" and L :: "Fact set" where
  lower: "f \<in> L \<Longrightarrow> f \<in> stratum_model sk R L"
| derive: "r \<in> R \<Longrightarrow> (\<forall>a\<in>set (positive_body r). ground sk r \<nu> a \<in> stratum_model sk R L) \<Longrightarrow>
    ground sk r \<nu> ` set (negative_body r) \<inter> L = {} \<Longrightarrow> ground sk r \<nu> (head r) \<in> stratum_model sk R L"

primrec perfect_model :: "naming \<Rightarrow> (nat \<Rightarrow> Rule set) \<Rightarrow> Fact set \<Rightarrow> nat \<Rightarrow> Fact set" where
  "perfect_model sk R base 0 = stratum_model sk (R 0) base"
| "perfect_model sk R base (Suc n) = stratum_model sk (R (Suc n)) (perfect_model sk R base n)"

text \<open>The rules of a stratum of a validated program, and the model of the whole program.\<close>

definition rules_at :: "ValidatedProgram \<Rightarrow> nat \<Rightarrow> Rule set" where
  "rules_at vp s = {r \<in> set (vp_rules vp). vp_stratum vp (relation (head r)) = Some s}"

definition program_model :: "naming \<Rightarrow> ValidatedProgram \<Rightarrow> Fact set \<Rightarrow> Fact set" where
  "program_model sk vp base = perfect_model sk (rules_at vp) base (vp_max_stratum vp)"

lemma stratum_model_closed:
  "r \<in> R \<Longrightarrow> body_holds sk r \<nu> (stratum_model sk R L) L \<Longrightarrow> ground sk r \<nu> (head r) \<in> stratum_model sk R L"
  by (rule stratum_model.derive) (auto simp: body_holds_def)

text \<open>Facts that a stratum adds have the head relation of one of its rules.\<close>

lemma stratum_model_new:
  "f \<in> stratum_model sk R L \<Longrightarrow> f \<in> L \<or> (\<exists>r\<in>R. fact_relation f = relation (head r))"
  by (induction rule: stratum_model.induct) auto

section \<open>Semi-naive evaluation of one stratum\<close>

text \<open>
  The state of semi-naive evaluation: everything derived so far is in the model, and an instance
  whose body avoids the delta has been applied already.
\<close>

definition seminaive :: "naming \<Rightarrow> Rule set \<Rightarrow> Fact set \<Rightarrow> Fact set \<Rightarrow> Fact set \<Rightarrow> bool" where
  "seminaive sk R L A D \<longleftrightarrow> L \<subseteq> A \<and> A \<subseteq> stratum_model sk R L \<and> D \<subseteq> A \<and>
     (\<forall>r\<in>R. \<forall>\<nu>. body_holds sk r \<nu> A L \<longrightarrow> ground sk r \<nu> ` set (positive_body r) \<inter> D = {} \<longrightarrow>
        ground sk r \<nu> (head r) \<in> A)"

definition derivable :: "naming \<Rightarrow> Rule set \<Rightarrow> Fact set \<Rightarrow> Fact set \<Rightarrow> Fact set" where
  "derivable sk R P N = {ground sk r \<nu> (head r) | r \<nu>. r \<in> R \<and> body_holds sk r \<nu> P N}"

lemma derivable_subset_model: "A \<subseteq> stratum_model sk R L \<Longrightarrow> derivable sk R A L \<subseteq> stratum_model sk R L"
  by (auto simp: derivable_def body_holds_def intro!: stratum_model.derive)

lemma seminaive_start:
  assumes new: "N \<subseteq> derivable sk R L L"
    and complete: "\<And>r \<nu>. r \<in> R \<Longrightarrow> (\<forall>a\<in>set (positive_body r). relation a \<notin> S) \<Longrightarrow> body_holds sk r \<nu> L L \<Longrightarrow>
      ground sk r \<nu> (head r) \<in> L \<union> N"
  shows "seminaive sk R L (L \<union> N) ({f \<in> L. fact_relation f \<in> S} \<union> (N - L))"
proof -
  have "L \<subseteq> stratum_model sk R L" by (auto intro: stratum_model.lower)
  then have "L \<union> N \<subseteq> stratum_model sk R L" using new derivable_subset_model by blast
  moreover have "ground sk r \<nu> (head r) \<in> L \<union> N"
    if "r \<in> R" and b: "body_holds sk r \<nu> (L \<union> N) L"
      and d: "ground sk r \<nu> ` set (positive_body r) \<inter> ({f \<in> L. fact_relation f \<in> S} \<union> (N - L)) = {}" for r \<nu>
  proof (rule complete [OF \<open>r \<in> R\<close>])
    show "body_holds sk r \<nu> L L" using b d by (auto simp: body_holds_def)
    then show "\<forall>a\<in>set (positive_body r). relation a \<notin> S" using d by (fastforce simp: body_holds_def)
  qed
  ultimately show ?thesis by (auto simp: seminaive_def)
qed

lemma seminaive_round:
  assumes inv: "seminaive sk R L A D" and new: "N \<subseteq> derivable sk R A L"
    and complete: "\<And>r \<nu>. r \<in> R \<Longrightarrow> body_holds sk r \<nu> A L \<Longrightarrow>
      ground sk r \<nu> ` set (positive_body r) \<inter> D \<noteq> {} \<Longrightarrow> ground sk r \<nu> (head r) \<in> A \<union> N"
  shows "seminaive sk R L (A \<union> N) (N - A)"
proof -
  have "A \<union> N \<subseteq> stratum_model sk R L"
    using inv new derivable_subset_model [of A sk R L] unfolding seminaive_def by blast
  moreover have "ground sk r \<nu> (head r) \<in> A \<union> N"
    if "r \<in> R" and "body_holds sk r \<nu> (A \<union> N) L" and "ground sk r \<nu> ` set (positive_body r) \<inter> (N - A) = {}" for r \<nu>
  proof -
    have b: "body_holds sk r \<nu> A L" using that by (auto simp: body_holds_def)
    show ?thesis
    proof (cases "ground sk r \<nu> ` set (positive_body r) \<inter> D = {}")
      case True
      with inv b \<open>r \<in> R\<close> show ?thesis by (auto simp: seminaive_def)
    next
      case False
      with complete b \<open>r \<in> R\<close> show ?thesis by blast
    qed
  qed
  ultimately show ?thesis using inv by (auto simp: seminaive_def)
qed

text \<open>With an empty delta the stratum is complete.\<close>

lemma seminaive_done:
  assumes "seminaive sk R L A {}"
  shows "A = stratum_model sk R L"
proof
  show "stratum_model sk R L \<subseteq> A"
  proof
    fix f
    assume "f \<in> stratum_model sk R L"
    then show "f \<in> A"
    proof induction
      case (derive r \<nu>)
      then have "body_holds sk r \<nu> A L" by (auto simp: body_holds_def)
      with assms derive(1) show ?case by (simp add: seminaive_def)
    qed (use assms in \<open>auto simp: seminaive_def\<close>)
  qed
qed (use assms in \<open>simp add: seminaive_def\<close>)

section \<open>The program model is a supported model\<close>

lemma perfect_model_mono: "n \<le> m \<Longrightarrow> perfect_model sk R base n \<subseteq> perfect_model sk R base m"
  by (induction m) (auto simp: le_Suc_eq intro: stratum_model.lower)

lemma perfect_model_base: "base \<subseteq> perfect_model sk R base n"
  using perfect_model_mono [of 0 n sk R base] by (auto intro: stratum_model.lower)

text \<open>A stratum is final once computed: later strata add facts of later relations only.\<close>

lemma perfect_model_final:
  assumes lvl: "\<And>s r. r \<in> R s \<Longrightarrow> lv (relation (head r)) = s"
    and "f \<in> perfect_model sk R base m" and "n \<le> m" and "lv (fact_relation f) \<le> n"
  shows "f \<in> perfect_model sk R base n"
  using assms(2,3)
proof (induction m)
  case (Suc m)
  show ?case
  proof (cases "n = Suc m")
    case False
    then have "n \<le> m" using Suc.prems by simp
    have "f \<in> perfect_model sk R base m"
      using stratum_model_new [of f sk "R (Suc m)" "perfect_model sk R base m"] Suc.prems(1) assms(4) lvl \<open>n \<le> m\<close>
      by fastforce
    with Suc.IH \<open>n \<le> m\<close> show ?thesis by simp
  qed (use Suc.prems in simp)
qed simp

lemma perfect_model_supported:
  assumes "f \<in> perfect_model sk R base n"
  shows "f \<in> base \<or> (\<exists>s\<le>n. \<exists>r\<in>R s. \<exists>\<nu>. f = ground sk r \<nu> (head r) \<and>
    body_holds sk r \<nu> (perfect_model sk R base s) (if s = 0 then base else perfect_model sk R base (s - 1)))"
  using assms
proof (induction n)
  case 0
  then have "f \<in> stratum_model sk (R 0) base" by simp
  then show ?case
  proof cases
    case (derive r \<nu>)
    then have "body_holds sk r \<nu> (perfect_model sk R base 0) base" by (auto simp: body_holds_def)
    with derive show ?thesis by auto
  qed simp
next
  case (Suc n)
  from Suc.prems have "f \<in> stratum_model sk (R (Suc n)) (perfect_model sk R base n)" by simp
  then show ?case
  proof cases
    case lower
    with Suc.IH show ?thesis by (meson le_SucI)
  next
    case (derive r \<nu>)
    then have "body_holds sk r \<nu> (perfect_model sk R base (Suc n)) (perfect_model sk R base n)"
      by (auto simp: body_holds_def)
    with derive show ?thesis by (intro disjI2 exI [of _ "Suc n"]) auto
  qed
qed

text \<open>
  The levels of a stratified program: a positive premise is known at the level of the head, a
  negated one strictly below.
\<close>

definition levels_ok :: "(RelationId \<Rightarrow> nat) \<Rightarrow> (nat \<Rightarrow> Rule set) \<Rightarrow> bool" where
  "levels_ok lv R \<longleftrightarrow> (\<forall>s. \<forall>r\<in>R s. lv (relation (head r)) = s \<and> rule_stratified lv r)"

lemma body_holds_final:
  assumes lv: "levels_ok lv R" and r: "r \<in> R s" and "s \<le> n"
  shows "body_holds sk r \<nu> (perfect_model sk R base n) (perfect_model sk R base n) \<Longrightarrow>
      body_holds sk r \<nu> (perfect_model sk R base s) (if s = 0 then base else perfect_model sk R base (s - 1))"
    and "body_holds sk r \<nu> (perfect_model sk R base s) (if s = 0 then base else perfect_model sk R base (s - 1)) \<Longrightarrow>
      body_holds sk r \<nu> (perfect_model sk R base n) (perfect_model sk R base n)"
proof -
  let ?M = "perfect_model sk R base"
  have head: "lv (relation (head r)) = s" and strat: "rule_stratified lv r"
    and lvl: "\<And>s r. r \<in> R s \<Longrightarrow> lv (relation (head r)) = s"
    using lv r by (auto simp: levels_ok_def)
  have low: "(if s = 0 then base else ?M (s - 1)) \<subseteq> ?M n"
    using perfect_model_base [of base] perfect_model_mono [of "s - 1" n] \<open>s \<le> n\<close> by auto
  note fin = perfect_model_final [where R = R and lv = lv and sk = sk and base = base and m = n, OF lvl]
  show "body_holds sk r \<nu> (?M s) (if s = 0 then base else ?M (s - 1))" if h: "body_holds sk r \<nu> (?M n) (?M n)"
  proof -
    have "ground sk r \<nu> a \<in> ?M s" if "a \<in> set (positive_body r)" for a
      using fin [of "ground sk r \<nu> a" s] h strat head that \<open>s \<le> n\<close>
      by (auto simp: body_holds_def rule_stratified_def)
    with h low show ?thesis unfolding body_holds_def by blast
  qed
  show "body_holds sk r \<nu> (?M n) (?M n)" if h: "body_holds sk r \<nu> (?M s) (if s = 0 then base else ?M (s - 1))"
  proof -
    have "ground sk r \<nu> a \<notin> ?M n" if a: "a \<in> set (negative_body r)" for a
    proof
      assume m: "ground sk r \<nu> a \<in> ?M n"
      have less: "lv (relation a) < s" using strat head a by (auto simp: rule_stratified_def)
      then have "ground sk r \<nu> a \<in> ?M (s - 1)"
        using fin [of "ground sk r \<nu> a" "s - 1"] m \<open>s \<le> n\<close> by simp
      with h a less show False by (auto simp: body_holds_def)
    qed
    with h perfect_model_mono [OF \<open>s \<le> n\<close>, of sk R base] show ?thesis unfolding body_holds_def by blast
  qed
qed

text \<open>
  The iterated model satisfies every rule, negation read in the final model, and contains nothing
  without support.
\<close>

lemma perfect_model_closed:
  assumes lv: "levels_ok lv R" and r: "r \<in> R s" "s \<le> n"
    and h: "body_holds sk r \<nu> (perfect_model sk R base n) (perfect_model sk R base n)"
  shows "ground sk r \<nu> (head r) \<in> perfect_model sk R base n"
proof -
  have "ground sk r \<nu> (head r) \<in> perfect_model sk R base s"
    using body_holds_final(1) [OF lv r h] r(1) by (cases s) (auto intro: stratum_model_closed)
  then show ?thesis using perfect_model_mono [OF r(2)] by blast
qed

lemma perfect_model_founded:
  assumes lv: "levels_ok lv R" and f: "f \<in> perfect_model sk R base n"
  shows "f \<in> base \<or> (\<exists>s\<le>n. \<exists>r\<in>R s. \<exists>\<nu>. f = ground sk r \<nu> (head r) \<and>
    body_holds sk r \<nu> (perfect_model sk R base n) (perfect_model sk R base n))"
  using perfect_model_supported [OF f] body_holds_final(2) [OF lv] by meson

end
