(* ===== verification/Datalog_Join.thy ===== *)
theory Datalog_Join
  imports Datalog_Rules Datalog_Semantics
begin

text \<open>
  Correctness of rule evaluation: the join states of a rule are the bindings under which its
  positive body holds, and the candidates are the heads of the instances whose negated atoms are
  absent, each with a valid derivation.
\<close>

section \<open>Bindings\<close>

definition binding_ok :: "Interner \<Rightarrow> binding \<Rightarrow> bool" where
  "binding_ok I b \<longleftrightarrow> btm_wf b \<and> (\<forall>x i. map_of b x = Some i \<longrightarrow> canonical I i)"

text \<open>The number of a term under a binding, and the key of an atom.\<close>

definition inst :: "Interner \<Rightarrow> binding \<Rightarrow> PatternTerm \<Rightarrow> TermId" where
  "inst I b t = (case t of PConstant c \<Rightarrow> the (map_of (ids I) c) | PVariable x \<Rightarrow> the (map_of b x)
     | PGeneratedBlankNode _ \<Rightarrow> 0)"

definition ground_key :: "Interner \<Rightarrow> binding \<Rightarrow> Atom \<Rightarrow> FactKey" where
  "ground_key I b a = (relation a, map (inst I b) (terms a))"

definition val_of :: "Interner \<Rightarrow> binding \<Rightarrow> valuation" where
  "val_of I b x = interned I ! the (map_of b x)"

text \<open>An atom whose constants are interned and which has no generators.\<close>

definition known :: "Interner \<Rightarrow> Atom \<Rightarrow> bool" where
  "known I a \<longleftrightarrow> constants_of {a} \<subseteq> dom (map_of (ids I)) \<and> no_generators a"

lemma knownD:
  assumes "known I a" and "t \<in> set (terms a)"
  shows "(\<exists>c i. t = PConstant c \<and> map_of (ids I) c = Some i) \<or> (\<exists>x. t = PVariable x \<and> x \<in> atom_vars a)"
  using assms by (cases t) (auto simp: known_def constants_of_def no_generators_def atom_vars_def)

lemma binding_ok_mono: "interner_le I J \<Longrightarrow> binding_ok I b \<Longrightarrow> binding_ok J b"
  by (auto simp: binding_ok_def intro: canonical_mono)

lemma known_mono:
  assumes "interner_le I J" and "known I a"
  shows "known J a"
proof -
  have "dom (map_of (ids I)) \<subseteq> dom (map_of (ids J))"
    using assms(1) by (auto simp: interner_le_def dest: map_le_implies_dom_le)
  with assms(2) show ?thesis unfolding known_def by blast
qed

lemma ground_key_mono:
  assumes le: "interner_le I J" and k: "known I a"
  shows "ground_key J b a = ground_key I b a"
proof -
  have "inst J b t = inst I b t" if "t \<in> set (terms a)" for t
    using knownD [OF k that] interner_le_ids [OF le] by (auto simp: inst_def)
  then show ?thesis by (simp add: ground_key_def)
qed

lemma ground_key_extend:
  assumes "atom_vars a \<subseteq> dom (map_of b)" and "map_of b \<subseteq>\<^sub>m map_of b'"
  shows "ground_key I b' a = ground_key I b a"
proof -
  have "inst I b' t = inst I b t" if t: "t \<in> set (terms a)" for t
  proof (cases t)
    case (PVariable x)
    with assms t have "x \<in> dom (map_of b)" by (auto simp: atom_vars_def)
    with assms(2) PVariable show ?thesis by (auto simp: inst_def map_le_def)
  qed (simp_all add: inst_def)
  then show ?thesis by (simp add: ground_key_def)
qed

text \<open>The key of an atom decodes to the atom's instance under the decoded binding.\<close>

lemma ground_key_fact:
  assumes I: "interner_ok I" and b: "binding_ok I b" and k: "known I a" and v: "atom_vars a \<subseteq> dom (map_of b)"
  shows "key_ok I (ground_key I b a)" and "fact_of I (ground_key I b a) = ground sk r (val_of I b) a"
proof -
  have *: "canonical I (inst I b t) \<and> interned I ! inst I b t = term_value sk r (val_of I b) t"
    if t: "t \<in> set (terms a)" for t
  proof -
    from knownD [OF k t] show ?thesis
    proof (elim disjE exE conjE)
      fix c i
      assume "t = PConstant c" "map_of (ids I) c = Some i"
      with interner_ok_id [OF I] show ?thesis by (auto simp: inst_def term_value_def)
    next
      fix x
      assume x: "t = PVariable x" "x \<in> atom_vars a"
      with v obtain i where "map_of b x = Some i" by auto
      with b x show ?thesis by (auto simp: binding_ok_def inst_def term_value_def val_of_def)
    qed
  qed
  then show "key_ok I (ground_key I b a)" by (simp add: key_ok_def ground_key_def list_all_iff)
  have "map (\<lambda>i. interned I ! i) (map (inst I b) (terms a)) = map (term_value sk r (val_of I b)) (terms a)"
    using * by simp
  then show "fact_of I (ground_key I b a) = ground sk r (val_of I b) a"
    by (simp only: fact_of_def ground_def ground_key_def fst_conv snd_conv)
qed

lemma val_of_mono: "interner_le I J \<Longrightarrow> binding_ok I b \<Longrightarrow> x \<in> dom (map_of b) \<Longrightarrow> val_of J b x = val_of I b x"
  by (auto simp: val_of_def binding_ok_def canonical_def interner_le_nth)

section \<open>Matching an atom\<close>

text \<open>
  \<open>bind\<close> computes the least extension of the binding that maps the atom to the tuple, or fails
  where there is none.
\<close>

definition extends :: "Interner \<Rightarrow> PatternTerm list \<Rightarrow> Tuple \<Rightarrow> binding \<Rightarrow> binding \<Rightarrow> bool" where
  "extends I ts t b b' \<longleftrightarrow> map_of b \<subseteq>\<^sub>m map_of b' \<and> {x. PVariable x \<in> set ts} \<subseteq> dom (map_of b') \<and>
     map (inst I b') ts = t"

lemma runs_bind_tuple:
  assumes "\<forall>t\<in>set ts. (\<exists>c i. t = PConstant c \<and> map_of (ids I) c = Some i) \<or> (\<exists>x. t = PVariable x)"
    and "length ts = length t" and "btm_wf b"
  shows "runs (bind_tuple I (zip ts t) b :: ('s, failure, binding option) fallible) E (\<lambda>r. case r of
     None \<Rightarrow> \<nexists>b'. extends I ts t b b'
   | Some b' \<Rightarrow> btm_wf b' \<and> extends I ts t b b' \<and>
       dom (map_of b') = dom (map_of b) \<union> {x. PVariable x \<in> set ts} \<and>
       (\<forall>x i. map_of b' x = Some i \<longrightarrow> map_of b x = Some i \<or> i \<in> set t))"
  using assms(2,1,3)
proof (induction ts t arbitrary: b rule: list_induct2)
  case Nil
  then show ?case by (auto simp: extends_def intro: runs_ok)
next
  case (Cons p ts v t)
  from Cons.prems(1) consider c i where "p = PConstant c" "map_of (ids I) c = Some i" | x where "p = PVariable x"
    by auto
  then show ?case
  proof cases
    case 1
    have step: "extends I (p # ts) (v # t) b b' \<longleftrightarrow> i = v \<and> extends I ts t b b'" for b'
      using 1 by (auto simp: extends_def inst_def)
    have "runs (if i \<noteq> v then ok None else bind_tuple I (zip ts t) b :: ('s, failure, binding option) fallible) E (\<lambda>r. case r of
       None \<Rightarrow> \<nexists>b'. extends I (p # ts) (v # t) b b'
     | Some b' \<Rightarrow> btm_wf b' \<and> extends I (p # ts) (v # t) b b' \<and>
         dom (map_of b') = dom (map_of b) \<union> {x. PVariable x \<in> set (p # ts)} \<and>
         (\<forall>x i. map_of b' x = Some i \<longrightarrow> map_of b x = Some i \<or> i \<in> set (v # t)))"
      unfolding step
    proof (rule runs_if, goal_cases)
      case 2
      show ?case
        by (rule runs_weaken [OF Cons.IH])
          (use 1 2 Cons.prems in \<open>auto split: option.splits\<close>)
    qed (auto intro: runs_ok)
    with 1 show ?thesis by (auto intro!: runs_bind [OF runs_Interner_id])
  next
    case 2
    let ?b = "btm_insert x v b"
    have step: "extends I (p # ts) (v # t) b b' \<longleftrightarrow> extends I ts t ?b b'"
      if "map_of b x = None \<or> map_of b x = Some v" for b'
    proof -
      have "map_of ?b \<subseteq>\<^sub>m map_of b' \<longleftrightarrow> map_of b \<subseteq>\<^sub>m map_of b' \<and> map_of b' x = Some v"
        using that by (auto simp: map_le_def split: if_splits)
      then show ?thesis using 2 by (auto simp: extends_def inst_def)
    qed
    have rest: "runs (bind_tuple I (zip ts t) ?b :: ('s, failure, binding option) fallible) E (\<lambda>r. case r of
       None \<Rightarrow> \<nexists>b'. extends I (p # ts) (v # t) b b'
     | Some b' \<Rightarrow> btm_wf b' \<and> extends I (p # ts) (v # t) b b' \<and>
         dom (map_of b') = dom (map_of b) \<union> {x. PVariable x \<in> set (p # ts)} \<and>
         (\<forall>x i. map_of b' x = Some i \<longrightarrow> map_of b x = Some i \<or> i \<in> set (v # t)))"
      if *: "map_of b x = None \<or> map_of b x = Some v"
      unfolding step [OF *]
      by (rule runs_weaken [OF Cons.IH])
        (use 2 Cons.prems in \<open>auto simp: btm_wf_insert split: option.splits if_splits\<close>)
    show ?thesis
    proof (cases "map_of b x")
      case None
      show ?thesis
        unfolding 2 zip_Cons_Cons bind_tuple.simps PatternTerm.case None option.case
        by (rule rest [unfolded 2]) (simp add: None)
    next
      case (Some w)
      show ?thesis
      proof (cases "w = v")
        case True
        show ?thesis
          unfolding 2 zip_Cons_Cons bind_tuple.simps PatternTerm.case Some option.case True
          by (simp only: simp_thms if_False) (rule rest [unfolded 2], simp add: Some True)
      next
        case False
        have "\<not> extends I (p # ts) (v # t) b b'" for b'
          using False Some 2 by (force simp: extends_def inst_def map_le_def)
        with False Some 2 show ?thesis by (simp add: runs_ok)
      qed
    qed
  qed
qed

lemma runs_bind_atom:
  assumes "known I a" and "length t = Atom_arity a" and "btm_wf b"
  shows "runs (bind_atom I a t b) E (\<lambda>r. case r of
     None \<Rightarrow> \<nexists>b'. extends I (terms a) t b b'
   | Some b' \<Rightarrow> btm_wf b' \<and> extends I (terms a) t b b' \<and>
       dom (map_of b') = dom (map_of b) \<union> atom_vars a \<and>
       (\<forall>x i. map_of b' x = Some i \<longrightarrow> map_of b x = Some i \<or> i \<in> set t))"
  unfolding bind_atom_def atom_vars_def
  by (rule runs_bind_tuple) (use assms knownD [OF assms(1)] in \<open>auto simp: Atom_arity_def\<close>)

lemma extends_unique:
  assumes "extends I ts t b b'" and "extends I ts t b b''" and "btm_wf b'" and "btm_wf b''"
    and "dom (map_of b') = dom (map_of b) \<union> {x. PVariable x \<in> set ts}" and "dom (map_of b'') = dom (map_of b')"
  shows "b' = b''"
proof (rule btm_wf_unique [OF assms(3,4)], rule ext)
  fix x
  consider "x \<notin> dom (map_of b')" | "x \<in> dom (map_of b)" | "PVariable x \<in> set ts" using assms(5) by blast
  then show "map_of b' x = map_of b'' x"
  proof cases
    case 1
    moreover from 1 have "x \<notin> dom (map_of b'')" using assms(6) by simp
    ultimately show ?thesis by (simp add: domIff)
  next
    case 2
    with assms(1,2) show ?thesis by (auto simp: extends_def map_le_def dom_def)
  next
    case 3
    then have x: "x \<in> dom (map_of b')" using assms(5) by simp
    moreover from x have "x \<in> dom (map_of b'')" using assms(6) by simp
    moreover have "map (inst I b') ts = map (inst I b'') ts" using assms(1,2) by (simp add: extends_def)
    with 3 have "inst I b' (PVariable x) = inst I b'' (PVariable x)" by (simp add: map_eq_conv)
    ultimately show ?thesis by (auto simp: inst_def)
  qed
qed

lemma extends_agrees: "extends I (terms a) t b b' \<Longrightarrow> agrees I b a t"
proof -
  assume e: "extends I (terms a) t b b'"
  have "t ! p = i" if p: "p < Atom_arity a" and d: "demanded I b (terms a ! p) = Some i" for p i
  proof -
    have "t ! p = inst I b' (terms a ! p)" using e p by (auto simp: extends_def Atom_arity_def)
    also have "\<dots> = i"
      using d e by (force simp: demanded_def inst_def extends_def map_le_def split: PatternTerm.splits)
    finally show ?thesis .
  qed
  then show ?thesis by (simp add: agrees_def)
qed

section \<open>The join\<close>

text \<open>One step of the join: the extensions of a state by the tuples of a relation.\<close>

definition extensions :: "Interner \<Rightarrow> Atom \<Rightarrow> Tuple set \<Rightarrow> JoinState \<Rightarrow> JoinState set" where
  "extensions I a T s = {(b', snd s @ [(relation a, t)]) | t b'. t \<in> T \<and> btm_wf b' \<and>
     extends I (terms a) t (fst s) b' \<and> dom (map_of b') = dom (map_of (fst s)) \<union> atom_vars a}"

lemma extensions_singleton:
  "extensions I a {t} (b, ps) = (\<lambda>b'. (b', ps @ [(relation a, t)])) ` {b'. btm_wf b' \<and>
     extends I (terms a) t b b' \<and> dom (map_of b') = dom (map_of b) \<union> atom_vars a}"
  by (simp add: extensions_def setcompr_eq_image)

lemma extensions_insert: "extensions I a (insert t T) s = extensions I a {t} s \<union> extensions I a T s"
  unfolding extensions_def by blast

lemma runs_join_tuple:
  assumes a: "known I a" and t: "length t = Atom_arity a" and b: "btm_wf (fst s)"
  shows "runs (join_tuple cfg a I sb s t acc) (permitted cfg)
    (\<lambda>acc'. set (fst acc') = set (fst acc) \<union> extensions I a {t} s)"
proof -
  obtain b ps where s: "s = (b, ps)" by (cases s)
  obtain next_states nb where acc: "acc = (next_states, nb)" by (cases acc)
  note step = runs_bind_atom [OF a t b, unfolded s fst_conv, where E = "permitted cfg"]
  show ?thesis
    unfolding join_tuple_def s acc prod.case
  proof (intro runs_after_check, rule runs_bind [OF step], goal_cases)
    case (1 r)
    show ?case
    proof (cases r)
      case None
      with 1 have "extensions I a {t} (b, ps) = {}" by (auto simp: extensions_def)
      then show ?thesis by (simp add: None runs_ok)
    next
      case (Some b')
      with 1 have b': "btm_wf b'" "extends I (terms a) t b b'" "dom (map_of b') = dom (map_of b) \<union> atom_vars a"
        by auto
      have "b'' = b'" if "btm_wf b''" "extends I (terms a) t b b''" "dom (map_of b'') = dom (map_of b) \<union> atom_vars a" for b''
        using extends_unique [OF that(2) b'(2) that(1) b'(1)] that(3) b'(3) by (simp add: atom_vars_def)
      with b' have "{b'. btm_wf b' \<and> extends I (terms a) t b b' \<and> dom (map_of b') = dom (map_of b) \<union> atom_vars a} = {b'}"
        by blast
      then have "extensions I a {t} (b, ps) = {(b', ps @ [(relation a, t)])}"
        by (simp only: extensions_singleton image_insert image_empty)
      then show ?thesis
        unfolding Some option.case Let_def by (intro runs_guard runs_if runs_err runs_ok) auto
    qed
  qed
qed

lemma runs_join_state:
  assumes I: "known I a" and d: "rel_ok (Atom_arity a) d" and b: "btm_wf (fst s)"
  shows "runs (join_state cfg a d I sb s acc) (permitted cfg)
    (\<lambda>acc'. set (fst acc') = set (fst acc) \<union> extensions I a (set (tuples d)) s)"
proof -
  have m: "matching d a (fst s) I = Some (filter (agrees I (fst s) a) (tuples d))"
    using matching_eq_filter [OF d] I by (simp add: known_def)
  have "extensions I a {t \<in> set (tuples d). agrees I (fst s) a t} s = extensions I a (set (tuples d)) s"
    by (auto simp: extensions_def dest: extends_agrees)
  moreover have "runs (for_each (join_tuple cfg a I sb s) (filter (agrees I (fst s) a) (tuples d)) acc) (permitted cfg)
    (\<lambda>acc'. set (fst acc') = set (fst acc) \<union> extensions I a {t \<in> set (tuples d). agrees I (fst s) a t} s)"
  proof (rule runs_for_each [where I = "\<lambda>T acc'. set (fst acc') = set (fst acc) \<union> extensions I a T s"], goal_cases)
    case (2 T t acc')
    have "set (fst acc') \<union> extensions I a {t} s = set (fst acc) \<union> extensions I a (insert t T) s"
      unfolding 2(3) extensions_insert [of I a t T] by blast
    with 2 I b d show ?case
      by (intro runs_weaken [OF runs_join_tuple]) (auto simp: rel_ok_def)
  qed (simp_all add: extensions_def)
  ultimately show ?thesis
    unfolding join_state_def m by (auto intro!: runs_guard)
qed

text \<open>
  The solutions of a list of atoms: the bindings of their variables that map each atom into the set
  of keys it is joined with.
\<close>

definition solutions :: "Interner \<Rightarrow> (nat \<Rightarrow> FactKey set) \<Rightarrow> (nat \<times> Atom) list \<Rightarrow> JoinState set" where
  "solutions I pick pas = {(b, map (\<lambda>(p, a). ground_key I b a) pas) | b. binding_ok I b \<and>
     dom (map_of b) = (\<Union>(p, a)\<in>set pas. atom_vars a) \<and> (\<forall>(p, a)\<in>set pas. ground_key I b a \<in> pick p)}"

lemma solutions_Nil: "solutions I pick [] = {([], [])}"
proof -
  have "b = []" if "btm_wf b" "dom (map_of b) = {}" for b :: binding
    using that by (simp add: dom_map_of_conv_image_fst)
  then show ?thesis by (auto simp: solutions_def binding_ok_def)
qed

text \<open>Restricting a binding to some variables.\<close>

definition restrict_binding :: "Variable set \<Rightarrow> binding \<Rightarrow> binding" where
  "restrict_binding V b = filter (\<lambda>(x, i). x \<in> V) b"

lemma restrict_binding:
  assumes "btm_wf b"
  shows "btm_wf (restrict_binding V b)" and "map_of (restrict_binding V b) = map_of b |` V"
proof -
  have "map fst (restrict_binding V b) = filter (\<lambda>x. x \<in> V) (map fst b)"
    by (simp add: restrict_binding_def filter_map comp_def case_prod_unfold)
  then show "btm_wf (restrict_binding V b)"
    using assms by (simp add: btm_wf_def sorted_wrt_filter)
  show "map_of (restrict_binding V b) = map_of b |` V"
    unfolding restrict_binding_def by (induction b) (auto simp: restrict_map_def)
qed

lemma in_solutions:
  "s \<in> solutions I pick pas \<longleftrightarrow> snd s = map (\<lambda>(p, a). ground_key I (fst s) a) pas \<and> binding_ok I (fst s) \<and>
     dom (map_of (fst s)) = (\<Union>(p, a)\<in>set pas. atom_vars a) \<and>
     (\<forall>(p, a)\<in>set pas. ground_key I (fst s) a \<in> pick p)"
  unfolding solutions_def by (cases s) (simp only: mem_Collect_eq prod.inject fst_conv snd_conv, blast)

lemma in_extensions:
  "s' \<in> extensions I a T s \<longleftrightarrow> (\<exists>t\<in>T. snd s' = snd s @ [(relation a, t)] \<and> btm_wf (fst s') \<and>
     extends I (terms a) t (fst s) (fst s') \<and> dom (map_of (fst s')) = dom (map_of (fst s)) \<union> atom_vars a)"
  unfolding extensions_def by (cases s') (simp, blast)

lemma solutions_snoc:
  assumes I: "interner_ok I" and a: "known I a" and pas: "\<forall>(p, a)\<in>set pas. known I a"
    and T: "\<And>t. t \<in> T \<longleftrightarrow> (relation a, t) \<in> pick p" and keys: "\<And>k. k \<in> pick p \<Longrightarrow> key_ok I k"
  shows "(\<Union>s\<in>solutions I pick pas. extensions I a T s) = solutions I pick (pas @ [(p, a)])"
proof (intro subset_antisym subsetI)
  let ?V = "\<Union>(p, a)\<in>set pas. atom_vars a"
  fix s
  assume "s \<in> (\<Union>s\<in>solutions I pick pas. extensions I a T s)"
  then obtain s0 t where s0: "s0 \<in> solutions I pick pas" and t: "t \<in> T"
    and s: "snd s = snd s0 @ [(relation a, t)]" and b': "btm_wf (fst s)" "extends I (terms a) t (fst s0) (fst s)"
      "dom (map_of (fst s)) = dom (map_of (fst s0)) \<union> atom_vars a"
    unfolding in_extensions UN_iff by blast
  let ?b = "fst s0" and ?b' = "fst s"
  have b: "binding_ok I ?b" "dom (map_of ?b) = ?V" "\<forall>(p, a)\<in>set pas. ground_key I ?b a \<in> pick p"
    and ps: "snd s0 = map (\<lambda>(p, a). ground_key I ?b a) pas"
    using s0 unfolding in_solutions by blast+
  have key: "ground_key I ?b' a = (relation a, t)" using b'(2) by (simp add: ground_key_def extends_def)
  have old: "ground_key I ?b' c = ground_key I ?b c" if "(q, c) \<in> set pas" for q c
    by (rule ground_key_extend) (use that b(2) b'(2) in \<open>auto simp: extends_def\<close>)
  have "canonical I i" if i: "map_of ?b' x = Some i" for x i
  proof (cases "x \<in> ?V")
    case True
    then obtain j where "map_of ?b x = Some j" using b(2) by blast
    with b(1) b'(2) i show ?thesis by (force simp: binding_ok_def extends_def map_le_def)
  next
    case False
    then have "PVariable x \<in> set (terms a)" using i b'(3) b(2) by (auto simp: atom_vars_def)
    then have "inst I ?b' (PVariable x) \<in> set t" using b'(2) by (auto simp: extends_def)
    then have "i \<in> set t" using i by (simp add: inst_def)
    moreover have "key_ok I (relation a, t)" using t T keys by blast
    ultimately show ?thesis by (simp add: key_ok_def list_all_iff)
  qed
  then have "binding_ok I ?b'" using b'(1) by (simp add: binding_ok_def)
  moreover have "map (\<lambda>(p, a). ground_key I ?b a) pas = map (\<lambda>(p, a). ground_key I ?b' a) pas"
    using old by (intro map_cong) auto
  moreover have "\<forall>(p, a)\<in>set pas. ground_key I ?b' a \<in> pick p" using b(3) old by fastforce
  ultimately show "s \<in> solutions I pick (pas @ [(p, a)])"
    using b(2) b'(3) key t T unfolding in_solutions s ps by (simp add: Un_commute)
next
  let ?V = "\<Union>(p, a)\<in>set pas. atom_vars a"
  fix s :: JoinState
  let ?b' = "fst s"
  assume "s \<in> solutions I pick (pas @ [(p, a)])"
  then have s: "snd s = map (\<lambda>(p, a). ground_key I ?b' a) pas @ [ground_key I ?b' a]"
    and b': "binding_ok I ?b'" "dom (map_of ?b') = ?V \<union> atom_vars a"
      "\<forall>(p, a)\<in>set pas. ground_key I ?b' a \<in> pick p" "ground_key I ?b' a \<in> pick p"
    unfolding in_solutions by (simp_all add: Un_commute)
  define b where "b = restrict_binding ?V ?b'"
  have wf: "btm_wf ?b'" using b'(1) by (simp add: binding_ok_def)
  have b: "btm_wf b" "map_of b = map_of ?b' |` ?V" using restrict_binding [OF wf] by (simp_all add: b_def)
  then have dom: "dom (map_of b) = ?V" and le: "map_of b \<subseteq>\<^sub>m map_of ?b'"
    using b'(2) by (auto simp: map_le_def)
  have old: "ground_key I ?b' c = ground_key I b c" if "(q, c) \<in> set pas" for q c
    by (rule ground_key_extend) (use that dom le in auto)
  then have ps: "map (\<lambda>(p, a). ground_key I b a) pas = map (\<lambda>(p, a). ground_key I ?b' a) pas"
    by (intro map_cong) auto
  have "binding_ok I b" using b'(1) b by (auto simp: binding_ok_def restrict_map_def split: if_splits)
  moreover have "\<forall>(p, a)\<in>set pas. ground_key I b a \<in> pick p" using b'(3) old by fastforce
  ultimately have "(b, map (\<lambda>(p, a). ground_key I b a) pas) \<in> solutions I pick pas"
    using dom unfolding in_solutions by simp
  moreover have "s \<in> extensions I a T (b, map (\<lambda>(p, a). ground_key I b a) pas)"
  proof -
    have "extends I (terms a) (map (inst I ?b') (terms a)) b ?b'"
      using le b'(2) by (auto simp: extends_def atom_vars_def)
    moreover have "map (inst I ?b') (terms a) \<in> T" using b'(4) T by (simp add: ground_key_def)
    ultimately show ?thesis
      using wf dom b'(2) s ps unfolding in_extensions by (auto simp: ground_key_def)
  qed
  ultimately show "s \<in> (\<Union>s\<in>solutions I pick pas. extensions I a T s)" by blast
qed

text \<open>A store whose keys are canonical and of the right arity.\<close>

definition store_in :: "Interner \<Rightarrow> (RelationId \<Rightarrow> nat option) \<Rightarrow> RelationStore \<Rightarrow> bool" where
  "store_in I ar st \<longleftrightarrow> store_ok ar st \<and> (\<forall>k\<in>keys_of st. key_ok I k)"

lemma store_in_mono: "interner_le I J \<Longrightarrow> store_in I ar st \<Longrightarrow> store_in J ar st"
  by (auto simp: store_in_def intro: key_ok_mono)

definition picked :: "RelationStore \<Rightarrow> RelationStore \<Rightarrow> nat option \<Rightarrow> nat \<Rightarrow> FactKey set" where
  "picked all delta delta_position p = keys_of (if Some p = delta_position then delta else all)"

lemma runs_join_states:
  assumes "known I a" and "rel_ok (Atom_arity a) d" and "\<forall>s\<in>set states. btm_wf (fst s)"
  shows "runs (for_each (join_state cfg a d I sb) states ([], n)) (permitted cfg)
    (\<lambda>acc. set (fst acc) = (\<Union>s\<in>set states. extensions I a (set (tuples d)) s))"
proof (rule runs_for_each [where I = "\<lambda>S acc. set (fst acc) = (\<Union>s\<in>S. extensions I a (set (tuples d)) s)"], goal_cases)
  case (2 A s acc)
  show ?case
    by (rule runs_weaken [OF runs_join_state]) (use assms 2 in auto)
qed simp_all

lemma solutions_stuck:
  assumes I: "interner_ok I" and known: "\<forall>(p, a)\<in>set (pas @ rest). known I a"
    and keys: "\<And>p k. k \<in> pick p \<Longrightarrow> key_ok I k" and empty: "solutions I pick pas = {}"
  shows "solutions I pick (pas @ rest) = {}"
  using known
proof (induction rest rule: rev_induct)
  case Nil
  then show ?case using empty by simp
next
  case (snoc x rest)
  obtain p a where x: "x = (p, a)" by (cases x)
  have "solutions I pick ((pas @ rest) @ [(p, a)]) =
    (\<Union>s\<in>solutions I pick (pas @ rest). extensions I a {t. (relation a, t) \<in> pick p} s)"
    by (rule solutions_snoc [symmetric]) (use I snoc.prems keys x in auto)
  with snoc show ?case by (simp add: x)
qed

lemma runs_join_body:
  assumes I: "interner_ok I" and all: "store_in I ar all" and delta: "store_in I ar delta"
    and atoms: "\<forall>(p, a)\<in>set (pas @ rest). known I a \<and> ar (relation a) = Some (Atom_arity a)"
    and states: "set states = solutions I (picked all delta dp) pas"
  shows "runs (join_body cfg all delta dp I rest (states, n)) (permitted cfg) (\<lambda>r. case r of
     None \<Rightarrow> solutions I (picked all delta dp) (pas @ rest) = {}
   | Some acc \<Rightarrow> set (fst acc) = solutions I (picked all delta dp) (pas @ rest))"
  using atoms states
proof (induction rest arbitrary: pas states n)
  case Nil
  then show ?case by simp
next
  case (Cons x rest)
  let ?pick = "picked all delta dp" and ?E = "permitted cfg"
  obtain p a where x: "x = (p, a)" by (cases x)
  define st where "st = (if Some p = dp then delta else all)"
  have st: "store_in I ar st" and pick: "?pick p = keys_of st"
    using all delta by (simp_all add: st_def picked_def)
  have a: "known I a" "ar (relation a) = Some (Atom_arity a)" using Cons.prems(1) by (simp_all add: x)
  have keys: "key_ok I k" if "k \<in> ?pick q" for q k
    using that all delta by (auto simp: picked_def store_in_def split: if_splits)
  have kn: "known I c" if "(q, c) \<in> set pas \<union> set rest" for q c
    using Cons.prems(1) that by fastforce
  have snoc: "(\<Union>s\<in>solutions I ?pick pas. extensions I a T s) = solutions I ?pick (pas @ [(p, a)])"
    if "\<And>t. t \<in> T \<longleftrightarrow> (relation a, t) \<in> ?pick p" for T
    by (rule solutions_snoc) (use that I a(1) kn keys in auto)
  have stuck: "solutions I ?pick (pas @ [(p, a)]) = {} \<Longrightarrow> solutions I ?pick (pas @ x # rest) = {}"
    using solutions_stuck [OF I, of "pas @ [(p, a)]" rest ?pick] a(1) kn keys by (auto simp: x)
  show ?case
  proof (cases "store_relation st (relation a)")
    case None
    then have "solutions I ?pick (pas @ [(p, a)]) = {}"
      using snoc [of "{}"] by (auto simp: pick keys_of_def store_relation_def extensions_def)
    then show ?thesis
      unfolding x join_body.simps Let_def st_def [symmetric] None option.case
      by (intro runs_guard runs_ok) (simp add: stuck [unfolded x])
  next
    case (Some d)
    then have d: "rel_ok (Atom_arity a) d" and T: "\<And>t. t \<in> set (tuples d) \<longleftrightarrow> (relation a, t) \<in> ?pick p"
      using st a(2) by (fastforce simp: store_in_def store_ok_def store_relation_def pick keys_of_def)+
    have wf: "\<forall>s\<in>set states. btm_wf (fst s)"
      unfolding Cons.prems(2) by (auto simp: in_solutions binding_ok_def)
    show ?thesis
      unfolding x join_body.simps Let_def st_def [symmetric] Some option.case
    proof (rule runs_bind [OF runs_join_states [OF a(1) d wf]], goal_cases)
      case (1 acc)
      obtain next_states nb where acc: "acc = (next_states, nb)" by (cases acc)
      with 1 Cons.prems(2) snoc [OF T] have next_set: "set next_states = solutions I ?pick (pas @ [(p, a)])" by simp
      show ?case
        unfolding acc prod.case
      proof (intro runs_after_charge runs_if, goal_cases)
        case 1
        with next_set stuck show ?case by (intro runs_guard runs_ok) (simp add: x)
      next
        case 2
        have "runs (join_body cfg all delta dp I rest (next_states, nb)) ?E (\<lambda>r. case r of
           None \<Rightarrow> solutions I ?pick ((pas @ [(p, a)]) @ rest) = {}
         | Some acc \<Rightarrow> set (fst acc) = solutions I ?pick ((pas @ [(p, a)]) @ rest))"
          by (rule Cons.IH) (use Cons.prems(1) next_set in \<open>auto simp: x\<close>)
        then show ?case by (simp only: append_assoc append_Cons append_Nil)
      qed
    qed
  qed
qed

end
