(* ===== verification/Datalog_Derive.thy ===== *)
theory Datalog_Derive
  imports Datalog_Join
begin

text \<open>
  From join states to candidates: negated premises, generated heads, and the candidate set. The
  facts derived are the heads of the rule's instances, under every naming function that agrees with
  the blank nodes the interner has generated.
\<close>

section \<open>Naming functions and derivations\<close>

definition sk_agrees :: "naming \<Rightarrow> Interner \<Rightarrow> bool" where
  "sk_agrees sk I \<longleftrightarrow> (\<forall>k i. map_of (generated I) k = Some i \<longrightarrow> sk k = interned I ! i)"

lemma sk_agrees_mono:
  assumes "interner_ok I" and "interner_le I J" and "sk_agrees sk J"
  shows "sk_agrees sk I"
proof -
  have "sk k = interned I ! i" if k: "map_of (generated I) k = Some i" for k i
  proof -
    have "i < length (interned I)" using assms(1) k by (auto simp: interner_ok_def canonical_def)
    with assms(2,3) interner_le_generated [OF assms(2) k] show ?thesis
      by (simp add: sk_agrees_def interner_le_nth)
  qed
  then show ?thesis by (simp add: sk_agrees_def)
qed

text \<open>A derivation of a fact by a rule of \<open>R\<close> from the facts \<open>F\<close>.\<close>

definition valid_derivation :: "naming \<Rightarrow> Rule set \<Rightarrow> Fact set \<Rightarrow> Derivation \<Rightarrow> Fact \<Rightarrow> bool" where
  "valid_derivation sk R F d f \<longleftrightarrow> (\<exists>r\<in>R. \<exists>\<nu>. f = ground sk r \<nu> (head r) \<and> body_holds sk r \<nu> F F \<and>
     der_rule_id d = rule_id r \<and> der_rule_source d = rule_source r \<and>
     mset (der_premises d) = mset (map (ground sk r \<nu>) (positive_body r)) \<and>
     mset (der_absent d) = mset (map (ground sk r \<nu>) (negative_body r)))"

definition rule_ok :: "Interner \<Rightarrow> (RelationId \<Rightarrow> nat option) \<Rightarrow> Rule \<Rightarrow> bool" where
  "rule_ok I ar r \<longleftrightarrow> rule_safe r \<and> (\<forall>a\<in>set (rule_atoms r). constants_of {a} \<subseteq> dom (map_of (ids I)) \<and>
     ar (relation a) = Some (Atom_arity a))"

lemma rule_ok_mono:
  assumes "interner_le I J" and "rule_ok I ar r"
  shows "rule_ok J ar r"
proof -
  have "dom (map_of (ids I)) \<subseteq> dom (map_of (ids J))"
    using assms(1) by (auto simp: interner_le_def dest: map_le_implies_dom_le)
  with assms(2) show ?thesis unfolding rule_ok_def by blast
qed

lemma rule_ok_known:
  "rule_ok I ar r \<Longrightarrow> a \<in> set (positive_body r) \<union> set (negative_body r) \<Longrightarrow>
    known I a \<and> atom_vars a \<subseteq> body_vars r \<and> ar (relation a) = Some (Atom_arity a)"
  by (auto simp: rule_ok_def known_def rule_safe_def rule_atoms_def body_vars_def)

section \<open>Negated premises\<close>

lemma runs_ground_terms:
  assumes "known I a" and "atom_vars a \<subseteq> dom (map_of b)" and "set ts \<subseteq> set (terms a)"
  shows "runs (ground_terms I b ts :: ('s, failure, Tuple option) fallible) E (\<lambda>r. r = Some (map (inst I b) ts))"
  using assms(3)
proof (induction ts)
  case (Cons t ts)
  then have rest: "runs (ground_terms I b ts :: ('s, failure, Tuple option) fallible) E
      (\<lambda>r. r = Some (map (inst I b) ts))" by simp
  have "t \<in> set (terms a)" using Cons.prems by simp
  from knownD [OF assms(1) this] show ?case
  proof (elim disjE exE conjE)
    fix c i
    assume "t = PConstant c" "map_of (ids I) c = Some i"
    then show ?thesis
      by (auto simp: inst_def Interner_id_def intro!: runs_bind [OF rest])
  next
    fix x
    assume "t = PVariable x" "x \<in> atom_vars a"
    with assms(2) obtain i where "t = PVariable x" "map_of b x = Some i" by auto
    then show ?thesis by (auto simp: inst_def intro!: runs_bind [OF rest])
  qed
qed simp

lemma runs_instantiate_ground:
  assumes "known I a" and "atom_vars a \<subseteq> dom (map_of b)"
  shows "runs (instantiate_ground I a b) E (\<lambda>r. r = Some (snd (ground_key I b a)))"
  unfolding instantiate_ground_def ground_key_def snd_conv
  by (rule runs_ground_terms [OF assms]) simp

lemma runs_absent_loop:
  assumes I: "interner_ok I" and b: "binding_ok I b"
    and atoms: "\<forall>a\<in>set as. known I a \<and> atom_vars a \<subseteq> dom (map_of b)"
  shows "runs (absent_loop cfg b all I as absent) (permitted cfg) (\<lambda>r. r =
    (if \<exists>a\<in>set as. ground_key I b a \<in> keys_of all then None
     else Some (absent @ map (\<lambda>a. fact_of I (ground_key I b a)) as)))"
  using atoms
proof (induction as arbitrary: absent)
  case (Cons a as)
  have a: "known I a" "atom_vars a \<subseteq> dom (map_of b)" using Cons.prems by auto
  have key: "(relation a, snd (ground_key I b a)) = ground_key I b a" by (simp add: ground_key_def)
  have dec: "runs (decode_fact I (ground_key I b a)) (permitted cfg) (\<lambda>f. f = fact_of I (ground_key I b a))"
    by (rule runs_decode_fact [OF ground_key_fact(1) [OF I b a]])
  show ?case
    unfolding absent_loop.simps
  proof (intro runs_after_check, rule runs_bind [OF runs_instantiate_ground [OF a]], goal_cases)
    case (1 r)
    show ?case
      unfolding 1 option.case Let_def key
    proof (intro runs_if, goal_cases)
      case 2
      show ?case
      proof (rule runs_bind [OF dec], goal_cases)
        case (1 f)
        show ?case
          by (rule runs_weaken [OF Cons.IH]) (use Cons.prems 1 2 in auto)
      qed
    qed (auto simp: runs_ok)
  qed
qed simp

section \<open>Heads\<close>

lemma decoded_sorted:
  assumes wf: "btm_wf b" and dom: "dom (map_of b) = V" and "finite V"
  shows "decoded I b = map (\<lambda>x. (x, val_of I b x)) (sorted_list_of_set V)"
proof -
  have "map fst b = sorted_list_of_set V"
    using wf dom \<open>finite V\<close> by (intro bts_wf_unique) (auto simp: btm_wf_def dom_map_of_conv_image_fst)
  moreover have "decoded I b = map (\<lambda>x. (x, val_of I b x)) (map fst b)"
    using btm_wf_distinct [OF wf] by (auto simp: val_of_def map_prod_def)
  ultimately show ?thesis by simp
qed

lemma runs_head_terms:
  fixes \<nu> :: valuation
  assumes "interner_ok I" and "binding_ok I b" and dom: "dom (map_of b) = body_vars r"
    and "\<forall>x\<in>body_vars r. val_of I b x = \<nu> x" and "\<forall>c. PConstant c \<in> set ts \<longrightarrow> c \<in> dom (map_of (ids I))"
    and vars: "{x. PVariable x \<in> set ts} \<subseteq> body_vars r"
  shows "runs (head_terms cfg r b ts I) (permitted cfg) (\<lambda>(res, J). interner_ok J \<and> interner_le I J \<and>
    (\<exists>t. res = Some t \<and> list_all (canonical J) t \<and> length t = length ts \<and>
      (\<forall>sk. sk_agrees sk J \<longrightarrow> map (\<lambda>i. interned J ! i) t = map (term_value sk r \<nu>) ts)))"
  using assms(1,2,4,5) vars
proof (induction ts arbitrary: I)
  case (Cons t ts)
  define Q where "Q = (\<lambda>(v, J). interner_ok J \<and> interner_le I J \<and> (\<exists>i. v = Some i \<and> canonical J i \<and>
      (\<forall>sk. sk_agrees sk J \<longrightarrow> interned J ! i = term_value sk r \<nu> t)))"
  have first: "runs (case t of
         PConstant c \<Rightarrow> bind (Interner_id I c) (\<lambda>i. ok (Some i, I))
       | PVariable x \<Rightarrow> ok (map_of b x, I)
       | PGeneratedBlankNode g \<Rightarrow>
           bind (generate_blank_node cfg (rule_id r) g b I) (\<lambda>(i, I). ok (Some i, I))) (permitted cfg) Q"
  proof (cases t)
    case (PConstant c)
    then obtain i where i: "map_of (ids I) c = Some i" using Cons.prems(4) by auto
    with PConstant Cons.prems(1) interner_ok_id [OF Cons.prems(1) i] show ?thesis
      by (simp add: Interner_id_def Q_def term_value_def)
  next
    case (PVariable x)
    then have x: "x \<in> body_vars r" using Cons.prems(5) by auto
    with dom obtain i where i: "map_of b x = Some i" by auto
    with PVariable x Cons.prems(1,2,3) show ?thesis
      by (auto simp: Q_def term_value_def binding_ok_def val_of_def)
  next
    case (PGeneratedBlankNode g)
    have lt: "\<forall>(x, i)\<in>set b. i < length (interned I)"
      using Cons.prems(2) map_of_is_SomeI [OF btm_wf_distinct]
      by (fastforce simp: binding_ok_def canonical_def)
    have "decoded I b = map (\<lambda>x. (x, val_of I b x)) (sorted_list_of_set (body_vars r))"
      by (rule decoded_sorted) (use Cons.prems(2) dom finite_body_vars in \<open>auto simp: binding_ok_def\<close>)
    also have "\<dots> = map (\<lambda>x. (x, \<nu> x)) (sorted_list_of_set (body_vars r))"
      using Cons.prems(3) finite_body_vars by simp
    finally have key: "gen_key (rule_id r) g (decoded I b) = node_key r g \<nu>"
      by (simp only: node_key_def)
    show ?thesis
      unfolding PGeneratedBlankNode PatternTerm.case
      by (rule runs_bind [OF runs_generate_blank_node [OF Cons.prems(1) lt]])
        (auto simp: Q_def key PGeneratedBlankNode term_value_def sk_agrees_def interner_ok_def)
  qed
  show ?case
    unfolding head_terms.simps
  proof (rule runs_bind [OF first], goal_cases)
    case (1 p)
    then obtain i J where p: "p = (Some i, J)" and J: "interner_ok J" "interner_le I J" "canonical J i"
      and val: "\<And>sk. sk_agrees sk J \<Longrightarrow> interned J ! i = term_value sk r \<nu> t"
      by (auto simp: Q_def)
    have b: "binding_ok J b" by (rule binding_ok_mono [OF J(2) Cons.prems(2)])
    have \<nu>: "\<forall>x\<in>body_vars r. val_of J b x = \<nu> x"
      using val_of_mono [OF J(2) Cons.prems(2)] dom Cons.prems(3) by simp
    have c: "\<forall>c. PConstant c \<in> set ts \<longrightarrow> c \<in> dom (map_of (ids J))"
      using Cons.prems(4) interner_le_ids [OF J(2)] by fastforce
    have v: "{x. PVariable x \<in> set ts} \<subseteq> body_vars r" using Cons.prems(5) by auto
    show ?case
      unfolding p prod.case option.case
    proof (rule runs_bind [OF Cons.IH [OF J(1) b \<nu> c v]], goal_cases)
      case (1 q)
      then obtain t' K where q: "q = (Some t', K)" and K: "interner_ok K" "interner_le J K" "list_all (canonical K) t'"
        "length t' = length ts" "\<And>sk. sk_agrees sk K \<Longrightarrow> map (\<lambda>i. interned K ! i) t' = map (term_value sk r \<nu>) ts"
        by auto
      have "interned K ! i = term_value sk r \<nu> t" if "sk_agrees sk K" for sk
        using val [OF sk_agrees_mono [OF J(1) K(2) that]] interner_le_nth [OF K(2)] J(3)
        by (simp add: canonical_def)
      with K J show ?case
        by (auto simp: q intro: interner_le_trans canonical_mono)
    qed
  qed
qed (auto simp: runs_ok)

lemma runs_instantiate_head:
  assumes I: "interner_ok I" and b: "binding_ok I b" "dom (map_of b) = body_vars r"
    and \<nu>: "\<forall>x\<in>body_vars r. val_of I b x = \<nu> x" and r: "rule_ok I ar r"
  shows "runs (instantiate_head cfg r b I) (permitted cfg) (\<lambda>(res, J). interner_ok J \<and> interner_le I J \<and>
    (\<exists>t. res = Some t \<and> key_ok J (relation (head r), t) \<and> arity_ok ar (relation (head r), t) \<and>
      (\<forall>sk. sk_agrees sk J \<longrightarrow> fact_of J (relation (head r), t) = ground sk r \<nu> (head r))))"
  unfolding instantiate_head_def
proof (rule runs_weaken [OF runs_head_terms [OF I b \<nu>]], goal_cases)
  case (4 p)
  then show ?case
    using r by (auto simp: key_ok_def arity_ok_def rule_ok_def rule_atoms_def Atom_arity_def fact_of_def ground_def)
qed (use r in \<open>auto simp: rule_ok_def rule_atoms_def constants_of_def rule_safe_def atom_vars_def\<close>)

section \<open>Candidates\<close>

lemma runs_decode_premises:
  assumes "\<forall>k\<in>set ps. key_ok I k"
  shows "runs (decode_premises cfg I n ps) (permitted cfg) (\<lambda>fs. fs = map (fact_of I) ps)"
proof -
  have "runs (for_each (\<lambda>p (decoded, decoded_bytes).
         andthen (check cfg)
         (bind (decode_fact I p) (\<lambda>f.
           let decoded_bytes = sat_add decoded_bytes (estimate_fact cfg f)
           in andthen (charge cfg (mem_join_states_update (\<lambda>_. sat_add n decoded_bytes)))
                (ok (decoded @ [f], decoded_bytes)))))
       ps ([], size_Vec_Fact (layout cfg))) (permitted cfg) (\<lambda>acc. fst acc = map (fact_of I) ps)"
  proof (rule runs_for_each_split [where I = "\<lambda>done rest acc. fst acc = map (fact_of I) done"], goal_cases)
    case (2 "done" k rest acc)
    then have "key_ok I k" using assms by auto
    with 2 show ?case
      by (cases acc) (auto simp: Let_def intro!: runs_guard runs_bind [OF runs_decode_fact])
  qed auto
  then show ?thesis
    unfolding decode_premises_def by (rule runs_bind) auto
qed

lemma runs_CandidateSet_insert:
  assumes "btm_wf (entries cs)"
  shows "runs (CandidateSet_insert cfg k d cs) (permitted cfg) (\<lambda>cs'. btm_wf (entries cs') \<and>
    dom (map_of (entries cs')) = insert k (dom (map_of (entries cs))) \<and>
    (\<forall>k' d'. map_of (entries cs') k' = Some d' \<longrightarrow> k' = k \<and> d' = d \<or> map_of (entries cs) k' = Some d'))"
  unfolding CandidateSet_insert_def Let_def
  by (cases "map_of (entries cs) k")
    (use assms in \<open>auto simp: btm_wf_insert intro!: runs_guard\<close>)

definition candidates_ok ::
  "Interner \<Rightarrow> (RelationId \<Rightarrow> nat option) \<Rightarrow> Rule set \<Rightarrow> Fact set \<Rightarrow> CandidateSet \<Rightarrow> bool" where
  "candidates_ok I ar R F cs \<longleftrightarrow> btm_wf (entries cs) \<and> (\<forall>k d. map_of (entries cs) k = Some d \<longrightarrow>
     key_ok I k \<and> arity_ok ar k \<and> (\<forall>sk. sk_agrees sk I \<longrightarrow> valid_derivation sk R F d (fact_of I k)))"

abbreviation candidate_keys :: "CandidateSet \<Rightarrow> FactKey set" where
  "candidate_keys cs \<equiv> dom (map_of (entries cs))"

lemma candidates_ok_mono:
  assumes "interner_ok I" and "interner_le I J" and "candidates_ok I ar R F cs"
  shows "candidates_ok J ar R F cs"
  using assms key_ok_mono [OF assms(2)] fact_of_mono [OF assms(2)] sk_agrees_mono [OF assms(1,2)]
  by (auto simp: candidates_ok_def)

text \<open>\<open>derived I cs r b\<close>: the head of the instance of \<open>r\<close> under the values of \<open>b\<close> is a candidate.\<close>

definition derived :: "Interner \<Rightarrow> CandidateSet \<Rightarrow> Rule \<Rightarrow> valuation \<Rightarrow> bool" where
  "derived I cs r \<nu> \<longleftrightarrow> (\<exists>k\<in>candidate_keys cs. key_ok I k \<and>
     (\<forall>sk. sk_agrees sk I \<longrightarrow> fact_of I k = ground sk r \<nu> (head r)))"

lemma derived_mono:
  assumes "interner_ok I" and "interner_le I J" and "candidate_keys cs \<subseteq> candidate_keys cs'" and "derived I cs r \<nu>"
  shows "derived J cs' r \<nu>"
proof -
  obtain k where k: "k \<in> candidate_keys cs'" "key_ok I k"
    and f: "\<And>sk. sk_agrees sk I \<Longrightarrow> fact_of I k = ground sk r \<nu> (head r)"
    using assms(3,4) unfolding derived_def by blast
  have "fact_of J k = ground sk r \<nu> (head r)" if "sk_agrees sk J" for sk
    using fact_of_mono [OF assms(2) k(2)] f [OF sk_agrees_mono [OF assms(1,2) that]] by simp
  with k key_ok_mono [OF assms(2)] show ?thesis unfolding derived_def by blast
qed

definition facts_of :: "Interner \<Rightarrow> RelationStore \<Rightarrow> Fact set" where
  "facts_of I st = fact_of I ` keys_of st"

lemma facts_of_mono: "interner_le I J \<Longrightarrow> store_in I ar st \<Longrightarrow> facts_of J st = facts_of I st"
  by (auto simp: facts_of_def store_in_def fact_of_mono image_def)

lemma fact_of_in_facts_of:
  "store_in I ar st \<Longrightarrow> key_ok I k \<Longrightarrow> fact_of I k \<in> facts_of I st \<longleftrightarrow> k \<in> keys_of st"
  by (auto simp: facts_of_def store_in_def dest: fact_of_inj)

text \<open>One join state of a rule: its head becomes a candidate unless a negated atom holds.\<close>

lemma runs_derive_state:
  assumes I: "interner_ok I" and r: "r \<in> R" "rule_ok I ar r" and all: "store_in I ar all"
    and cs: "candidates_ok I ar R (facts_of I all) cs"
    and b: "binding_ok I b" "dom (map_of b) = body_vars r"
    and ps: "ps = map (ground_key I b) (positive_body r)" "set ps \<subseteq> keys_of all"
    and \<nu>: "\<forall>x\<in>body_vars r. val_of I b x = \<nu> x"
  shows "runs (derive_state cfg r all n (b, ps) (I, cs)) (permitted cfg) (\<lambda>(J, cs'). interner_ok J \<and> interner_le I J \<and>
    candidates_ok J ar R (facts_of I all) cs' \<and> candidate_keys cs \<subseteq> candidate_keys cs' \<and>
    ((\<forall>a\<in>set (negative_body r). ground_key I b a \<notin> keys_of all) \<longrightarrow> derived J cs' r \<nu>))"
proof -
  let ?F = "facts_of I all"
  have neg: "\<forall>a\<in>set (negative_body r). known I a \<and> atom_vars a \<subseteq> dom (map_of b)"
    using rule_ok_known [OF r(2)] b(2) by auto
  have fact: "key_ok I (ground_key I b a) \<and> fact_of I (ground_key I b a) = ground sk r \<nu> a"
    if "a \<in> set (positive_body r) \<union> set (negative_body r)" for a sk
  proof -
    have a: "known I a" "atom_vars a \<subseteq> dom (map_of b)" using rule_ok_known [OF r(2) that] b(2) by auto
    have "ground sk r (val_of I b) a = ground sk r \<nu> a"
      by (rule ground_cong) (use \<nu> r(2) that in \<open>auto simp: rule_ok_def rule_atoms_def\<close>)
    with ground_key_fact [OF I b(1) a] show ?thesis by auto
  qed
  show ?thesis
    unfolding derive_state_def prod.case ground_absent_premises_def
  proof (intro runs_after_check, rule runs_bind [OF runs_absent_loop [OF I b(1) neg]], goal_cases)
    case (1 absent)
    show ?case
    proof (cases "\<exists>a\<in>set (negative_body r). ground_key I b a \<in> keys_of all")
      case True
      with 1 I cs show ?thesis by auto
    next
      case False
      define as where "as = map (\<lambda>a. fact_of I (ground_key I b a)) (negative_body r)"
      have absent: "absent = Some as" using 1 False by (simp add: as_def)
      show ?thesis
        unfolding absent option.case
      proof (rule runs_bind [OF runs_instantiate_head [OF I b \<nu> r(2)]], goal_cases)
        case (1 p)
        then obtain J t where p: "p = (Some t, J)" and J: "interner_ok J" "interner_le I J"
          and k: "key_ok J (relation (head r), t)" "arity_ok ar (relation (head r), t)"
          and f: "\<And>sk. sk_agrees sk J \<Longrightarrow> fact_of J (relation (head r), t) = ground sk r \<nu> (head r)"
          by auto
        have psk: "\<forall>k\<in>set ps. key_ok J k"
          using ps(2) all key_ok_mono [OF J(2)] unfolding store_in_def by blast
        have cs': "candidates_ok J ar R ?F cs" by (rule candidates_ok_mono [OF I J(2) cs])
        define d where "d = new_with_absence (rule_id r) (rule_source r) (map (fact_of J) ps) as"
        have "valid_derivation sk R ?F d (fact_of J (relation (head r), t))" if sk: "sk_agrees sk J" for sk
        proof -
          have "map (fact_of J) ps = map (ground sk r \<nu>) (positive_body r)"
            using fact fact_of_mono [OF J(2)] by (simp add: ps(1))
          moreover have "as = map (ground sk r \<nu>) (negative_body r)" using fact by (simp add: as_def)
          moreover have "body_holds sk r \<nu> ?F ?F"
          proof -
            have "ground sk r \<nu> a \<in> ?F" if "a \<in> set (positive_body r)" for a
              using fact [of a sk] that ps unfolding facts_of_def
              by (intro image_eqI [of _ _ "ground_key I b a"]) auto
            moreover have "ground sk r \<nu> a \<notin> ?F" if "a \<in> set (negative_body r)" for a
              using fact [of a sk] that False fact_of_in_facts_of [OF all, of "ground_key I b a"] by auto
            ultimately show ?thesis by (auto simp: body_holds_def)
          qed
          ultimately show ?thesis
            using r(1) f [OF sk] unfolding valid_derivation_def d_def
            by (intro bexI [of _ r] exI [of _ \<nu>]) (simp_all add: new_with_absence_def)
        qed
        note valid = this
        show ?case
          unfolding p prod.case option.case
        proof (rule runs_bind [OF runs_decode_premises [OF psk]], goal_cases)
          case (1 decoded)
          show ?case
            unfolding 1 Let_def d_def [symmetric]
          proof (intro runs_after_check, rule runs_bind [OF runs_CandidateSet_insert], goal_cases)
            case 1
            then show ?case using cs by (simp add: candidates_ok_def)
          next
            case (2 cs2)
            have "candidates_ok J ar R ?F cs2"
              using 2 cs' k valid unfolding candidates_ok_def by blast
            moreover have "derived J cs2 r \<nu>"
              unfolding derived_def using 2 k(1) f by (intro bexI [of _ "(relation (head r), t)"]) auto
            ultimately show ?case using 2 J by auto
          qed
        qed
      qed
    qed
  qed
qed

section \<open>One rule\<close>

text \<open>
  The binding of a valuation: every variable of the body is bound to the number of its value.
\<close>

definition binding_for :: "Interner \<Rightarrow> Rule \<Rightarrow> valuation \<Rightarrow> binding" where
  "binding_for I r \<nu> = map (\<lambda>x. (x, the (map_of (ids I) (\<nu> x)))) (sorted_list_of_set (body_vars r))"

lemma map_of_binding_for:
  "map_of (binding_for I r \<nu>) x = (if x \<in> body_vars r then Some (the (map_of (ids I) (\<nu> x))) else None)"
  using finite_body_vars [of r] by (auto simp: binding_for_def map_of_map_restrict)

lemma snd_enumerate: "snd ` set (List.enumerate n xs) = set xs"
  by (metis list.set_map map_snd_enumerate)

lemma union_enumerate: "(\<Union>(p, a)\<in>set (List.enumerate n (positive_body r)). atom_vars a) = body_vars r"
proof -
  have "(\<Union>(p, a)\<in>set (List.enumerate n (positive_body r)). atom_vars a) =
      \<Union> (atom_vars ` snd ` set (List.enumerate n (positive_body r)))"
    unfolding image_image by (simp add: case_prod_unfold)
  then show ?thesis by (simp only: snd_enumerate body_vars_def)
qed

text \<open>
  A valuation under which the positive body holds in the stores takes its values from interned
  ones, so its binding is a solution of the join.
\<close>

lemma binding_for_solution:
  assumes I: "interner_ok I" and r: "rule_ok I ar r" and st: "\<And>p. store_in I ar (st p)"
    and holds: "\<forall>p<length (positive_body r). ground sk r \<nu> (positive_body r ! p) \<in> facts_of I (st p)"
  shows "(binding_for I r \<nu>, map (ground_key I (binding_for I r \<nu>)) (positive_body r)) \<in>
      solutions I (\<lambda>p. keys_of (st p)) (List.enumerate 0 (positive_body r))"
    and "\<forall>x\<in>body_vars r. val_of I (binding_for I r \<nu>) x = \<nu> x"
proof -
  let ?b = "binding_for I r \<nu>"
  have interned: "\<exists>i. map_of (ids I) (\<nu> x) = Some i" if x: "x \<in> body_vars r" for x
  proof -
    obtain p where p: "p < length (positive_body r)" "PVariable x \<in> set (terms (positive_body r ! p))"
      using x unfolding body_vars_def atom_vars_def by (auto simp: in_set_conv_nth [of _ "positive_body r"])
    then obtain k where k: "k \<in> keys_of (st p)" "fact_of I k = ground sk r \<nu> (positive_body r ! p)"
      using holds unfolding facts_of_def by (metis imageE)
    have "\<nu> x = term_value sk r \<nu> (PVariable x)" by (simp add: term_value_def)
    then have "\<nu> x \<in> set (map (term_value sk r \<nu>) (terms (positive_body r ! p)))" using p(2) by force
    also have "\<dots> = (\<lambda>i. interned I ! i) ` set (snd k)"
      using k(2) by (metis (no_types, lifting) Fact.select_convs(2) Fact_new_def fact_of_def ground_def list.set_map)
    finally obtain i where "i \<in> set (snd k)" "\<nu> x = interned I ! i" by auto
    moreover have "key_ok I k" using st [of p] k(1) by (simp add: store_in_def)
    ultimately show ?thesis by (auto simp: key_ok_def list_all_iff canonical_def)
  qed
  then have can: "canonical I (the (map_of (ids I) (\<nu> x))) \<and> interned I ! the (map_of (ids I) (\<nu> x)) = \<nu> x"
    if "x \<in> body_vars r" for x
    using interner_ok_id [OF I] that by (metis option.sel)
  then show vals: "\<forall>x\<in>body_vars r. val_of I ?b x = \<nu> x"
    by (simp add: val_of_def map_of_binding_for)
  have "map fst ?b = sorted_list_of_set (body_vars r)" by (simp add: binding_for_def comp_def)
  then have b: "binding_ok I ?b"
    using can by (auto simp: binding_ok_def btm_wf_def map_of_binding_for split: if_splits)
  have dom: "dom (map_of ?b) = body_vars r" by (auto simp: map_of_binding_for dom_def)
  have "ground_key I ?b (positive_body r ! p) \<in> keys_of (st p)" if p: "p < length (positive_body r)" for p
  proof -
    let ?a = "positive_body r ! p"
    have a: "known I ?a" "atom_vars ?a \<subseteq> dom (map_of ?b)" "?a \<in> set (rule_atoms r)"
      using rule_ok_known [OF r, of ?a] p dom by (auto simp: rule_atoms_def)
    have "ground sk r (val_of I ?b) ?a = ground sk r \<nu> ?a"
      by (rule ground_cong) (use vals r a(3) in \<open>auto simp: rule_ok_def\<close>)
    then have "fact_of I (ground_key I ?b ?a) \<in> facts_of I (st p)"
      using ground_key_fact(2) [OF I b a(1,2), of sk r] holds p by simp
    then show ?thesis
      unfolding fact_of_in_facts_of [OF st ground_key_fact(1) [OF I b a(1,2)]] .
  qed
  then have "\<forall>(p, a)\<in>set (List.enumerate 0 (positive_body r)). ground_key I ?b a \<in> keys_of (st p)"
    by (auto simp: in_set_enumerate_eq)
  moreover have "(\<Union>(p, a)\<in>set (List.enumerate 0 (positive_body r)). atom_vars a) = body_vars r"
    by (rule union_enumerate)
  moreover have "map (\<lambda>(p, a). ground_key I ?b a) (List.enumerate 0 (positive_body r)) =
      map (ground_key I ?b) (map snd (List.enumerate 0 (positive_body r)))"
    by (simp only: map_map comp_def case_prod_unfold)
  ultimately show "(?b, map (ground_key I ?b) (positive_body r)) \<in>
      solutions I (\<lambda>p. keys_of (st p)) (List.enumerate 0 (positive_body r))"
    using b dom unfolding in_solutions by simp
qed

lemma derived_cong:
  assumes "rule_safe r" and "\<forall>x\<in>body_vars r. \<nu> x = \<mu> x" and "derived I cs r \<nu>"
  shows "derived I cs r \<mu>"
proof -
  have "ground sk r \<nu> (head r) = ground sk r \<mu> (head r)" for sk
    by (rule ground_cong) (use assms in \<open>auto simp: rule_atoms_def\<close>)
  with assms(3) show ?thesis by (simp add: derived_def)
qed

text \<open>The state of the loop over the join states \<open>A\<close>.\<close>

definition deriving ::
  "Interner \<Rightarrow> (RelationId \<Rightarrow> nat option) \<Rightarrow> Rule set \<Rightarrow> Rule \<Rightarrow> RelationStore \<Rightarrow> CandidateSet \<Rightarrow>
   JoinState set \<Rightarrow> Interner \<times> CandidateSet \<Rightarrow> bool" where
  "deriving I ar R r all cs A acc \<longleftrightarrow> (case acc of (J, cs') \<Rightarrow> interner_ok J \<and> interner_le I J \<and>
     candidates_ok J ar R (facts_of I all) cs' \<and> candidate_keys cs \<subseteq> candidate_keys cs' \<and>
     (\<forall>s\<in>A. (\<forall>a\<in>set (negative_body r). ground_key I (fst s) a \<notin> keys_of all) \<longrightarrow>
        derived J cs' r (val_of I (fst s))))"

lemma runs_derive_step:
  assumes I: "interner_ok I" and r: "r \<in> R" "rule_ok I ar r" and all: "store_in I ar all"
    and s: "binding_ok I (fst s)" "dom (map_of (fst s)) = body_vars r"
      "snd s = map (ground_key I (fst s)) (positive_body r)" "set (snd s) \<subseteq> keys_of all"
    and inv: "deriving I ar R r all cs A acc"
  shows "runs (derive_state cfg r all n s acc) (permitted cfg) (deriving I ar R r all cs (insert s A))"
proof -
  obtain J cs' where acc: "acc = (J, cs')" by (cases acc)
  obtain b ps where s_eq: "s = (b, ps)" by (cases s)
  have J: "interner_ok J" "interner_le I J" "candidates_ok J ar R (facts_of I all) cs'"
    "candidate_keys cs \<subseteq> candidate_keys cs'"
    using inv by (simp_all add: deriving_def acc)
  have facts: "facts_of J all = facts_of I all" by (rule facts_of_mono [OF J(2) all])
  have key: "ground_key J b a = ground_key I b a" if "a \<in> set (positive_body r) \<union> set (negative_body r)" for a
    using ground_key_mono [OF J(2)] rule_ok_known [OF r(2) that] by blast
  have ps: "ps = map (ground_key J b) (positive_body r)" using s(3) key by (simp add: s_eq)
  have \<nu>: "\<forall>x\<in>body_vars r. val_of J b x = val_of I b x"
    using val_of_mono [OF J(2)] s(1,2) by (simp add: s_eq)
  have sub: "set ps \<subseteq> keys_of all" using s(4) by (simp add: s_eq)
  have step: "runs (derive_state cfg r all n (b, ps) (J, cs')) (permitted cfg) (\<lambda>(K, cs2). interner_ok K \<and> interner_le J K \<and>
    candidates_ok K ar R (facts_of J all) cs2 \<and> candidate_keys cs' \<subseteq> candidate_keys cs2 \<and>
    ((\<forall>a\<in>set (negative_body r). ground_key J b a \<notin> keys_of all) \<longrightarrow> derived K cs2 r (val_of I b)))"
    by (rule runs_derive_state [OF J(1) r(1) rule_ok_mono [OF J(2) r(2)] store_in_mono [OF J(2) all] _
          binding_ok_mono [OF J(2) s(1) [unfolded s_eq fst_conv]] s(2) [unfolded s_eq fst_conv] ps sub \<nu>])
      (simp add: facts J(3))
  show ?thesis
    unfolding acc s_eq
  proof (rule runs_weaken [OF step], goal_cases)
    case (2 p)
    obtain K cs2 where p: "p = (K, cs2)" by (cases p)
    with 2 have K: "interner_ok K" "interner_le J K" "candidates_ok K ar R (facts_of I all) cs2"
      "candidate_keys cs' \<subseteq> candidate_keys cs2"
      and new: "(\<forall>a\<in>set (negative_body r). ground_key I b a \<notin> keys_of all) \<longrightarrow> derived K cs2 r (val_of I b)"
      using facts key by auto
    have old: "derived K cs2 r (val_of I (fst s'))"
      if "s' \<in> A" "\<forall>a\<in>set (negative_body r). ground_key I (fst s') a \<notin> keys_of all" for s'
      by (rule derived_mono [OF J(1) K(2,4)]) (use inv that in \<open>auto simp: deriving_def acc\<close>)
    have "interner_le I K" by (rule interner_le_trans [OF J(2) K(2)])
    with K J(4) new old show ?case by (auto simp: deriving_def p)
  qed simp
qed

lemma solutions_positive_body:
  assumes "s \<in> solutions I pick (List.enumerate 0 (positive_body r))"
  shows "binding_ok I (fst s)" and "dom (map_of (fst s)) = body_vars r"
    and "snd s = map (ground_key I (fst s)) (positive_body r)"
    and "\<forall>p<length (positive_body r). ground_key I (fst s) (positive_body r ! p) \<in> pick p"
proof -
  have s: "snd s = map (\<lambda>(p, a). ground_key I (fst s) a) (List.enumerate 0 (positive_body r))"
    "\<forall>(p, a)\<in>set (List.enumerate 0 (positive_body r)). ground_key I (fst s) a \<in> pick p"
    and "binding_ok I (fst s)" and "dom (map_of (fst s)) = (\<Union>(p, a)\<in>set (List.enumerate 0 (positive_body r)). atom_vars a)"
    using assms unfolding in_solutions by blast+
  then show "binding_ok I (fst s)" and "dom (map_of (fst s)) = body_vars r"
    by (simp_all only: union_enumerate)
  have "map (\<lambda>(p, a). ground_key I (fst s) a) (List.enumerate 0 (positive_body r)) =
      map (ground_key I (fst s)) (map snd (List.enumerate 0 (positive_body r)))"
    by (simp only: map_map comp_def case_prod_unfold)
  with s(1) show "snd s = map (ground_key I (fst s)) (positive_body r)" by simp
  show "\<forall>p<length (positive_body r). ground_key I (fst s) (positive_body r ! p) \<in> pick p"
    using s(2) by (fastforce simp: in_set_enumerate_eq)
qed

definition store_at :: "RelationStore \<Rightarrow> RelationStore \<Rightarrow> nat option \<Rightarrow> nat \<Rightarrow> RelationStore" where
  "store_at all delta delta_position p = (if Some p = delta_position then delta else all)"

text \<open>
  Evaluating a rule adds its derivable heads, and only those, each with a valid derivation.
\<close>

lemma runs_evaluate_rule_join:
  assumes I: "interner_ok I" and r: "r \<in> R" "rule_ok I ar r" and all: "store_in I ar all"
    and delta: "store_in I ar delta" "keys_of delta \<subseteq> keys_of all"
    and cs: "candidates_ok I ar R (facts_of I all) cs"
  shows "runs (evaluate_rule_join cfg r dp all delta (I, cs)) (permitted cfg) (\<lambda>(J, cs'). interner_ok J \<and> interner_le I J \<and>
    candidates_ok J ar R (facts_of I all) cs' \<and> candidate_keys cs \<subseteq> candidate_keys cs' \<and>
    (\<forall>sk \<nu>. (\<forall>p<length (positive_body r). ground sk r \<nu> (positive_body r ! p) \<in> facts_of I (store_at all delta dp p)) \<longrightarrow>
       (\<forall>a\<in>set (negative_body r). ground sk r \<nu> a \<notin> facts_of I all) \<longrightarrow> derived J cs' r \<nu>))"
  (is "runs _ _ ?Q")
proof -
  let ?pas = "List.enumerate 0 (positive_body r)" and ?pick = "picked all delta dp"
  have st: "store_in I ar (store_at all delta dp p)" for p using all delta by (simp add: store_at_def)
  have pick: "?pick = (\<lambda>p. keys_of (store_at all delta dp p))" by (auto simp: picked_def store_at_def)
  have "?pick p \<subseteq> keys_of all" for p using delta(2) by (simp add: picked_def)
  then have sol: "set (snd s) \<subseteq> keys_of all" if "s \<in> solutions I ?pick ?pas" for s
    using solutions_positive_body(3,4) [OF that] by (fastforce simp: in_set_conv_nth)
  have complete: "\<exists>s\<in>solutions I ?pick ?pas. (\<forall>x\<in>body_vars r. val_of I (fst s) x = \<nu> x) \<and>
      (\<forall>a\<in>set (negative_body r). ground_key I (fst s) a \<notin> keys_of all)"
    if p: "\<forall>p<length (positive_body r). ground sk r \<nu> (positive_body r ! p) \<in> facts_of I (store_at all delta dp p)"
      and n: "\<forall>a\<in>set (negative_body r). ground sk r \<nu> a \<notin> facts_of I all" for sk \<nu>
  proof -
    let ?b = "binding_for I r \<nu>" and ?s = "(binding_for I r \<nu>, map (ground_key I (binding_for I r \<nu>)) (positive_body r))"
    note bf = binding_for_solution [OF I r(2) st p]
    have s: "?s \<in> solutions I ?pick ?pas" using bf(1) by (simp only: pick)
    note sb = solutions_positive_body [OF s, unfolded fst_conv]
    have "ground_key I ?b a \<notin> keys_of all" if a: "a \<in> set (negative_body r)" for a
    proof
      assume mem: "ground_key I ?b a \<in> keys_of all"
      have ka: "known I a" "atom_vars a \<subseteq> dom (map_of ?b)" using rule_ok_known [OF r(2)] a sb(2) by auto
      have "ground sk r (val_of I ?b) a = ground sk r \<nu> a"
        by (rule ground_cong) (use bf(2) r(2) a in \<open>auto simp: rule_ok_def rule_atoms_def\<close>)
      with ground_key_fact(2) [OF I sb(1) ka, of sk r] mem have "ground sk r \<nu> a \<in> facts_of I all"
        unfolding facts_of_def by (metis imageI)
      with n a show False by blast
    qed
    with bf(2) s show ?thesis by (intro bexI [of _ ?s]) auto
  qed
  have finish: "?Q acc" if d: "deriving I ar R r all cs (solutions I ?pick ?pas) acc" for acc
  proof -
    obtain J cs' where acc: "acc = (J, cs')" by (cases acc)
    have "derived J cs' r \<nu>"
      if "\<forall>p<length (positive_body r). ground sk r \<nu> (positive_body r ! p) \<in> facts_of I (store_at all delta dp p)"
        "\<forall>a\<in>set (negative_body r). ground sk r \<nu> a \<notin> facts_of I all" for sk \<nu>
      using complete [OF that] d derived_cong [of r] r(2)
      unfolding deriving_def acc prod.case rule_ok_def by blast
    with d show ?thesis by (auto simp: deriving_def acc)
  qed
  have start: "deriving I ar R r all cs {} (I, cs)" using I cs by (simp add: deriving_def)
  have body: "runs (join_body cfg all delta dp I ?pas ([([], [])], n)) (permitted cfg) (\<lambda>j. case j of
     None \<Rightarrow> solutions I ?pick ([] @ ?pas) = {}
   | Some acc \<Rightarrow> set (fst acc) = solutions I ?pick ([] @ ?pas))" for n
    by (rule runs_join_body [OF I all delta(1)])
      (use rule_ok_known [OF r(2)] in \<open>auto simp: solutions_Nil in_set_enumerate_eq\<close>)
  show ?thesis
    unfolding evaluate_rule_join_def Let_def fst_conv
  proof (intro runs_after_charge, rule runs_bind [OF body], goal_cases)
    case (1 j)
    show ?case
    proof (cases j)
      case None
      with 1 start finish [of "(I, cs)"] show ?thesis by simp
    next
      case (Some p)
      obtain states n where p: "p = (states, n)" by (cases p)
      with 1 Some have states: "set states = solutions I ?pick ?pas" by simp
      have "runs (for_each (derive_state cfg r all n) states (I, cs)) (permitted cfg)
          (deriving I ar R r all cs (solutions I ?pick ?pas))"
      proof (rule runs_for_each [where I = "deriving I ar R r all cs"], rule start, goal_cases)
        case (1 A s acc)
        then have s: "s \<in> solutions I ?pick ?pas" using states by simp
        show ?case
          by (rule runs_derive_step [OF I r all solutions_positive_body(1-3) [OF s] sol [OF s] 1(3)])
      qed (simp add: states)
      then show ?thesis
        unfolding Some p option.case prod.case
        by (rule runs_bind) (use finish in \<open>auto intro!: runs_guard\<close>)
    qed
  qed
qed

end
