(* ===== verification/Datalog_Correct.thy ===== *)
theory Datalog_Correct
  imports Datalog_Engine Datalog_Derive
begin

text \<open>
  Correctness of the engine: commits, rounds, strata and the whole evaluation. The loop state of the
  engine is related to the sets of facts of semi-naive evaluation.
\<close>

section \<open>Commits\<close>

text \<open>What a sequence of commits does to provenance: the new keys \<open>N\<close> get the derivations of \<open>m\<close>.\<close>

definition provenance_extends ::
  "Interner \<Rightarrow> FactKey set \<Rightarrow> (FactKey \<Rightarrow> Derivation option) \<Rightarrow> Provenance option \<Rightarrow> Provenance option \<Rightarrow> bool" where
  "provenance_extends I N m p p' \<longleftrightarrow> (case (p, p') of
     (None, None) \<Rightarrow> True
   | (Some p, Some p') \<Rightarrow>
       dom (derivation_of p') = dom (derivation_of p) \<union> fact_of I ` N \<and>
       (\<forall>f d. derivation_of p' f = Some d \<longrightarrow> derivation_of p f = Some d \<or> (\<exists>k\<in>N. m k = Some d \<and> f = fact_of I k))
   | _ \<Rightarrow> False)"

definition committed ::
  "Config \<Rightarrow> Interner \<Rightarrow> (RelationId \<Rightarrow> nat option) \<Rightarrow> (FactKey \<Rightarrow> Derivation option) \<Rightarrow> commit_state \<Rightarrow>
   FactKey set \<Rightarrow> commit_state \<Rightarrow> bool" where
  "committed cfg I ar m st K st' \<longleftrightarrow> (case (st, st') of ((all, delta, p), (all', delta', p')) \<Rightarrow>
     store_in I ar all' \<and> store_in I ar delta' \<and>
     keys_of all' = keys_of all \<union> K \<and> keys_of delta' = keys_of delta \<union> (K - keys_of all) \<and>
     provenance_extends I (K - keys_of all) m p p' \<and>
     (store_len all \<le> max_facts (cfg_limits cfg) \<longrightarrow> store_len all' \<le> max_facts (cfg_limits cfg)))"

lemma finite_keys_of: "store_ok ar st \<Longrightarrow> finite (keys_of st)"
  using set_store_keys [of ar st] by (metis List.finite_set)

lemma store_in_insert:
  assumes "store_in I ar st" and "key_ok I k" and "arity_ok ar k"
  shows "\<exists>st'. insert_key cfg k st = Some (k \<notin> keys_of st, st') \<and> store_in I ar st' \<and> keys_of st' = insert k (keys_of st)"
  using insert_key_ok [of ar st k cfg] assms by (auto simp: store_in_def)

lemma runs_commit_candidate:
  assumes m: "m k = Some d" and k: "key_ok I k" "arity_ok ar k"
    and inv: "committed cfg I ar m st K acc"
  shows "runs (commit_candidate cfg target I (k, d) acc) (permitted cfg) (committed cfg I ar m st (insert k K))"
proof -
  obtain all delta p where st: "st = (all, delta, p)" by (cases st)
  obtain all1 delta1 p1 where acc: "acc = (all1, delta1, p1)" by (cases acc)
  note c = inv [unfolded committed_def st acc prod.case]
  show ?thesis
  proof (cases "k \<in> keys_of all1")
    case True
    then have "k \<in> keys_of all \<union> K" using c by simp
    then have "keys_of all \<union> insert k K = keys_of all \<union> K" and "insert k K - keys_of all = K - keys_of all \<union> ({k} \<inter> K - keys_of all)"
      by auto
    moreover then have "insert k K - keys_of all = K - keys_of all" by blast
    ultimately have "committed cfg I ar m st (insert k K) acc"
      using c unfolding committed_def st acc prod.case by simp
    with True show ?thesis
      unfolding commit_candidate_def acc prod.case by (auto intro!: runs_after_check)
  next
    case False
    then have new: "k \<notin> keys_of all" "k \<notin> K" using c by auto
    then have N: "insert k K - keys_of all = insert k (K - keys_of all)" by blast
    obtain all2 where all2: "insert_key cfg k all1 = Some (k \<notin> keys_of all1, all2)" "store_in I ar all2"
      "keys_of all2 = insert k (keys_of all1)"
      using store_in_insert [of I ar all1 k cfg] c k by auto
    obtain delta2 where delta2: "insert_key cfg k delta1 = Some (k \<notin> keys_of delta1, delta2)" "store_in I ar delta2"
      "keys_of delta2 = insert k (keys_of delta1)"
      using store_in_insert [of I ar delta1 k cfg] c k by auto
    have len: "store_len all2 = Suc (store_len all1)"
      using False all2 c store_len_card [of ar] finite_keys_of [of ar all1] by (simp add: store_in_def)
    have finish: "committed cfg I ar m st (insert k K) (all2, delta2, p2)"
      if "store_len all1 < max_facts (cfg_limits cfg)" "provenance_extends I (insert k (K - keys_of all)) m p p2" for p2
      using c all2 delta2 that len unfolding committed_def st prod.case N by auto
    have dec: "runs (bind (decode_fact I k) (\<lambda>f. ok (Some f))) E (\<lambda>f. f = Some (fact_of I k))" for E
      by (rule runs_bind [OF runs_decode_fact [OF k(1)]]) simp
    show ?thesis
    proof (cases p1)
      case None
      then have "provenance_extends I (insert k (K - keys_of all)) m p None"
        using c by (auto simp: provenance_extends_def split: option.splits)
      with finish show ?thesis
        unfolding commit_candidate_def acc prod.case None option.case
        by (intro runs_after_check runs_if runs_after_set_memory) (auto simp: False all2 delta2 not_le intro!: runs_after_observe)
    next
      case (Some q)
      then obtain q0 where q0: "p = Some q0"
        using c by (auto simp: provenance_extends_def split: option.splits)
      have "provenance_extends I (insert k (K - keys_of all)) m p (Some (Provenance_insert cfg (fact_of I k) d q))"
        using c m unfolding provenance_extends_def q0 Some prod.case option.case
        by (auto simp: derivation_of_insert dom_def)
      with finish show ?thesis
        unfolding commit_candidate_def acc prod.case Some option.case
        by (intro runs_after_check runs_if runs_after_set_memory)
          (auto simp: False all2 delta2 not_le Let_def intro!: runs_bind [OF dec] runs_guard)
    qed
  qed
qed

lemma runs_commit_candidates:
  assumes cs: "candidates_ok I ar R F cs" and all: "store_in I ar all" and delta: "store_in I ar delta"
  shows "runs (commit_candidates cfg target I cs (all, delta, p)) (permitted cfg)
    (committed cfg I ar (map_of (entries cs)) (all, delta, p) (candidate_keys cs))"
proof -
  have wf: "btm_wf (entries cs)" using cs by (simp add: candidates_ok_def)
  have entry: "map_of (entries cs) k = Some d \<and> key_ok I k \<and> arity_ok ar k" if "(k, d) \<in> set (entries cs)" for k d
    using cs map_of_is_SomeI [OF btm_wf_distinct [OF wf] that] unfolding candidates_ok_def by blast
  have start: "committed cfg I ar (map_of (entries cs)) (all, delta, p) (fst ` {}) (all, delta, p)"
    using all delta by (auto simp: committed_def provenance_extends_def split: option.splits)
  have "runs (for_each (commit_candidate cfg target I) (entries cs) (all, delta, p)) (permitted cfg)
      (committed cfg I ar (map_of (entries cs)) (all, delta, p) (fst ` set (entries cs)))"
  proof (rule runs_for_each [where I = "\<lambda>A. committed cfg I ar (map_of (entries cs)) (all, delta, p) (fst ` A)"],
      rule start, goal_cases)
    case (1 A x acc)
    obtain k d where x: "x = (k, d)" by (cases x)
    with 1 entry show ?case by (simp add: runs_commit_candidate)
  qed simp
  then show ?thesis
    unfolding commit_candidates_def
    by (rule runs_bind) (auto simp: dom_map_of_conv_image_fst intro!: runs_guard)
qed

lemma map_of_filter_keys: "map_of (filter (\<lambda>(k, d). k \<notin> A) m) k = (if k \<in> A then None else map_of m k)"
  by (induction m) auto

lemma runs_retain_new:
  assumes "candidates_ok I ar R F cs"
  shows "runs (retain_new cfg all cs) (permitted cfg) (\<lambda>cs'. candidates_ok I ar R F cs' \<and>
    candidate_keys cs' = candidate_keys cs - keys_of all)"
proof -
  let ?kept = "filter (\<lambda>(k, d). k \<notin> keys_of all) (entries cs)"
  have wf: "btm_wf (entries cs)" using assms by (simp add: candidates_ok_def)
  have "map fst ?kept = filter (\<lambda>k. k \<notin> keys_of all) (map fst (entries cs))"
    by (simp add: filter_map comp_def case_prod_unfold)
  then have "btm_wf ?kept" using wf by (simp add: btm_wf_def sorted_wrt_filter)
  moreover have look: "map_of ?kept k = (if k \<in> keys_of all then None else map_of (entries cs) k)" for k
    by (rule map_of_filter_keys)
  ultimately have "candidates_ok I ar R F \<lparr>entries = ?kept, candidates_bytes = n\<rparr>" for n
    using assms by (auto simp: candidates_ok_def split: if_splits)
  moreover have "dom (map_of ?kept) = candidate_keys cs - keys_of all" by (auto simp: look dom_def)
  ultimately show ?thesis
    unfolding retain_new_def Let_def contains_key_iff by (intro runs_guard runs_ok) auto
qed

section \<open>The state of a stratum\<close>

definition level :: "ValidatedProgram \<Rightarrow> RelationId \<Rightarrow> nat" where
  "level vp = stratum_or_0 (vp_strata vp)"

lemma vp_stratum_level:
  assumes "vp_ok vp" and "r \<in> program_relations (vp_rules vp)"
  shows "vp_stratum vp r = Some (level vp r)"
proof -
  have "r \<in> dom (map_of (vp_strata vp))" using assms by (simp add: vp_ok_def)
  then show ?thesis by (auto simp: vp_stratum_def level_def stratum_or_0_def)
qed

lemma atom_relation_in_program:
  "r \<in> set (vp_rules vp) \<Longrightarrow> a \<in> set (rule_atoms r) \<Longrightarrow> relation a \<in> program_relations (vp_rules vp)"
  by (auto simp: program_relations_def)

lemma rules_at_level:
  assumes "vp_ok vp" and "r \<in> rules_at vp s"
  shows "level vp (relation (head r)) = s" and "rule_stratified (level vp) r" and "r \<in> set (vp_rules vp)"
proof -
  show r: "r \<in> set (vp_rules vp)" using assms(2) by (simp add: rules_at_def)
  show "level vp (relation (head r)) = s" using assms(2) by (simp add: rules_at_def level_def vp_stratum_def stratum_or_0_def)
  show "rule_stratified (level vp) r" using assms(1) r by (simp add: vp_ok_def level_def)
qed

lemma levels_ok_rules_at: "vp_ok vp \<Longrightarrow> levels_ok (level vp) (rules_at vp)"
  by (auto simp: levels_ok_def rules_at_level)

text \<open>The fixed surroundings of an evaluation: the program, the arities and the initial interner.\<close>

definition world :: "Interner \<Rightarrow> (RelationId \<Rightarrow> nat option) \<Rightarrow> ValidatedProgram \<Rightarrow> bool" where
  "world I0 ar vp \<longleftrightarrow> vp_ok vp \<and> (\<forall>r\<in>set (vp_rules vp). rule_ok I0 ar r) \<and>
     (\<forall>r n. map_of (vp_arities vp) r = Some n \<longrightarrow> ar r = Some n)"

definition prov_inv :: "naming \<Rightarrow> ValidatedProgram \<Rightarrow> nat \<Rightarrow> Fact set \<Rightarrow> Fact set \<Rightarrow> Provenance option \<Rightarrow> bool" where
  "prov_inv sk vp s base F prov \<longleftrightarrow> (case prov of None \<Rightarrow> True | Some p \<Rightarrow>
     dom (derivation_of p) = F - base \<and> (\<forall>f d. derivation_of p f = Some d \<longrightarrow>
       valid_derivation sk {r \<in> set (vp_rules vp). level vp (relation (head r)) \<le> s} F d f))"

text \<open>Facts of the current level do not disturb negated premises of rules up to that level.\<close>

lemma valid_derivation_mono:
  assumes vp: "vp_ok vp" and "F \<subseteq> F'" and new: "\<And>f. f \<in> F' - F \<Longrightarrow> s \<le> level vp (fact_relation f)"
    and d: "valid_derivation sk R F d f" and R: "R \<subseteq> {r \<in> set (vp_rules vp). level vp (relation (head r)) \<le> s}"
  shows "valid_derivation sk {r \<in> set (vp_rules vp). level vp (relation (head r)) \<le> s} F' d f"
proof -
  obtain r \<nu> where r: "r \<in> R" and b: "body_holds sk r \<nu> F F" and rest: "f = ground sk r \<nu> (head r)"
    "der_rule_id d = rule_id r" "der_rule_source d = rule_source r"
    "mset (der_premises d) = mset (map (ground sk r \<nu>) (positive_body r))"
    "mset (der_absent d) = mset (map (ground sk r \<nu>) (negative_body r))"
    using d unfolding valid_derivation_def by blast
  have rs: "rule_stratified (level vp) r" and lv: "level vp (relation (head r)) \<le> s"
    using R r vp by (auto simp: vp_ok_def level_def)
  have "ground sk r \<nu> a \<notin> F'" if a: "a \<in> set (negative_body r)" for a
  proof
    assume "ground sk r \<nu> a \<in> F'"
    moreover have "ground sk r \<nu> a \<notin> F" using b a by (auto simp: body_holds_def)
    ultimately have "s \<le> level vp (relation a)" using new [of "ground sk r \<nu> a"] by simp
    with rs a lv show False by (force simp: rule_stratified_def)
  qed
  then have "body_holds sk r \<nu> F' F'" using b \<open>F \<subseteq> F'\<close> unfolding body_holds_def by blast
  with r R rest show ?thesis unfolding valid_derivation_def by blast
qed

text \<open>
  Retaining and committing candidates, at the level of facts: \<open>N\<close> are the candidate facts.
\<close>

definition candidate_facts :: "Interner \<Rightarrow> CandidateSet \<Rightarrow> Fact set" where
  "candidate_facts I cs = fact_of I ` candidate_keys cs"

lemma candidate_facts_new:
  assumes "candidates_ok I ar R F cs" and "store_in I ar all"
  shows "candidate_facts I cs - facts_of I all = fact_of I ` (candidate_keys cs - keys_of all)"
proof -
  have "key_ok I k" if "k \<in> candidate_keys cs" for k
    using assms(1) that unfolding candidates_ok_def by blast
  then have "fact_of I k \<in> facts_of I all \<longleftrightarrow> k \<in> keys_of all" if "k \<in> candidate_keys cs" for k
    using that fact_of_in_facts_of [OF assms(2)] by blast
  then show ?thesis unfolding candidate_facts_def by blast
qed

lemma candidates_valid:
  assumes "candidates_ok I ar R F cs" and "sk_agrees sk I" and "f \<in> candidate_facts I cs"
  shows "\<exists>d. valid_derivation sk R F d f"
  using assms unfolding candidates_ok_def candidate_facts_def by blast

lemma prov_inv_commit:
  assumes vp: "vp_ok vp" and cs: "candidates_ok I ar (rules_at vp s) F cs" and sk: "sk_agrees sk I"
    and N: "N = fact_of I ` candidate_keys cs" "N \<inter> F = {}" and "base \<subseteq> F"
    and inv: "prov_inv sk vp s base F p"
    and ext: "provenance_extends I (candidate_keys cs) (map_of (entries cs)) p p'"
  shows "prov_inv sk vp s base (F \<union> N) p'"
proof (cases p')
  case None
  then show ?thesis by (simp add: prov_inv_def)
next
  case (Some q')
  then obtain q where p: "p = Some q" using ext by (auto simp: provenance_extends_def split: option.splits)
  let ?R = "{r \<in> set (vp_rules vp). level vp (relation (head r)) \<le> s}"
  have R: "rules_at vp s \<subseteq> ?R" using rules_at_level [OF vp] by auto
  have lvl: "s \<le> level vp (fact_relation f)" if f: "f \<in> (F \<union> N) - F" for f
  proof -
    obtain d where "valid_derivation sk (rules_at vp s) F d f"
      using candidates_valid [OF cs sk, of f] N f by (auto simp: candidate_facts_def)
    then show ?thesis using rules_at_level(1) [OF vp] by (auto simp: valid_derivation_def)
  qed
  have mono: "valid_derivation sk ?R (F \<union> N) d f" if "valid_derivation sk R F d f" "R \<subseteq> ?R" for R d f
    by (rule valid_derivation_mono [OF vp Un_upper1 _ that]) (rule lvl)
  have "valid_derivation sk ?R (F \<union> N) d f" if d: "derivation_of q' f = Some d" for f d
  proof -
    consider "derivation_of q f = Some d" | k where "k \<in> candidate_keys cs" "map_of (entries cs) k = Some d" "f = fact_of I k"
      using ext d unfolding provenance_extends_def p Some prod.case option.case by blast
    then show ?thesis
    proof cases
      case 1
      with inv have "valid_derivation sk ?R F d f" by (simp add: prov_inv_def p)
      then show ?thesis by (rule mono) simp_all
    next
      case 2
      with cs sk have "valid_derivation sk (rules_at vp s) F d f" unfolding candidates_ok_def by blast
      then show ?thesis by (rule mono) (simp_all add: R)
    qed
  qed
  moreover have "dom (derivation_of q') = (F \<union> N) - base"
    using ext inv N \<open>base \<subseteq> F\<close> unfolding provenance_extends_def prov_inv_def p Some by auto
  ultimately show ?thesis by (simp add: prov_inv_def Some)
qed

definition stratum_inv ::
  "Config \<Rightarrow> Interner \<Rightarrow> (RelationId \<Rightarrow> nat option) \<Rightarrow> ValidatedProgram \<Rightarrow> nat \<Rightarrow> Fact set \<Rightarrow> Fact set \<Rightarrow>
   stratum_state \<Rightarrow> bool" where
  "stratum_inv cfg I0 ar vp s base L st \<longleftrightarrow> (case st of (I, all, delta, prov) \<Rightarrow>
     interner_ok I \<and> interner_le I0 I \<and> store_in I ar all \<and> store_in I ar delta \<and>
     keys_of delta \<subseteq> keys_of all \<and> (\<forall>k\<in>keys_of delta. vp_stratum vp (fst k) = Some s) \<and>
     store_len all \<le> max_facts (cfg_limits cfg) \<and> (prov = None \<longleftrightarrow> \<not> track_provenance (options cfg)) \<and>
     (\<forall>sk. sk_agrees sk I \<longrightarrow> seminaive sk (rules_at vp s) L (facts_of I all) (facts_of I delta) \<and>
        prov_inv sk vp s base (facts_of I all) prov))"

text \<open>
  In the state of a stratum, negation may be read in the current facts: they agree with the lower
  strata on lower relations.
\<close>

lemma body_holds_current:
  assumes vp: "vp_ok vp" and r: "r \<in> rules_at vp s" and "L \<subseteq> A" and "A \<subseteq> stratum_model sk (rules_at vp s) L"
  shows "body_holds sk r \<nu> P A \<longleftrightarrow> body_holds sk r \<nu> P L"
proof -
  have "ground sk r \<nu> a \<in> L" if a: "a \<in> set (negative_body r)" and m: "ground sk r \<nu> a \<in> A" for a
  proof (rule ccontr)
    assume "ground sk r \<nu> a \<notin> L"
    with m assms(4) obtain q where "q \<in> rules_at vp s" "relation a = relation (head q)"
      using stratum_model_new [of "ground sk r \<nu> a" sk "rules_at vp s" L] by auto
    then have "level vp (relation a) = s" using rules_at_level(1) [OF vp] by simp
    moreover have "level vp (relation a) < s"
      using rules_at_level(1,2) [OF vp r] a by (auto simp: rule_stratified_def)
    ultimately show False by simp
  qed
  with \<open>L \<subseteq> A\<close> show ?thesis unfolding body_holds_def by blast
qed

lemma runs_commit_new:
  assumes vp: "vp_ok vp" and cs: "candidates_ok I ar (rules_at vp s) (facts_of I all) cs"
    and new: "candidate_keys cs \<inter> keys_of all = {}" and all: "store_in I ar all" and delta: "store_in I ar delta"
    and len: "store_len all \<le> max_facts (cfg_limits cfg)" and base: "base \<subseteq> facts_of I all"
    and prov: "\<And>sk. sk_agrees sk I \<Longrightarrow> prov_inv sk vp s base (facts_of I all) p"
  shows "runs (commit_candidates cfg target I cs (all, delta, p)) (permitted cfg) (\<lambda>(all', delta', p').
    store_in I ar all' \<and> store_in I ar delta' \<and> keys_of all' = keys_of all \<union> candidate_keys cs \<and>
    keys_of delta' = keys_of delta \<union> candidate_keys cs \<and> facts_of I all' = facts_of I all \<union> candidate_facts I cs \<and>
    facts_of I delta' = facts_of I delta \<union> candidate_facts I cs \<and> store_len all' \<le> max_facts (cfg_limits cfg) \<and>
    (p' = None \<longleftrightarrow> p = None) \<and>
    (\<forall>sk. sk_agrees sk I \<longrightarrow> prov_inv sk vp s base (facts_of I all \<union> candidate_facts I cs) p'))"
proof (rule runs_weaken [OF runs_commit_candidates [OF cs all delta]], goal_cases)
  case (2 st')
  obtain all' delta' p' where st': "st' = (all', delta', p')" by (cases st')
  have diff: "candidate_keys cs - keys_of all = candidate_keys cs" using new by blast
  have c: "store_in I ar all'" "store_in I ar delta'" "keys_of all' = keys_of all \<union> candidate_keys cs"
    "keys_of delta' = keys_of delta \<union> candidate_keys cs" "store_len all' \<le> max_facts (cfg_limits cfg)"
    and ext: "provenance_extends I (candidate_keys cs) (map_of (entries cs)) p p'"
    using 2 len unfolding committed_def st' prod.case diff by auto
  have disj: "candidate_facts I cs \<inter> facts_of I all = {}"
    using candidate_facts_new [OF cs all] by (auto simp: diff candidate_facts_def)
  have "prov_inv sk vp s base (facts_of I all \<union> candidate_facts I cs) p'" if "sk_agrees sk I" for sk
    by (rule prov_inv_commit [OF vp cs that _ disj base prov [OF that] ext]) (simp add: candidate_facts_def)
  moreover have "p' = None \<longleftrightarrow> p = None" using ext by (auto simp: provenance_extends_def split: option.splits)
  ultimately show ?case
    using c by (auto simp: st' facts_of_def candidate_facts_def image_Un)
qed simp

section \<open>Rules of a round\<close>

text \<open>
  The accumulator of the loops over rules, started at the interner \<open>I\<close>: for the pairs \<open>D\<close> of rules
  and positions handled so far, every instance with a delta fact at that position is derived.
\<close>

definition round_acc ::
  "Interner \<Rightarrow> (RelationId \<Rightarrow> nat option) \<Rightarrow> Rule set \<Rightarrow> RelationStore \<Rightarrow> RelationStore \<Rightarrow> (Rule \<times> nat) set \<Rightarrow>
   Interner \<times> CandidateSet \<Rightarrow> bool" where
  "round_acc I ar R all delta D acc \<longleftrightarrow> (case acc of (J, cs) \<Rightarrow> interner_ok J \<and> interner_le I J \<and>
     candidates_ok J ar R (facts_of I all) cs \<and>
     (\<forall>(r, p)\<in>D. \<forall>sk \<nu>. body_holds sk r \<nu> (facts_of I all) (facts_of I all) \<longrightarrow>
        ground sk r \<nu> (positive_body r ! p) \<in> facts_of I delta \<longrightarrow> derived J cs r \<nu>))"

lemma round_acc_skip:
  assumes "round_acc I ar R all delta D acc"
    and "\<And>sk \<nu>. ground sk r \<nu> (positive_body r ! p) \<notin> facts_of I delta"
  shows "round_acc I ar R all delta (insert (r, p) D) acc"
  using assms by (auto simp: round_acc_def)

lemma runs_round_rule:
  assumes r: "r \<in> R" "rule_ok I ar r" and p: "p < length (positive_body r)"
    and all: "store_in I ar all" and delta: "store_in I ar delta" "keys_of delta \<subseteq> keys_of all"
    and acc: "round_acc I ar R all delta D acc"
  shows "runs (evaluate_rule cfg r p all delta acc) (permitted cfg) (round_acc I ar R all delta (insert (r, p) D))"
proof -
  obtain J cs where acc_eq: "acc = (J, cs)" by (cases acc)
  have J: "interner_ok J" "interner_le I J" "candidates_ok J ar R (facts_of I all) cs"
    and old: "\<And>r p sk \<nu>. (r, p) \<in> D \<Longrightarrow> body_holds sk r \<nu> (facts_of I all) (facts_of I all) \<Longrightarrow>
        ground sk r \<nu> (positive_body r ! p) \<in> facts_of I delta \<Longrightarrow> derived J cs r \<nu>"
    using acc unfolding round_acc_def acc_eq prod.case by blast+
  have F: "facts_of J all = facts_of I all" "facts_of J delta = facts_of I delta"
    using facts_of_mono [OF J(2)] all delta(1) by blast+
  have at: "facts_of J (store_at all delta (Some p) q) = facts_of I (store_at all delta (Some p) q)" for q
    by (simp add: store_at_def F)
  note eval = runs_evaluate_rule_join [OF J(1) r(1) rule_ok_mono [OF J(2) r(2)] store_in_mono [OF J(2) all]
      store_in_mono [OF J(2) delta(1)] delta(2) J(3) [folded F(1)], where cfg = cfg and dp = "Some p", unfolded F at]
  show ?thesis
    unfolding evaluate_rule_def acc_eq
  proof (rule runs_weaken [OF eval], goal_cases)
    case (2 acc')
    obtain K cs' where acc': "acc' = (K, cs')" by (cases acc')
    have K: "interner_ok K" "interner_le J K" "candidates_ok K ar R (facts_of I all) cs'"
      "candidate_keys cs \<subseteq> candidate_keys cs'"
      and new: "\<And>sk \<nu>. (\<forall>q<length (positive_body r). ground sk r \<nu> (positive_body r ! q) \<in>
          facts_of I (store_at all delta (Some p) q)) \<Longrightarrow>
         (\<forall>a\<in>set (negative_body r). ground sk r \<nu> a \<notin> facts_of I all) \<Longrightarrow> derived K cs' r \<nu>"
      using 2 unfolding acc' prod.case by blast+
    have "derived K cs' r \<nu>" if "body_holds sk r \<nu> (facts_of I all) (facts_of I all)"
      "ground sk r \<nu> (positive_body r ! p) \<in> facts_of I delta" for sk \<nu>
      by (rule new [of sk]) (use that in \<open>auto simp: body_holds_def store_at_def\<close>)
    moreover have "derived K cs' q \<nu>" if "(q, n) \<in> D" "body_holds sk q \<nu> (facts_of I all) (facts_of I all)"
      "ground sk q \<nu> (positive_body q ! n) \<in> facts_of I delta" for q n sk \<nu>
      by (rule derived_mono [OF J(1) K(2,4) old [OF that]])
    moreover have "interner_le I K" by (rule interner_le_trans [OF J(2) K(2)])
    ultimately show ?case using K unfolding round_acc_def acc' prod.case by blast
  qed simp
qed

lemma runs_evaluate_delta_rule:
  assumes r: "r \<in> R" "rule_ok I ar r"
    and all: "store_in I ar all" and delta: "store_in I ar delta" "keys_of delta \<subseteq> keys_of all"
      "\<forall>k\<in>keys_of delta. vp_stratum vp (fst k) = Some s"
    and acc: "round_acc I ar R all delta D acc"
  shows "runs (evaluate_delta_rule cfg vp s all delta r acc) (permitted cfg)
    (round_acc I ar R all delta (D \<union> {r} \<times> {..<length (positive_body r)}))"
  unfolding evaluate_delta_rule_def
proof (rule runs_for_each [where I = "\<lambda>A. round_acc I ar R all delta (D \<union> {r} \<times> fst ` A)"], goal_cases)
  case (2 A x acc)
  obtain p a where x: "x = (p, a)" by (cases x)
  have p: "p < length (positive_body r)" "positive_body r ! p = a"
    using 2(1) by (auto simp: x in_set_enumerate_eq)
  have ins: "D \<union> {r} \<times> fst ` insert x A = insert (r, p) (D \<union> {r} \<times> fst ` A)" by (auto simp: x)
  have key: "\<exists>k\<in>keys_of delta. fst k = relation a" if f: "ground sk r \<nu> a \<in> facts_of I delta" for sk \<nu>
  proof -
    obtain k where "k \<in> keys_of delta" "fact_of I k = ground sk r \<nu> a" using f by (auto simp: facts_of_def)
    then show ?thesis by (intro bexI [of _ k]) (simp_all add: fact_of_def ground_def Fact_new_def)
  qed
  note skip = round_acc_skip [OF 2(3), of r p, unfolded p(2)]
  show ?case
    unfolding x prod.case ins [unfolded x]
  proof (intro runs_if runs_ok, goal_cases)
    case 1
    then show ?case using skip key delta(3) by metis
  next
    case 2
    have "k \<notin> keys_of delta" if "fst k = relation a" for k
      using 2 that by (auto simp: keys_of_def store_relation_def RelationData_is_empty_def split: option.splits)
    then show ?case using skip key by metis
  next
    case 3
    show ?case by (rule runs_round_rule [OF r p(1) all delta(1,2) \<open>round_acc I ar R all delta (D \<union> {r} \<times> fst ` A) acc\<close>])
  qed
next
  case (3 acc)
  have "fst ` set (List.enumerate 0 (positive_body r)) = {..<length (positive_body r)}"
    by (simp add: lessThan_atLeast0 flip: set_map)
  with 3 show ?case by simp
qed (use acc in simp)

section \<open>A semi-naive round\<close>

lemma set_rules_in: "set (rules_in vp s) = rules_at vp s"
  by (auto simp: rules_in_def rules_at_def)

lemma world_rule_ok:
  "world I0 ar vp \<Longrightarrow> interner_le I0 I \<Longrightarrow> r \<in> rules_at vp s \<Longrightarrow> rule_ok I ar r"
  by (rule rule_ok_mono) (auto simp: world_def rules_at_def)

lemma world_store_new:
  assumes "world I0 ar vp"
  shows "store_in I ar (RelationStore_new cfg (vp_arities vp))" and "keys_of (RelationStore_new cfg (vp_arities vp)) = {}"
  using store_ok_new [of "vp_arities vp" ar cfg] assms by (auto simp: world_def vp_ok_def store_in_def)

lemma candidates_ok_new: "candidates_ok I ar R F (CandidateSet_new cfg)" and "candidate_keys (CandidateSet_new cfg) = {}"
  by (simp_all add: candidates_ok_def CandidateSet_new_def)

text \<open>A candidate derived by a rule of the stratum has a relation of the stratum.\<close>

lemma candidate_stratum:
  assumes "candidates_ok I ar (rules_at vp s) F cs" and "k \<in> candidate_keys cs"
  shows "vp_stratum vp (fst k) = Some s"
proof -
  obtain d where d: "map_of (entries cs) k = Some d" using assms(2) by auto
  define sk where "sk = (\<lambda>key. interned I ! the (map_of (generated I) key))"
  have "sk_agrees sk I" by (simp add: sk_agrees_def sk_def)
  with assms(1) d have "valid_derivation sk (rules_at vp s) F d (fact_of I k)"
    unfolding candidates_ok_def by blast
  then obtain r \<nu> where "r \<in> rules_at vp s" "fact_of I k = ground sk r \<nu> (head r)"
    unfolding valid_derivation_def by blast
  then show ?thesis by (simp add: rules_at_def fact_of_def ground_def Fact_new_def)
qed

lemma derived_fact: "derived I cs r \<nu> \<Longrightarrow> sk_agrees sk I \<Longrightarrow> ground sk r \<nu> (head r) \<in> candidate_facts I cs"
  unfolding derived_def candidate_facts_def by (metis imageI)

lemma candidates_derivable:
  assumes "vp_ok vp" and "candidates_ok I ar (rules_at vp s) A cs" and "sk_agrees sk I"
    and "L \<subseteq> A" and "A \<subseteq> stratum_model sk (rules_at vp s) L"
  shows "candidate_facts I cs \<subseteq> derivable sk (rules_at vp s) A L"
proof
  fix f
  assume "f \<in> candidate_facts I cs"
  then obtain d where "valid_derivation sk (rules_at vp s) A d f" using candidates_valid assms(2,3) by blast
  then obtain r \<nu> where "r \<in> rules_at vp s" "f = ground sk r \<nu> (head r)" "body_holds sk r \<nu> A A"
    unfolding valid_derivation_def by blast
  then show "f \<in> derivable sk (rules_at vp s) A L"
    using body_holds_current [OF assms(1) _ assms(4,5)] unfolding derivable_def by blast
qed

text \<open>
  Retaining the new candidates and committing them: the facts grow by the candidate facts, the delta
  by the new ones among them.
\<close>

definition grown ::
  "Config \<Rightarrow> Interner \<Rightarrow> (RelationId \<Rightarrow> nat option) \<Rightarrow> ValidatedProgram \<Rightarrow> nat \<Rightarrow> Fact set \<Rightarrow> CandidateSet \<Rightarrow>
   commit_state \<Rightarrow> commit_state \<Rightarrow> bool" where
  "grown cfg I ar vp s base cs st st' \<longleftrightarrow> (case (st, st') of ((all, delta, p), (all', delta', p')) \<Rightarrow>
     store_in I ar all' \<and> store_in I ar delta' \<and> keys_of all' = keys_of all \<union> candidate_keys cs \<and>
     keys_of delta' = keys_of delta \<union> (candidate_keys cs - keys_of all) \<and>
     facts_of I all' = facts_of I all \<union> candidate_facts I cs \<and>
     facts_of I delta' = facts_of I delta \<union> (candidate_facts I cs - facts_of I all) \<and>
     store_len all' \<le> max_facts (cfg_limits cfg) \<and> (p' = None \<longleftrightarrow> p = None) \<and>
     (\<forall>sk. sk_agrees sk I \<longrightarrow> prov_inv sk vp s base (facts_of I all') p'))"

lemma runs_retain_commit:
  assumes vp: "vp_ok vp" and cs: "candidates_ok I ar (rules_at vp s) (facts_of I all) cs"
    and all: "store_in I ar all" and delta: "store_in I ar delta"
    and len: "store_len all \<le> max_facts (cfg_limits cfg)" and base: "base \<subseteq> facts_of I all"
    and prov: "\<And>sk. sk_agrees sk I \<Longrightarrow> prov_inv sk vp s base (facts_of I all) p"
    and rest: "\<And>st'. grown cfg I ar vp s base cs (all, delta, p) st' \<Longrightarrow> runs (k st') (permitted cfg) Q"
  shows "runs (bind (retain_new cfg all cs) (\<lambda>cs. bind (commit_candidates cfg target I cs (all, delta, p)) k)) (permitted cfg) Q"
proof (rule runs_bind [OF runs_retain_new [OF cs]], elim conjE, goal_cases)
  case (1 cs')
  have new: "candidate_keys cs' \<inter> keys_of all = {}" using 1(2) by blast
  have N: "candidate_facts I cs' = candidate_facts I cs - facts_of I all"
    using candidate_facts_new [OF cs all] 1(2) by (simp add: candidate_facts_def)
  show ?case
  proof (rule runs_bind [OF runs_commit_new [OF vp 1(1) new all delta len base prov]], assumption, rule rest, goal_cases)
    case (1 st')
    then show ?case
      unfolding grown_def N Un_Diff_cancel \<open>candidate_keys cs' = candidate_keys cs - keys_of all\<close> by auto
  qed
qed

lemma ex_sk_agrees: "\<exists>sk. sk_agrees sk I"
  by (rule exI [of _ "\<lambda>key. interned I ! the (map_of (generated I) key)"]) (simp add: sk_agrees_def)

lemma runs_round_rules:
  assumes w: "world I0 ar vp" and I: "interner_ok I" "interner_le I0 I" and all: "store_in I ar all"
    and delta: "store_in I ar delta" "keys_of delta \<subseteq> keys_of all" "\<forall>k\<in>keys_of delta. vp_stratum vp (fst k) = Some s"
  shows "runs (for_each (evaluate_delta_rule cfg vp s all delta) (rules_in vp s) (I, CandidateSet_new cfg)) (permitted cfg)
    (round_acc I ar (rules_at vp s) all delta {(r, p). r \<in> rules_at vp s \<and> p < length (positive_body r)})"
proof -
  let ?R = "rules_at vp s" and ?D = "\<lambda>Q. {(r, p). r \<in> Q \<and> p < length (positive_body r)}"
  show ?thesis
  proof (rule runs_for_each [where I = "\<lambda>Q. round_acc I ar ?R all delta (?D Q)"], goal_cases)
    case (2 Q r acc)
    then have r: "r \<in> ?R" by (simp add: set_rules_in)
    have "?D (insert r Q) = ?D Q \<union> {r} \<times> {..<length (positive_body r)}" by auto
    with runs_evaluate_delta_rule [OF r world_rule_ok [OF w I(2) r] all delta 2(3)] show ?case by simp
  qed (use I in \<open>simp_all add: round_acc_def candidates_ok_new set_rules_in\<close>)
qed

text \<open>The delta of the next round, and that the round keeps the invariant of semi-naive evaluation.\<close>

lemma seminaive_grown:
  assumes w: "world I0 ar vp" and I: "interner_ok I" and le: "interner_le I J" and all: "store_in I ar all"
    and acc: "round_acc I ar (rules_at vp s) all delta {(r, p). r \<in> rules_at vp s \<and> p < length (positive_body r)} (J, cs)"
    and sk: "sk_agrees sk J" and semi: "seminaive sk (rules_at vp s) L (facts_of I all) (facts_of I delta)"
  shows "seminaive sk (rules_at vp s) L (facts_of I all \<union> candidate_facts J cs) (candidate_facts J cs - facts_of I all)"
proof -
  let ?R = "rules_at vp s" and ?A = "facts_of I all" and ?N = "candidate_facts J cs"
  have vp: "vp_ok vp" using w by (simp add: world_def)
  have sub: "L \<subseteq> ?A" "?A \<subseteq> stratum_model sk ?R L" using semi by (simp_all add: seminaive_def)
  have cs: "candidates_ok J ar ?R ?A cs" and complete: "\<And>r q sk \<nu>. r \<in> ?R \<Longrightarrow> q < length (positive_body r) \<Longrightarrow>
      body_holds sk r \<nu> ?A ?A \<Longrightarrow> ground sk r \<nu> (positive_body r ! q) \<in> facts_of I delta \<Longrightarrow> derived J cs r \<nu>"
    using acc unfolding round_acc_def prod.case by blast+
  show ?thesis
  proof (rule seminaive_round [OF semi candidates_derivable [OF vp cs sk sub]])
    fix r \<nu>
    assume r: "r \<in> ?R" "body_holds sk r \<nu> ?A L" and hit: "ground sk r \<nu> ` set (positive_body r) \<inter> facts_of I delta \<noteq> {}"
    then obtain a where "a \<in> set (positive_body r)" "ground sk r \<nu> a \<in> facts_of I delta" by blast
    then obtain q where "q < length (positive_body r)" "ground sk r \<nu> (positive_body r ! q) \<in> facts_of I delta"
      by (metis in_set_conv_nth)
    moreover have "body_holds sk r \<nu> ?A ?A" using body_holds_current [OF vp r(1) sub] r(2) by blast
    ultimately have "derived J cs r \<nu>" using complete r(1) by blast
    then show "ground sk r \<nu> (head r) \<in> ?A \<union> ?N" using derived_fact sk by blast
  qed
qed

lemma runs_evaluate_round:
  assumes w: "world I0 ar vp" and inv: "stratum_inv cfg I0 ar vp s base L st" and "base \<subseteq> L"
  shows "runs (evaluate_round cfg vp s (st, n)) (permitted cfg) (\<lambda>(st', n'). stratum_inv cfg I0 ar vp s base L st' \<and>
    n' = Suc n \<and> n < max_iterations (cfg_limits cfg))"
proof -
  obtain I all delta p where st: "st = (I, all, delta, p)" by (cases st)
  let ?R = "rules_at vp s" and ?A = "facts_of I all" and ?D = "facts_of I delta"
  have I: "interner_ok I" "interner_le I0 I" and all: "store_in I ar all"
    and delta: "store_in I ar delta" "keys_of delta \<subseteq> keys_of all" "\<forall>k\<in>keys_of delta. vp_stratum vp (fst k) = Some s"
    and len: "store_len all \<le> max_facts (cfg_limits cfg)" and track: "p = None \<longleftrightarrow> \<not> track_provenance (options cfg)"
    and semi: "\<And>sk. sk_agrees sk I \<Longrightarrow> seminaive sk ?R L ?A ?D"
    and prov: "\<And>sk. sk_agrees sk I \<Longrightarrow> prov_inv sk vp s base ?A p"
    using inv unfolding stratum_inv_def st prod.case by blast+
  have vp: "vp_ok vp" using w by (simp add: world_def)
  have base: "base \<subseteq> ?A" using ex_sk_agrees [of I] semi \<open>base \<subseteq> L\<close> unfolding seminaive_def by blast
  show ?thesis
    unfolding evaluate_round_def st prod.case Let_def
  proof (intro runs_after_check runs_if runs_err runs_after_charge, simp, rule runs_bind [OF runs_round_rules [OF w I all delta]], goal_cases)
    case (1 acc)
    obtain J cs where acc: "acc = (J, cs)" by (cases acc)
    note ra = 1(2) [unfolded acc]
    have J: "interner_ok J" "interner_le I J" "candidates_ok J ar ?R ?A cs"
      using ra unfolding round_acc_def prod.case by blast+
    have F: "facts_of J all = ?A" by (rule facts_of_mono [OF J(2) all])
    note sk_mono = sk_agrees_mono [OF I(1) J(2)]
    show ?case
      unfolding acc prod.case
    proof (intro runs_after_charge, rule runs_retain_commit [OF vp J(3) [folded F] store_in_mono [OF J(2) all]
        world_store_new(1) [OF w] len base [folded F]], goal_cases)
      case (1 sk)
      then show ?case using prov [OF sk_mono] by (simp add: F)
    next
      case (2 res)
      obtain all' delta' p' where res: "res = (all', delta', p')" by (cases res)
      note c = 2 [unfolded res grown_def prod.case F]
      have "stratum_inv cfg I0 ar vp s base L (J, all', delta', p')"
        unfolding stratum_inv_def prod.case
        using c J(1) interner_le_trans [OF I(2) J(2)] track candidate_stratum [OF J(3)]
          seminaive_grown [OF w I(1) J(2) all ra _ semi [OF sk_mono]] world_store_new(2) [OF w]
        by (auto simp: facts_of_def)
      then show ?case
        unfolding res prod.case by (intro runs_guard) (use \<open>\<not> max_iterations (cfg_limits cfg) \<le> n\<close> in auto)
    qed
  qed
qed

section \<open>The start of a stratum\<close>

lemma runs_delta_keys:
  assumes "\<And>k. k \<in> set ks \<Longrightarrow> key_ok I k \<and> arity_ok ar k" and "store_in I ar delta"
  shows "runs (for_each (\<lambda>key delta.
         andthen (check cfg)
         (andthen (charge cfg (mem_delta_update (\<lambda>_. projected_insert_bytes cfg delta key)))
         (bind (expect Panic (insert_key cfg key delta)) (\<lambda>(_, delta). ok delta)))) ks delta) (permitted cfg)
    (\<lambda>delta'. store_in I ar delta' \<and> keys_of delta' = keys_of delta \<union> set ks)"
proof (rule runs_for_each [where I = "\<lambda>A delta'. store_in I ar delta' \<and> keys_of delta' = keys_of delta \<union> A"], goal_cases)
  case (2 A k delta')
  then obtain d where "insert_key cfg k delta' = Some (k \<notin> keys_of delta', d)" "store_in I ar d"
      "keys_of d = insert k (keys_of delta')"
    using store_in_insert [of I ar delta' k cfg] assms(1) by blast
  with 2 show ?case by (intro runs_guard) auto
qed (use assms in auto)

lemma runs_initial_delta:
  assumes w: "world I0 ar vp" and all: "store_in I ar all"
  shows "runs (initial_delta cfg vp s all) (permitted cfg) (\<lambda>delta. store_in I ar delta \<and>
    keys_of delta = {k \<in> keys_of all. vp_stratum vp (fst k) = Some s})"
proof -
  let ?rs = "filter (\<lambda>r. vp_stratum vp r = Some s) (relations (vp_dependencies vp))"
  let ?P = "\<lambda>A delta. store_in I ar delta \<and> keys_of delta = {k \<in> keys_of all. fst k \<in> A}"
  have key: "key_ok I k \<and> arity_ok ar k" if "k \<in> set (keys_for_relation all r)" for k r
    using that all store_ok_arity [of ar all k] by (auto simp: set_keys_for_relation store_in_def)
  have vp: "set (relations (vp_dependencies vp)) = dom (map_of (vp_strata vp))"
    using w by (simp add: world_def vp_ok_def)
  then have rs: "set ?rs = {r. vp_stratum vp r = Some s}" by (auto simp: vp_stratum_def)
  show ?thesis
    unfolding initial_delta_def Let_def
  proof (intro runs_after_charge, rule runs_bind [where R = "?P (set ?rs)"], goal_cases)
    case 1
    show ?case
    proof (rule runs_for_each [where I = ?P], goal_cases)
      case 1
      show ?case using world_store_new [OF w] by simp
    next
      case (2 A r delta)
      then have delta: "store_in I ar delta" "keys_of delta = {k \<in> keys_of all. fst k \<in> A}" by auto
      have "keys_of delta \<union> set (keys_for_relation all r) = {k \<in> keys_of all. fst k \<in> insert r A}"
        unfolding delta(2) set_keys_for_relation by blast
      with runs_delta_keys [where ks = "keys_for_relation all r" and cfg = cfg, OF key delta(1)] show ?case by simp
    qed simp
  next
    case (2 delta)
    then show ?case unfolding rs by (intro runs_guard) auto
  qed
qed

text \<open>The accumulator of the loop over the rules that do not depend on the stratum itself.\<close>

definition start_acc ::
  "Interner \<Rightarrow> (RelationId \<Rightarrow> nat option) \<Rightarrow> Rule set \<Rightarrow> RelationStore \<Rightarrow> Rule set \<Rightarrow> Interner \<times> CandidateSet \<Rightarrow> bool" where
  "start_acc I ar R all D acc \<longleftrightarrow> (case acc of (J, cs) \<Rightarrow> interner_ok J \<and> interner_le I J \<and>
     candidates_ok J ar R (facts_of I all) cs \<and>
     (\<forall>r\<in>D. \<forall>sk \<nu>. body_holds sk r \<nu> (facts_of I all) (facts_of I all) \<longrightarrow> derived J cs r \<nu>))"

lemma runs_start_rule:
  assumes r: "r \<in> R" "rule_ok I ar r" and all: "store_in I ar all" and acc: "start_acc I ar R all D acc"
  shows "runs (evaluate_rule_once cfg r all acc) (permitted cfg) (start_acc I ar R all (insert r D))"
proof -
  obtain J cs where acc_eq: "acc = (J, cs)" by (cases acc)
  have J: "interner_ok J" "interner_le I J" "candidates_ok J ar R (facts_of I all) cs"
    and old: "\<And>r sk \<nu>. r \<in> D \<Longrightarrow> body_holds sk r \<nu> (facts_of I all) (facts_of I all) \<Longrightarrow> derived J cs r \<nu>"
    using acc unfolding start_acc_def acc_eq prod.case by blast+
  have F: "facts_of J all = facts_of I all" by (rule facts_of_mono [OF J(2) all])
  have at: "store_at all all None q = all" for q by (simp add: store_at_def)
  note eval = runs_evaluate_rule_join [OF J(1) r(1) rule_ok_mono [OF J(2) r(2)] store_in_mono [OF J(2) all]
      store_in_mono [OF J(2) all] subset_refl J(3) [folded F], where cfg = cfg and dp = None, unfolded at F]
  show ?thesis
    unfolding evaluate_rule_once_def acc_eq
  proof (rule runs_weaken [OF eval], goal_cases)
    case (2 acc')
    obtain K cs' where acc': "acc' = (K, cs')" by (cases acc')
    have K: "interner_ok K" "interner_le J K" "candidates_ok K ar R (facts_of I all) cs'"
      "candidate_keys cs \<subseteq> candidate_keys cs'"
      and new: "\<And>sk \<nu>. (\<forall>q<length (positive_body r). ground sk r \<nu> (positive_body r ! q) \<in> facts_of I all) \<Longrightarrow>
         (\<forall>a\<in>set (negative_body r). ground sk r \<nu> a \<notin> facts_of I all) \<Longrightarrow> derived K cs' r \<nu>"
      using 2 unfolding acc' prod.case by blast+
    have "derived K cs' r \<nu>" if "body_holds sk r \<nu> (facts_of I all) (facts_of I all)" for sk \<nu>
      by (rule new [of sk]) (use that in \<open>auto simp: body_holds_def\<close>)
    moreover have "derived K cs' q \<nu>" if "q \<in> D" "body_holds sk q \<nu> (facts_of I all) (facts_of I all)" for q sk \<nu>
      by (rule derived_mono [OF J(1) K(2,4) old [OF that]])
    moreover have "interner_le I K" by (rule interner_le_trans [OF J(2) K(2)])
    ultimately show ?case using K unfolding start_acc_def acc' prod.case by blast
  qed simp
qed

lemma runs_start_rules:
  assumes w: "world I0 ar vp" and I: "interner_ok I" "interner_le I0 I" and all: "store_in I ar all"
  shows "runs (for_each (\<lambda>r. evaluate_rule_once cfg r all) (filter (nonrecursive vp s) (rules_in vp s)) (I, CandidateSet_new cfg))
    (permitted cfg) (start_acc I ar (rules_at vp s) all {r \<in> rules_at vp s. nonrecursive vp s r})"
proof (rule runs_for_each [where I = "start_acc I ar (rules_at vp s) all"], goal_cases)
  case (2 Q r acc)
  then have r: "r \<in> rules_at vp s" by (simp add: set_rules_in)
  show ?case by (rule runs_start_rule [OF r world_rule_ok [OF w I(2) r] all 2(3)])
qed (use I in \<open>simp_all add: start_acc_def candidates_ok_new set_rules_in\<close>)

lemma seminaive_started:
  assumes w: "world I0 ar vp" and all: "store_in I ar all"
    and acc: "start_acc I ar (rules_at vp s) all {r \<in> rules_at vp s. nonrecursive vp s r} (J, cs)"
    and sk: "sk_agrees sk J" and S: "S = {r. vp_stratum vp r = Some s}"
  shows "seminaive sk (rules_at vp s) (facts_of I all) (facts_of I all \<union> candidate_facts J cs)
    ({f \<in> facts_of I all. fact_relation f \<in> S} \<union> (candidate_facts J cs - facts_of I all))"
proof (rule seminaive_start)
  have vp: "vp_ok vp" using w by (simp add: world_def)
  have cs: "candidates_ok J ar (rules_at vp s) (facts_of I all) cs" using acc unfolding start_acc_def prod.case by blast
  show "candidate_facts J cs \<subseteq> derivable sk (rules_at vp s) (facts_of I all) (facts_of I all)"
    by (rule candidates_derivable [OF vp cs sk subset_refl]) (auto intro: stratum_model.lower)
  fix r \<nu>
  assume r: "r \<in> rules_at vp s" "\<forall>a\<in>set (positive_body r). relation a \<notin> S" "body_holds sk r \<nu> (facts_of I all) (facts_of I all)"
  then have "nonrecursive vp s r" by (simp add: nonrecursive_def list_all_iff S)
  with acc r have "derived J cs r \<nu>" unfolding start_acc_def prod.case by blast
  then show "ground sk r \<nu> (head r) \<in> facts_of I all \<union> candidate_facts J cs" using derived_fact sk by blast
qed

text \<open>
  What holds between strata: the facts are those of the model so far, and provenance covers what was
  derived.
\<close>

definition strata_inv ::
  "Config \<Rightarrow> Interner \<Rightarrow> (RelationId \<Rightarrow> nat option) \<Rightarrow> ValidatedProgram \<Rightarrow> nat \<Rightarrow> Fact set \<Rightarrow> (naming \<Rightarrow> Fact set) \<Rightarrow>
   strata_state \<Rightarrow> bool" where
  "strata_inv cfg I0 ar vp s base M st \<longleftrightarrow> (case st of (I, all, prov, n) \<Rightarrow>
     interner_ok I \<and> interner_le I0 I \<and> store_in I ar all \<and> store_len all \<le> max_facts (cfg_limits cfg) \<and>
     n \<le> max_iterations (cfg_limits cfg) \<and> (prov = None \<longleftrightarrow> \<not> track_provenance (options cfg)) \<and> base \<subseteq> facts_of I all \<and>
     (\<forall>sk. sk_agrees sk I \<longrightarrow> facts_of I all = M sk \<and> prov_inv sk vp s base (facts_of I all) prov))"

lemma facts_of_delta:
  assumes "keys_of delta = {k \<in> keys_of all. vp_stratum vp (fst k) = Some s}"
  shows "facts_of I delta = {f \<in> facts_of I all. fact_relation f \<in> {r. vp_stratum vp r = Some s}}"
  unfolding facts_of_def assms by (auto simp: fact_of_def Fact_new_def)

lemma runs_evaluate_nonrecursive_rules:
  assumes w: "world I0 ar vp" and inv: "strata_inv cfg I0 ar vp s base M (I, all, p, n)"
    and delta: "store_in I ar delta" "keys_of delta = {k \<in> keys_of all. vp_stratum vp (fst k) = Some s}"
  shows "runs (evaluate_nonrecursive_rules cfg vp s (I, all, delta, p)) (permitted cfg)
    (stratum_inv cfg I0 ar vp s base (facts_of I all))"
proof -
  let ?R = "rules_at vp s" and ?A = "facts_of I all"
  have I: "interner_ok I" "interner_le I0 I" and all: "store_in I ar all"
    and len: "store_len all \<le> max_facts (cfg_limits cfg)" and track: "p = None \<longleftrightarrow> \<not> track_provenance (options cfg)"
    and base: "base \<subseteq> ?A" and prov: "\<And>sk. sk_agrees sk I \<Longrightarrow> prov_inv sk vp s base ?A p"
    using inv unfolding strata_inv_def prod.case by blast+
  have vp: "vp_ok vp" using w by (simp add: world_def)
  show ?thesis
    unfolding evaluate_nonrecursive_rules_def prod.case Let_def
  proof (intro runs_after_charge, rule runs_bind [OF runs_start_rules [OF w I all]], goal_cases)
    case (1 acc)
    obtain J cs where acc: "acc = (J, cs)" by (cases acc)
    note sa = 1 [unfolded acc]
    have J: "interner_ok J" "interner_le I J" "candidates_ok J ar ?R ?A cs"
      using sa unfolding start_acc_def prod.case by blast+
    have F: "facts_of J all = ?A" "facts_of J delta = facts_of I delta"
      by (rule facts_of_mono [OF J(2) all], rule facts_of_mono [OF J(2) delta(1)])
    note sk_mono = sk_agrees_mono [OF I(1) J(2)]
    show ?case
      unfolding acc prod.case
    proof (rule runs_retain_commit [OF vp J(3) [folded F(1)] store_in_mono [OF J(2) all] store_in_mono [OF J(2) delta(1)] len base [folded F(1)]], goal_cases)
      case (1 sk)
      then show ?case using prov [OF sk_mono] by (simp add: F)
    next
      case (2 res)
      obtain all' delta' p' where res: "res = (all', delta', p')" by (cases res)
      note c = 2 [unfolded res grown_def prod.case F facts_of_delta [OF delta(2)]]
      have keys: "keys_of delta' \<subseteq> keys_of all'" "\<forall>k\<in>keys_of delta'. vp_stratum vp (fst k) = Some s"
        using c delta(2) candidate_stratum [OF J(3)] by blast+
      have "stratum_inv cfg I0 ar vp s base ?A (J, all', delta', p')"
        unfolding stratum_inv_def prod.case
        using c J(1) interner_le_trans [OF I(2) J(2)] track keys seminaive_started [OF w all sa _ refl] by auto
      then show ?case
        unfolding res prod.case by (intro runs_guard) auto
    qed
  qed
qed

section \<open>A stratum and all strata\<close>

lemma world_mono: "interner_le I J \<Longrightarrow> world I ar vp \<Longrightarrow> world J ar vp"
  using rule_ok_mono by (auto simp: world_def)

text \<open>The \<open>while\<close> loop ends within its bound, and then the stratum is complete.\<close>

lemma runs_rounds:
  assumes w: "world I0 ar vp" and base: "base \<subseteq> L" and n: "n \<le> max_iterations (cfg_limits cfg)"
    and inv: "stratum_inv cfg I0 ar vp s base L st"
  shows "runs (while_loop (Suc (max_iterations (cfg_limits cfg) - n)) Diverged
      (\<lambda>((I, all, delta, provenance), iterations). \<not> store_is_empty delta) (evaluate_round cfg vp s) (st, n))
    (permitted cfg) (\<lambda>((I, all, delta, p), m). stratum_inv cfg I0 ar vp s base L (I, all, delta, p) \<and>
      m \<le> max_iterations (cfg_limits cfg) \<and> keys_of delta = {})"
proof -
  let ?max = "max_iterations (cfg_limits cfg)" and ?c = "\<lambda>((I, all, delta, provenance), iterations :: nat). \<not> store_is_empty delta"
  let ?inv = "\<lambda>(st, m). stratum_inv cfg I0 ar vp s base L st \<and> m \<le> ?max"
  have "runs (while_loop (Suc (?max - n)) Diverged ?c (evaluate_round cfg vp s) (st, n)) (permitted cfg) (\<lambda>a. ?inv a \<and> \<not> ?c a)"
  proof (rule runs_while_loop [where m = "\<lambda>(st, m). Suc (?max - m)"], goal_cases)
    case (4 a)
    obtain st m where a: "a = (st, m)" by (cases a)
    have "runs (evaluate_round cfg vp s (st, m)) (permitted cfg) (\<lambda>(st', n'). stratum_inv cfg I0 ar vp s base L st' \<and>
      n' = Suc m \<and> m < ?max)" by (rule runs_evaluate_round [OF w _ base]) (use 4 a in simp)
    then show ?case
      unfolding a by (rule runs_weaken) auto
  qed (use inv n in auto)
  then show ?thesis
  proof (rule runs_weaken, goal_cases)
    case (2 a)
    then show ?case
      using store_is_empty_iff [of ar] by (auto simp: stratum_inv_def store_in_def split: prod.splits)
  qed simp
qed

lemma runs_evaluate_stratum:
  assumes w: "world I0 ar vp" and inv: "strata_inv cfg I0 ar vp s base M st"
  shows "runs (evaluate_stratum cfg vp s st) (permitted cfg)
    (strata_inv cfg I0 ar vp s base (\<lambda>sk. stratum_model sk (rules_at vp s) (M sk)))"
proof -
  obtain I all p n where st: "st = (I, all, p, n)" by (cases st)
  let ?A = "facts_of I all"
  have I: "interner_ok I" "interner_le I0 I" and all: "store_in I ar all" and n: "n \<le> max_iterations (cfg_limits cfg)"
    and base: "base \<subseteq> ?A" and M: "\<And>sk. sk_agrees sk I \<Longrightarrow> ?A = M sk"
    using inv unfolding strata_inv_def st prod.case by blast+
  have wI: "world I ar vp" by (rule world_mono [OF I(2) w])
  have invI: "strata_inv cfg I ar vp s base M (I, all, p, n)"
    using inv interner_le_refl [of I] unfolding strata_inv_def st prod.case by blast
  show ?thesis
    unfolding evaluate_stratum_def st prod.case
  proof (intro runs_after_check, rule runs_bind [OF runs_initial_delta [OF wI all]], elim conjE, goal_cases)
    case (1 delta)
    show ?case
    proof (rule runs_bind [OF runs_evaluate_nonrecursive_rules [OF wI invI 1]], goal_cases)
      case (1 st')
      show ?case
      proof (rule runs_bind [OF runs_rounds [OF wI base n 1]], goal_cases)
        case (1 a)
        obtain J all' delta' p' m where a: "a = ((J, all', delta', p'), m)" by (metis prod.exhaust)
        note c = 1 [unfolded a prod.case stratum_inv_def]
        have "facts_of J delta' = {}" using c by (simp add: facts_of_def)
        then have full: "facts_of J all' = stratum_model sk (rules_at vp s) ?A" if "sk_agrees sk J" for sk
          using c that seminaive_done by metis
        moreover have "stratum_model sk (rules_at vp s) ?A = stratum_model sk (rules_at vp s) (M sk)" if "sk_agrees sk J" for sk
          using M sk_agrees_mono [OF I(1) _ that] c by simp
        moreover have "base \<subseteq> facts_of J all'"
          using ex_sk_agrees [of J] full base by (blast intro: stratum_model.lower)
        ultimately have "strata_inv cfg I0 ar vp s base (\<lambda>sk. stratum_model sk (rules_at vp s) (M sk)) (J, all', p', m)"
          unfolding strata_inv_def prod.case using c interner_le_trans [OF I(2)] by blast
        then show ?case unfolding a prod.case by (intro runs_guard) auto
      qed
    qed
  qed
qed

lemma prov_inv_Suc: "prov_inv sk vp s base F p \<Longrightarrow> prov_inv sk vp (Suc s) base F p"
  unfolding prov_inv_def valid_derivation_def by (fastforce split: option.splits)

lemma strata_inv_Suc: "strata_inv cfg I0 ar vp s base M st \<Longrightarrow> strata_inv cfg I0 ar vp (Suc s) base M st"
  unfolding strata_inv_def using prov_inv_Suc by (auto split: prod.splits)

definition model_below :: "naming \<Rightarrow> ValidatedProgram \<Rightarrow> Fact set \<Rightarrow> nat \<Rightarrow> Fact set" where
  "model_below sk vp base s = (case s of 0 \<Rightarrow> base | Suc n \<Rightarrow> perfect_model sk (rules_at vp) base n)"

lemma model_below_Suc: "stratum_model sk (rules_at vp s) (model_below sk vp base s) = model_below sk vp base (Suc s)"
  by (cases s) (simp_all add: model_below_def)

lemma runs_evaluate_strata:
  assumes w: "world I0 ar vp" and inv: "strata_inv cfg I0 ar vp 0 base (\<lambda>_. base) (I0, all, p, 0)"
  shows "runs (evaluate_strata cfg vp (I0, all, p)) (permitted cfg)
    (strata_inv cfg I0 ar vp (vp_max_stratum vp) base (\<lambda>sk. program_model sk vp base))"
proof -
  let ?P = "\<lambda>done. strata_inv cfg I0 ar vp (length done - 1) base (\<lambda>sk. model_below sk vp base (length done))"
  show ?thesis
    unfolding evaluate_strata_def prod.case
  proof (rule runs_for_each_split [where I = "\<lambda>done rest. ?P done"], goal_cases)
    case 1
    show ?case using inv by (simp add: model_below_def)
  next
    case (2 "done" s rest acc)
    then have s: "s = length done"
      by (metis add_0 length_append length_Cons length_upt nth_append_length nth_upt diff_zero less_add_same_cancel1 zero_less_Suc)
    have "strata_inv cfg I0 ar vp s base (\<lambda>sk. model_below sk vp base s) acc"
      using 2(2) strata_inv_Suc unfolding s by (cases "length done") auto
    from runs_evaluate_stratum [OF w this] show ?case by (simp add: model_below_Suc s)
  next
    case (3 acc)
    then show ?case by (simp add: model_below_def program_model_def)
  qed
qed

end
