(* ===== verification/Datalog_Evaluate.thy ===== *)
theory Datalog_Evaluate
  imports Datalog_Correct
begin

text \<open>
  Correctness of the entry points of the engine: collecting, checking and loading the input, the
  evaluation of the strata, and the output.
\<close>

section \<open>Input\<close>

lemma runs_collect_input:
  "runs (collect_input cfg fs) (permitted cfg) (\<lambda>input. input = fs \<and> length fs \<le> max_facts (cfg_limits cfg))"
  unfolding collect_input_def
  by (rule runs_for_each_split [where I = "\<lambda>done rest input. input = done \<and> length done \<le> max_facts (cfg_limits cfg)"])
    (auto intro!: runs_guard)

text \<open>The inputs a validated program accepts: arities agree, and no term is larger than the limit.\<close>

definition arities_fit :: "arity_map \<Rightarrow> Fact set \<Rightarrow> (RelationId \<Rightarrow> nat option) \<Rightarrow> bool" where
  "arities_fit arities F ar \<longleftrightarrow> map_of arities \<subseteq>\<^sub>m ar \<and> (\<forall>f\<in>F. ar (fact_relation f) = Some (Fact_arity f))"

definition terms_fit :: "Config \<Rightarrow> Fact \<Rightarrow> bool" where
  "terms_fit cfg f \<longleftrightarrow> (\<forall>v\<in>set (fact_values f). Value_estimated_bytes v \<le> max_term_bytes (cfg_limits cfg))"

definition input_ok :: "Config \<Rightarrow> ValidatedProgram \<Rightarrow> Fact list \<Rightarrow> bool" where
  "input_ok cfg vp fs \<longleftrightarrow> (\<exists>ar. arities_fit (vp_arities vp) (set fs) ar) \<and> (\<forall>f\<in>set fs. terms_fit cfg f)"

text \<open>The errors of a run on the input \<open>fs\<close>: an input error only when the input is not acceptable.\<close>

definition input_permitted :: "Config \<Rightarrow> bool \<Rightarrow> failure \<Rightarrow> bool" where
  "input_permitted cfg good e \<longleftrightarrow> permitted cfg e \<or> \<not> good \<and> (case e of
     Failed (InputArity _ expected actual) \<Rightarrow> expected \<noteq> actual
   | Failed (InputTermLimit actual n) \<Rightarrow> n = max_term_bytes (cfg_limits cfg) \<and> n < actual
   | _ \<Rightarrow> False)"

lemma runs_permitted: "runs m (permitted cfg) Q \<Longrightarrow> runs m (input_permitted cfg good) Q"
  by (erule runs_weaken) (auto simp: input_permitted_def)

lemma runs_input_check: "runs m (input_permitted cfg good) Q \<Longrightarrow> runs (andthen (check cfg) m) (input_permitted cfg good) Q"
  by (rule runs_bind [OF runs_permitted [OF runs_check]])

lemma runs_check_values:
  assumes "good \<Longrightarrow> terms_fit cfg f"
  shows "runs (for_each (\<lambda>v _. andthen (check cfg)
      (let actual = Value_estimated_bytes v
       in if actual > max_term_bytes (cfg_limits cfg)
          then err (Failed (InputTermLimit actual (max_term_bytes (cfg_limits cfg))))
          else ok ())) (fact_values f) ()) (input_permitted cfg good) (\<lambda>_. terms_fit cfg f)"
proof (rule runs_for_each [where I = "\<lambda>A _. \<forall>v\<in>A. Value_estimated_bytes v \<le> max_term_bytes (cfg_limits cfg)"], goal_cases)
  case (2 A v acc)
  then have "good \<Longrightarrow> Value_estimated_bytes v \<le> max_term_bytes (cfg_limits cfg)"
    using assms by (simp add: terms_fit_def)
  with 2 show ?case
    unfolding Let_def by (intro runs_input_check runs_if runs_err runs_ok) (auto simp: input_permitted_def)
qed (auto simp: terms_fit_def)

text \<open>The map grown by the loop is the least one that fits the facts seen.\<close>

definition least_arities :: "arity_map \<Rightarrow> Fact set \<Rightarrow> arity_map \<Rightarrow> bool" where
  "least_arities arities F m \<longleftrightarrow> arities_fit arities F (map_of m) \<and>
     (\<forall>ar. arities_fit arities F ar \<longrightarrow> map_of m \<subseteq>\<^sub>m ar)"

lemma runs_validate_fact:
  assumes good: "good \<Longrightarrow> terms_fit cfg f" "good \<Longrightarrow> \<exists>ar. arities_fit arities (insert f F) ar"
    and m: "least_arities arities F m"
  shows "runs (validate_fact cfg f m) (input_permitted cfg good) (\<lambda>m'. least_arities arities (insert f F) m' \<and> terms_fit cfg f)"
proof (cases "map_of m (fact_relation f)")
  case None
  let ?m = "(map_of m)(fact_relation f \<mapsto> Fact_arity f)"
  have le: "map_of m \<subseteq>\<^sub>m ?m" using None by (auto simp: map_le_def)
  have old: "?m (fact_relation g) = Some (Fact_arity g)" if "g \<in> F" for g
    using m that None by (auto simp: least_arities_def arities_fit_def)
  have fits: "arities_fit arities (insert f F) ?m"
    using m map_le_trans [OF _ le] old by (simp add: least_arities_def arities_fit_def)
  have "?m \<subseteq>\<^sub>m ar" if "arities_fit arities (insert f F) ar" for ar
  proof -
    have "map_of m \<subseteq>\<^sub>m ar" "ar (fact_relation f) = Some (Fact_arity f)"
      using that m by (simp_all add: least_arities_def arities_fit_def)
    then show ?thesis by (auto simp: map_le_def)
  qed
  with fits have "least_arities arities (insert f F) (btm_insert (fact_relation f) (Fact_arity f) m)"
    by (simp add: least_arities_def)
  then show ?thesis
    unfolding validate_fact_def None option.case Let_def
    by (auto intro!: runs_input_check runs_bind [OF runs_check_values [OF good(1), unfolded Let_def]])
next
  case (Some n)
  show ?thesis
  proof (cases "n = Fact_arity f")
    case True
    with Some have "map_of (btm_insert (fact_relation f) (Fact_arity f) m) = map_of m" by auto
    with m Some True have "least_arities arities (insert f F) (btm_insert (fact_relation f) (Fact_arity f) m)"
      unfolding least_arities_def arities_fit_def by auto
    with True show ?thesis
      unfolding validate_fact_def Some option.case Let_def
      by (auto intro!: runs_input_check runs_bind [OF runs_check_values [OF good(1), unfolded Let_def]])
  next
    case False
    have "\<not> good"
    proof
      assume good
      then obtain ar where "arities_fit arities (insert f F) ar" using good(2) by blast
      moreover from this have "map_of m \<subseteq>\<^sub>m ar" using m by (auto simp: least_arities_def arities_fit_def)
      ultimately show False using Some False by (auto simp: arities_fit_def map_le_def dom_def)
    qed
    with False show ?thesis
      unfolding validate_fact_def Some option.case Let_def
      by (auto simp: input_permitted_def intro!: runs_input_check)
  qed
qed

lemma runs_validate_input:
  "runs (validate_input cfg vp fs) (input_permitted cfg (input_ok cfg vp fs)) (\<lambda>_. input_ok cfg vp fs)"
proof -
  let ?P = "\<lambda>A m. least_arities (vp_arities vp) A m \<and> (\<forall>f\<in>A. terms_fit cfg f)"
  have fit: "\<exists>ar. arities_fit (vp_arities vp) (insert f A) ar" if "input_ok cfg vp fs" "f \<in> set fs" "A \<subseteq> set fs" for f A
    using that unfolding input_ok_def arities_fit_def by blast
  have "runs (for_each (validate_fact cfg) fs (vp_arities vp)) (input_permitted cfg (input_ok cfg vp fs)) (?P (set fs))"
  proof (rule runs_for_each [where I = ?P], goal_cases)
    case (2 A f m)
    show ?case
      by (rule runs_weaken [OF runs_validate_fact [where f = f and F = A and arities = "vp_arities vp"]])
        (use 2 fit in \<open>auto simp: input_ok_def\<close>)
  qed (auto simp: least_arities_def arities_fit_def)
  then show ?thesis
    unfolding validate_input_def by (rule runs_bind) (auto simp: least_arities_def input_ok_def)
qed

section \<open>Loading\<close>

definition loaded :: "Interner \<Rightarrow> (RelationId \<Rightarrow> nat option) \<Rightarrow> Fact set \<Rightarrow> FactKey btree_set \<times> RelationStore \<Rightarrow> bool" where
  "loaded I ar F acc \<longleftrightarrow> (case acc of (base, all) \<Rightarrow> bts_wf base \<and> store_in I ar all \<and> keys_of all = set base \<and>
     facts_of I all = F)"

lemma runs_load_fact:
  assumes I: "interner_ok I" and f: "set (fact_values f) \<subseteq> dom (map_of (ids I))" "ar (fact_relation f) = Some (Fact_arity f)"
    and acc: "loaded I ar F acc"
  shows "runs (load_fact cfg I f acc) (permitted cfg) (loaded I ar (insert f F))"
proof -
  obtain base all where acc_eq: "acc = (base, all)" by (cases acc)
  have inv: "bts_wf base" "store_in I ar all" "keys_of all = set base" "facts_of I all = F"
    using acc by (auto simp: loaded_def acc_eq)
  show ?thesis
    unfolding load_fact_def acc_eq prod.case
  proof (intro runs_after_check, rule runs_bind [OF runs_encode_fact [OF I f(1)]], elim conjE, goal_cases)
    case (1 k)
    then have "arity_ok ar k" using f(2) by (simp add: arity_ok_def)
    then obtain st where st: "insert_key cfg k all = Some (k \<notin> keys_of all, st)" "store_in I ar st"
        "keys_of st = insert k (keys_of all)"
      using store_in_insert [OF inv(2) 1(1), of cfg] by blast
    have "loaded I ar (insert f F) (bts_insert k base, st)"
      using inv st 1(2) by (auto simp: loaded_def bts_wf_insert facts_of_def)
    with st(1) show ?case
      by (cases "k \<in> set base") (auto intro!: runs_bind [OF runs_charge] runs_after_set_memory runs_charge runs_bind [where m = "bind _ _"])
  qed
qed

section \<open>Generated blank nodes\<close>

text \<open>The keys of the blank nodes that the rule instances holding in \<open>M\<close> generate.\<close>

definition used_keys :: "naming \<Rightarrow> ValidatedProgram \<Rightarrow> Fact set \<Rightarrow> string set" where
  "used_keys sk vp M = {node_key r g \<nu> | r g \<nu>. r \<in> set (vp_rules vp) \<and>
     PGeneratedBlankNode g \<in> set (terms (head r)) \<and> body_holds sk r \<nu> M M}"

text \<open>A naming that invents a new blank node for every key it is used on.\<close>

definition inventive :: "naming \<Rightarrow> ValidatedProgram \<Rightarrow> Fact list \<Rightarrow> bool" where
  "inventive sk vp fs \<longleftrightarrow> (let K = used_keys sk vp (program_model sk vp (set fs)) in
     inj_on sk K \<and> (\<forall>k\<in>K. blank_value (sk k) \<and>
       sk k \<notin> values_of_facts fs \<union> constants_of (atoms_of (set (vp_rules vp)))))"

lemma foldl_max_ge: "a \<le> foldl max a xs \<and> (\<forall>x\<in>set xs. x \<le> foldl max a xs)" for a :: nat
proof (induction xs arbitrary: a)
  case (Cons b xs)
  from Cons [of "max a b"] show ?case by auto
qed simp

lemma max_stratum_ge:
  assumes "vp_stratum vp r = Some s"
  shows "s \<le> vp_max_stratum vp"
proof -
  have "s \<in> set (map snd (vp_strata vp))" using assms by (force simp: vp_stratum_def dest: map_of_SomeD)
  then show ?thesis
    using foldl_max_ge unfolding vp_max_stratum_def by (cases "map snd (vp_strata vp)") auto
qed

lemma program_model_closed:
  assumes vp: "vp_ok vp" and r: "r \<in> set (vp_rules vp)"
    and h: "body_holds sk r \<nu> (program_model sk vp base) (program_model sk vp base)"
  shows "ground sk r \<nu> (head r) \<in> program_model sk vp base"
proof -
  have s: "vp_stratum vp (relation (head r)) = Some (level vp (relation (head r)))"
    by (rule vp_stratum_level [OF vp atom_relation_in_program [OF r]]) (simp add: rule_atoms_def)
  then have "r \<in> rules_at vp (level vp (relation (head r)))" using r by (simp add: rules_at_def)
  from perfect_model_closed [OF levels_ok_rules_at [OF vp] this max_stratum_ge [OF s]] h show ?thesis
    by (simp add: program_model_def)
qed

lemma program_model_founded:
  assumes vp: "vp_ok vp" and f: "f \<in> program_model sk vp base"
  shows "f \<in> base \<or> (\<exists>r\<in>set (vp_rules vp). \<exists>\<nu>. f = ground sk r \<nu> (head r) \<and>
    body_holds sk r \<nu> (program_model sk vp base) (program_model sk vp base))"
  using perfect_model_founded [OF levels_ok_rules_at [OF vp] f [unfolded program_model_def]]
  by (auto simp: program_model_def rules_at_def)

lemma infinite_Value: "infinite (UNIV :: Value set)"
proof
  assume "finite (UNIV :: Value set)"
  then have "finite (range (\<lambda>n. VTerm (TBlankNode (BAnonymous n))))" by (rule rev_finite_subset) simp
  then show False by (subst (asm) finite_image_iff) (auto simp: inj_def)
qed

text \<open>
  Every key in use has been generated: were the value of a key still open, the model could not be the
  same for all of its values.
\<close>

lemma used_keys_generated:
  assumes vp: "vp_ok vp" and "finite M" and sk: "sk_agrees sk J"
    and M: "\<And>sk. sk_agrees sk J \<Longrightarrow> M = program_model sk vp base"
  shows "used_keys sk vp M \<subseteq> dom (map_of (generated J))"
proof (rule subsetI, rule ccontr)
  fix key
  assume "key \<in> used_keys sk vp M" and new: "key \<notin> dom (map_of (generated J))"
  then obtain r g \<nu> where key: "key = node_key r g \<nu>" and r: "r \<in> set (vp_rules vp)"
    and g: "PGeneratedBlankNode g \<in> set (terms (head r))" and b: "body_holds sk r \<nu> M M"
    by (auto simp: used_keys_def)
  have "finite (\<Union>f\<in>M. set (fact_values f))" using \<open>finite M\<close> by simp
  then obtain v where v: "v \<notin> (\<Union>f\<in>M. set (fact_values f))" using infinite_Value ex_new_if_finite by blast
  let ?sk = "sk(key := v)"
  have sk': "sk_agrees ?sk J" using sk new by (auto simp: sk_agrees_def)
  have "no_generators a" if "a \<in> set (positive_body r) \<union> set (negative_body r)" for a
    using vp r that by (auto simp: vp_ok_def rule_safe_def)
  then have "body_holds ?sk r \<nu> M M"
    using b ground_no_generators unfolding body_holds_def by (metis (no_types, lifting) Un_iff image_cong)
  then have "ground ?sk r \<nu> (head r) \<in> M"
    using program_model_closed [OF vp r, of ?sk \<nu> base] M [OF sk'] by simp
  moreover have "v \<in> set (fact_values (ground ?sk r \<nu> (head r)))"
  proof -
    have "term_value ?sk r \<nu> (PGeneratedBlankNode g) = v" by (simp add: term_value_def key)
    with g show ?thesis unfolding ground_def Fact_new_def by force
  qed
  ultimately show False using v by blast
qed

lemma generated_inventive:
  assumes I: "interner_ok I" "generated I = []" and J: "interner_ok J" "interner_le I J" and sk: "sk_agrees sk J"
  shows "inj_on sk (dom (map_of (generated J)))"
    and "k \<in> dom (map_of (generated J)) \<Longrightarrow> blank_value (sk k) \<and> sk k \<notin> dom (map_of (ids I))"
proof -
  have gen: "sk k = interned J ! i \<and> canonical J i \<and> blank_value (interned J ! i) \<and> length (interned I) \<le> i"
    if "map_of (generated J) k = Some i" for k i
    using that sk J I by (auto simp: sk_agrees_def interner_ok_def interner_le_def)
  show "inj_on sk (dom (map_of (generated J)))"
  proof (rule inj_onI)
    fix k l
    assume k: "k \<in> dom (map_of (generated J))" and l: "l \<in> dom (map_of (generated J))" and eq: "sk k = sk l"
    then obtain i j where ij: "map_of (generated J) k = Some i" "map_of (generated J) l = Some j" by auto
    then have "i = j" using gen eq canonical_inj by metis
    with ij k l J(1) show "k = l" by (auto simp: interner_ok_def inj_on_def)
  qed
  show "blank_value (sk k) \<and> sk k \<notin> dom (map_of (ids I))" if k: "k \<in> dom (map_of (generated J))"
  proof -
    obtain i where i: "map_of (generated J) k = Some i" using k by auto
    have "sk k \<notin> dom (map_of (ids I))"
    proof
      assume "sk k \<in> dom (map_of (ids I))"
      then obtain j where j: "map_of (ids I) (sk k) = Some j" by auto
      then have "j < length (interned I)" "map_of (ids J) (sk k) = Some j"
        using I(1) interner_le_ids [OF J(2)] by (auto simp: interner_ok_def)
      then show False using gen [OF i] by (auto simp: canonical_def)
    qed
    with gen [OF i] show ?thesis by simp
  qed
qed

section \<open>Output\<close>

lemma runs_output_facts:
  assumes "\<forall>k\<in>set ks. key_ok I k"
  shows "runs (output_facts cfg I ks) (permitted cfg) (\<lambda>out. out = sort_key Fact_canonical_key (map (fact_of I) ks))"
proof -
  have "runs (for_each (\<lambda>key out.
         andthen (check cfg)
         (bind (decode_fact I key) (\<lambda>f.
          andthen (charge cfg (mem_output_update (\<lambda>n. sat_add n (estimate_fact cfg f))))
            (ok (out @ [f]))))) ks []) (permitted cfg) (\<lambda>out. out = map (fact_of I) ks)"
  proof (rule runs_for_each_split [where I = "\<lambda>done rest out. out = map (fact_of I) done"], goal_cases)
    case (2 "done" k rest acc)
    then have "key_ok I k" using assms by auto
    with 2 show ?case by (auto intro!: runs_guard runs_bind [OF runs_decode_fact])
  qed auto
  then show ?thesis
    unfolding output_facts_def Let_def by (rule runs_bind) (auto intro!: runs_guard)
qed

section \<open>The whole evaluation\<close>

definition listing :: "Fact list \<Rightarrow> Fact set \<Rightarrow> bool" where
  "listing fs F \<longleftrightarrow> set fs = F \<and> distinct fs \<and> sorted (map Fact_canonical_key fs)"

text \<open>What a result promises: for a naming that invents new blank nodes,
  \<^item> \<open>facts\<close> lists the model of the program, \<open>derived\<close> what is not in the input, both sorted;
  \<^item> provenance, when tracked, has a derivation from the model for exactly the derived facts;
  \<^item> the number of facts and of iterations is within the limits.\<close>

definition provenance_sound :: "naming \<Rightarrow> ValidatedProgram \<Rightarrow> Fact set \<Rightarrow> Fact set \<Rightarrow> Provenance \<Rightarrow> bool" where
  "provenance_sound sk vp M base p \<longleftrightarrow> dom (derivation_of p) = M - base \<and>
     (\<forall>f d. derivation_of p f = Some d \<longrightarrow> valid_derivation sk (set (vp_rules vp)) M d f)"

definition result_ok :: "Config \<Rightarrow> ValidatedProgram \<Rightarrow> Fact list \<Rightarrow> EvaluationResult \<Rightarrow> bool" where
  "result_ok cfg vp fs res \<longleftrightarrow> (\<exists>sk. inventive sk vp fs \<and>
     (let M = program_model sk vp (set fs) in
      listing (result_facts res) M \<and> listing (result_derived res) (M - set fs) \<and>
      (if track_provenance (options cfg)
       then \<exists>p. result_provenance res = Some p \<and> provenance_sound sk vp M (set fs) p
       else result_provenance res = None)) \<and>
     length (result_facts res) \<le> max_facts (cfg_limits cfg) \<and>
     result_iterations res \<le> max_iterations (cfg_limits cfg))"

lemma listing_facts:
  assumes "\<forall>k\<in>set ks. key_ok I k" and "distinct ks"
  shows "listing (sort_key Fact_canonical_key (map (fact_of I) ks)) (fact_of I ` set ks)"
proof -
  have "inj_on (fact_of I) (set ks)" using assms(1) fact_of_inj by (meson inj_onI)
  then show ?thesis using assms(2) by (simp add: listing_def distinct_map)
qed

lemma derived_facts:
  assumes base: "\<forall>k\<in>B. key_ok I k" and le: "interner_le I J" and all: "\<forall>k\<in>K. key_ok J k"
    and sub: "fact_of I ` B \<subseteq> fact_of J ` K"
  shows "fact_of J ` (K - B) = fact_of J ` K - fact_of I ` B"
proof -
  have eq: "fact_of J k = fact_of I k" "key_ok J k" if "k \<in> B" for k
    using base le that fact_of_mono key_ok_mono by blast+
  then have B: "fact_of I ` B = fact_of J ` B" by (simp add: image_def)
  have ok: "\<forall>k\<in>K \<union> B. key_ok J k" using all eq(2) by blast
  have inj: "inj_on (fact_of J) (K \<union> B)" by (rule inj_onI) (use ok fact_of_inj in blast)
  have "B \<subseteq> K"
  proof
    fix k
    assume k: "k \<in> B"
    then obtain l where "l \<in> K" "fact_of J k = fact_of J l" using sub unfolding B by blast
    then show "k \<in> K" using inj_onD [OF inj, of k l] k by simp
  qed
  then show ?thesis unfolding B by (intro inj_on_image_set_diff [OF inj]) auto
qed

lemma valid_derivation_rules: "R \<subseteq> R' \<Longrightarrow> valid_derivation sk R F d f \<Longrightarrow> valid_derivation sk R' F d f"
  unfolding valid_derivation_def by blast

lemma result_ok_final:
  assumes vp: "vp_ok vp" and I: "interner_ok I" "generated I = []"
      "dom (map_of (ids I)) = values_of_facts fs \<union> constants_of (atoms_of (set (vp_rules vp)))"
    and base: "\<forall>k\<in>set base. key_ok I k" "fact_of I ` set base = set fs"
    and inv: "strata_inv cfg I ar vp (vp_max_stratum vp) (set fs) (\<lambda>sk. program_model sk vp (set fs)) (J, all, p, n)"
  shows "result_ok cfg vp fs \<lparr>result_facts = sort_key Fact_canonical_key (map (fact_of J) (store_keys all)),
    result_derived = sort_key Fact_canonical_key (map (fact_of J) (filter (\<lambda>k. k \<notin> set base) (store_keys all))),
    result_provenance = p, result_iterations = n, result_elapsed = t, result_peak = m\<rparr>"
proof -
  obtain sk where sk: "sk_agrees sk J" using ex_sk_agrees by blast
  let ?M = "program_model sk vp (set fs)" and ?K = "keys_of all"
  have J: "interner_ok J" "interner_le I J" and all: "store_ok ar all" "\<forall>k\<in>?K. key_ok J k"
    and len: "store_len all \<le> max_facts (cfg_limits cfg)" "n \<le> max_iterations (cfg_limits cfg)"
    and track: "p = None \<longleftrightarrow> \<not> track_provenance (options cfg)"
    and M: "\<And>sk. sk_agrees sk J \<Longrightarrow> facts_of J all = program_model sk vp (set fs)"
    and prov: "prov_inv sk vp (vp_max_stratum vp) (set fs) (facts_of J all) p"
    and sub: "set fs \<subseteq> facts_of J all"
    using inv sk unfolding strata_inv_def store_in_def prod.case by blast+
  note keys = set_store_keys [OF all(1)] distinct_store_keys [OF all(1)]
  have fin: "finite ?M" using M [OF sk] finite_keys_of [OF all(1)] by (metis facts_of_def finite_imageI)
  have K: "fact_of J ` ?K = ?M" using M [OF sk] by (simp add: facts_of_def)
  have filt: "set (filter (\<lambda>k. k \<notin> set base) (store_keys all)) = ?K - set base" using keys(1) by auto
  have "fact_of J ` (?K - set base) = ?M - set fs"
    using derived_facts [OF base(1) J(2) all(2)] sub unfolding base(2) K facts_of_def by simp
  then have "listing (sort_key Fact_canonical_key (map (fact_of J) (store_keys all))) ?M"
    and "listing (sort_key Fact_canonical_key (map (fact_of J) (filter (\<lambda>k. k \<notin> set base) (store_keys all)))) (?M - set fs)"
    using listing_facts [of "store_keys all" J] listing_facts [of "filter (\<lambda>k. k \<notin> set base) (store_keys all)" J] all(2)
    unfolding filt keys(1) K by (simp_all add: keys)
  moreover have "used_keys sk vp ?M \<subseteq> dom (map_of (generated J))"
    by (rule used_keys_generated [OF vp fin sk, of "set fs"]) (simp add: M sk flip: M)
  then have "inventive sk vp fs"
    using generated_inventive [OF I(1,2) J sk] I(3) unfolding inventive_def Let_def by (blast intro: inj_on_subset)
  moreover have "provenance_sound sk vp ?M (set fs) q" if "p = Some q" for q
    using prov that valid_derivation_rules [of "{r \<in> set (vp_rules vp). level vp (relation (head r)) \<le> vp_max_stratum vp}" "set (vp_rules vp)"]
    unfolding M [OF sk] prov_inv_def provenance_sound_def by auto
  ultimately show ?thesis
    unfolding result_ok_def Let_def
    by (intro exI [of _ sk]) (use len track in \<open>auto simp: length_store_keys\<close>)
qed

lemma world_start:
  assumes vp: "vp_ok vp" and ar: "arities_fit (vp_arities vp) (set fs) ar"
    and I: "dom (map_of (ids I)) = values_of_facts fs \<union> constants_of (atoms_of (set (vp_rules vp)))"
  shows "world I ar vp"
proof -
  have le: "map_of (vp_arities vp) \<subseteq>\<^sub>m ar" using ar by (simp add: arities_fit_def)
  then have arity: "ar r = Some n" if "map_of (vp_arities vp) r = Some n" for r n
    using that by (metis domI map_le_def)
  have "rule_ok I ar r" if r: "r \<in> set (vp_rules vp)" for r
    using vp r arity I by (fastforce simp: rule_ok_def vp_ok_def arity_consistent_def constants_of_def atoms_of_def)
  with vp arity show ?thesis by (simp add: world_def)
qed

lemma runs_load:
  assumes w: "world I ar vp" and I: "interner_ok I" "values_of_facts fs \<subseteq> dom (map_of (ids I))"
    and ar: "arities_fit (vp_arities vp) (set fs) ar"
  shows "runs (for_each (load_fact cfg I) fs ([], RelationStore_new cfg (vp_arities vp))) (permitted cfg) (loaded I ar (set fs))"
proof (rule runs_for_each [where I = "loaded I ar"], goal_cases)
  case (2 A f acc)
  show ?case
    by (rule runs_load_fact [OF I(1) _ _ 2(3)]) (use 2 I(2) ar in \<open>auto simp: values_of_facts_def arities_fit_def\<close>)
qed (use world_store_new [OF w] in \<open>auto simp: loaded_def facts_of_def\<close>)

lemma strata_inv_start:
  assumes I: "interner_ok I" and ld: "loaded I ar (set fs) (base, all)" and len: "length fs \<le> max_facts (cfg_limits cfg)"
  shows "strata_inv cfg I ar vp 0 (set fs) (\<lambda>_. set fs)
    (I, all, if track_provenance (options cfg) then Some Provenance_default else None, 0)"
proof -
  have all: "store_in I ar all" "facts_of I all = set fs" using ld by (auto simp: loaded_def)
  have "inj_on (fact_of I) (keys_of all)"
    by (rule inj_onI) (use all(1) fact_of_inj in \<open>unfold store_in_def, blast\<close>)
  then have "card (keys_of all) = card (set fs)" using all(2) card_image by (metis facts_of_def)
  then have "store_len all \<le> length fs" using store_len_card [of ar all] all(1) card_length [of fs] by (simp add: store_in_def)
  with len I all show ?thesis
    by (simp add: strata_inv_def prov_inv_def derivation_of_def [abs_def] Provenance_default_def)
qed

text \<open>From the interner on, with an input that has been accepted.\<close>

lemma runs_evaluate_interned:
  assumes vp: "vp_ok vp" and ar: "arities_fit (vp_arities vp) (set fs) ar"
    and len: "length fs \<le> max_facts (cfg_limits cfg)" and I: "interner_ok I" "generated I = []"
      "dom (map_of (ids I)) = values_of_facts fs \<union> constants_of (atoms_of (set (vp_rules vp)))"
  shows "runs (bind (for_each (load_fact cfg I) fs ([], RelationStore_new cfg (vp_arities vp))) (\<lambda>(base, all).
      andthen (charge cfg (mem_all_update (\<lambda>_. store_bytes all)))
      (bind (evaluate_strata cfg vp (I, all, if track_provenance (options cfg) then Some Provenance_default else None))
        (\<lambda>(I, all, provenance, iterations).
          andthen (charge cfg (mem_delta_update (\<lambda>_. 0)))
          (bind (output_facts cfg I (store_keys all)) (\<lambda>facts.
           bind (output_facts cfg I (filter (\<lambda>k. k \<notin> set base) (store_keys all))) (\<lambda>derived.
             (\<lambda>s. Inr (\<lparr>result_facts = facts, result_derived = derived,
                result_provenance = provenance, result_iterations = iterations,
                result_elapsed = elapsed_at cfg (reads s), result_peak = peak_estimated_bytes s\<rparr>, s)))))))))
    (permitted cfg) (result_ok cfg vp fs)"
proof -
  have w: "world I ar vp" by (rule world_start [OF vp ar I(3)])
  show ?thesis
  proof (rule runs_bind [OF runs_load [OF w I(1) _ ar]], simp add: I(3), goal_cases)
    case (1 acc)
    obtain base all where acc: "acc = (base, all)" by (cases acc)
    note ld = 1 [unfolded acc]
    have base: "\<forall>k\<in>set base. key_ok I k" "fact_of I ` set base = set fs"
      using ld by (auto simp: loaded_def store_in_def facts_of_def)
    show ?case
      unfolding acc prod.case
    proof (intro runs_after_charge, rule runs_bind [OF runs_evaluate_strata [OF w strata_inv_start [OF I(1) ld len]]], goal_cases)
      case (1 st)
      obtain J all' p n where st: "st = (J, all', p, n)" by (cases st)
      note inv = 1 [unfolded st]
      have "store_in J ar all'" using inv by (simp add: strata_inv_def)
      then have keys: "\<forall>k\<in>set (store_keys all'). key_ok J k" using set_store_keys [of ar all'] by (simp add: store_in_def)
      then have keys': "\<forall>k\<in>set (filter (\<lambda>k. k \<notin> set base) (store_keys all')). key_ok J k" by simp
      show ?case
        unfolding st prod.case
        by (intro runs_after_charge, rule runs_bind [OF runs_output_facts [OF keys]], rule runs_bind [OF runs_output_facts [OF keys']])
          (use result_ok_final [OF vp I base inv] in \<open>auto simp: runs_def\<close>)
    qed
  qed
qed

lemma runs_evaluate_validated_with_guard:
  assumes vp: "vp_ok vp"
  shows "runs (evaluate_validated_with_guard cfg vp fs) (input_permitted cfg (input_ok cfg vp fs))
    (\<lambda>res. input_ok cfg vp fs \<and> result_ok cfg vp fs res)"
proof -
  let ?E = "input_permitted cfg (input_ok cfg vp fs)"
  note charge = runs_bind [OF runs_permitted [OF runs_charge]]
  show ?thesis
    unfolding evaluate_validated_with_guard_def
  proof (rule charge, rule runs_bind [OF runs_permitted [OF runs_collect_input]], elim conjE, goal_cases)
    case (1 u input)
    show ?case
      unfolding \<open>input = fs\<close>
    proof (intro runs_input_check, rule runs_bind [OF runs_validate_input], rule runs_bind [OF runs_permitted [OF runs_Interner_new]],
        elim conjE, goal_cases)
      case (1 u I)
      then obtain ar where ar: "arities_fit (vp_arities vp) (set fs) ar" by (auto simp: input_ok_def)
      note main = runs_permitted [OF runs_evaluate_interned [OF vp ar \<open>length fs \<le> _\<close> 1(2-4)]]
      show ?case
        unfolding Let_def
        by (intro runs_after_set_memory, rule charge, rule runs_weaken [OF main]) (use 1(1) in simp_all)
    qed
  qed
qed

section \<open>The memory budget\<close>

lemma keeps_collect [keeps_intros]: "(\<And>x. keeps P (f x)) \<Longrightarrow> keeps P (collect f xs)"
  by (induction xs) (auto intro!: keeps_intros)

lemma keeps_split [keeps_intros]:
  "(\<And>a b. keeps P (f a b)) \<Longrightarrow> keeps P (case p of (a, b) \<Rightarrow> f a b)"
  "(\<And>a b. keeps P (f' a b c')) \<Longrightarrow> keeps P ((case p of (a, b) \<Rightarrow> f' a b) c')"
  "keeps P m \<Longrightarrow> (\<And>x. keeps P (g x)) \<Longrightarrow> keeps P (case y of None \<Rightarrow> m | Some x \<Rightarrow> g x)"
  "(\<And>v. keeps P (c v)) \<Longrightarrow> (\<And>x. keeps P (d x)) \<Longrightarrow> (\<And>h. keeps P (e h)) \<Longrightarrow>
    keeps P (case t of PVariable x \<Rightarrow> d x | PConstant v \<Rightarrow> c v | PGeneratedBlankNode h \<Rightarrow> e h)"
  by (auto split: prod.split option.split PatternTerm.split)

text \<open>The operations of the interner, the rules, the strata and the input.\<close>

lemma keeps_interner [keeps_intros]:
  "keeps P (value_at I i)" "keeps P (Interner_id I v)" "keeps P (decode_fact I k)" "keeps P (encode_fact I f)"
  "keeps P (generation_key I r g b)"
  unfolding value_at_def Interner_id_def decode_fact_def encode_fact_def generation_key_def
  by (intro keeps_intros)+

lemma keeps_push_value [keeps_intros]: "keeps (within_budget cfg) (push_value cfg v acc)"
  unfolding push_value_def Let_def by (intro keeps_intros)

lemma keeps_push [keeps_intros]:
  "keeps (within_budget cfg) (push_fact cfg f acc)" "keeps (within_budget cfg) (push_constants cfg r acc)"
  unfolding push_fact_def push_constants_def by (intro keeps_intros)+

lemma keeps_Interner_new [keeps_intros]: "keeps (within_budget cfg) (Interner_new cfg vp fs)"
  unfolding Interner_new_def Let_def by (intro keeps_intros)

lemma keeps_unused_label [keeps_intros]: "keeps (within_budget cfg) (unused_label cfg I base ns)"
  by (induction ns) (auto intro!: keeps_intros)

lemma keeps_generate_blank_node [keeps_intros]: "keeps (within_budget cfg) (generate_blank_node cfg r g b I)"
  unfolding generate_blank_node_def Let_def by (intro keeps_intros)

lemma keeps_bind_atom [keeps_intros]: "keeps P (bind_atom I a t b)"
proof -
  have "keeps P (bind_tuple I xs b)" for xs
    by (induction I xs b rule: bind_tuple.induct)
      (auto intro!: keeps_intros split: PatternTerm.split option.split)
  then show ?thesis by (simp add: bind_atom_def)
qed

lemma keeps_instantiate_ground [keeps_intros]: "keeps P (instantiate_ground I a b)"
proof -
  have "keeps P (ground_terms I b ts)" for ts
    by (induction ts) (auto intro!: keeps_intros)
  then show ?thesis by (simp add: instantiate_ground_def)
qed

lemma keeps_instantiate_head [keeps_intros]: "keeps (within_budget cfg) (instantiate_head cfg r b I)"
proof -
  have "keeps (within_budget cfg) (head_terms cfg r b ts I)" for ts
    by (induction ts arbitrary: I) (auto intro!: keeps_intros)
  then show ?thesis by (simp add: instantiate_head_def)
qed

lemma keeps_ground_absent [keeps_intros]: "keeps (within_budget cfg) (ground_absent_premises cfg r b all I)"
proof -
  have "keeps (within_budget cfg) (absent_loop cfg b all I as fs)" for as fs
    by (induction as arbitrary: fs) (auto simp: Let_def intro!: keeps_intros)
  then show ?thesis by (simp add: ground_absent_premises_def)
qed

lemma keeps_join [keeps_intros]:
  "keeps (within_budget cfg) (join_tuple cfg a I n state t acc)"
  "keeps (within_budget cfg) (decode_premises cfg I n ps)"
  "keeps (within_budget cfg) (CandidateSet_insert cfg k d cs)"
  "keeps (within_budget cfg) (retain_new cfg all cs)"
  unfolding join_tuple_def decode_premises_def CandidateSet_insert_def retain_new_def Let_def
  by (intro keeps_intros)+

lemma keeps_join_body [keeps_intros]: "keeps (within_budget cfg) (join_body cfg all delta dp I pas acc)"
proof (induction pas arbitrary: acc)
  case (Cons p pas)
  obtain q a where p: "p = (q, a)" by (cases p)
  obtain states n where acc: "acc = (states, n)" by (cases acc)
  show ?case unfolding p acc join_body.simps Let_def join_state_def by (intro keeps_intros Cons.IH)
qed (simp add: keeps_ok)

lemma keeps_derive_state [keeps_intros]: "keeps (within_budget cfg) (derive_state cfg r all n state acc)"
  unfolding derive_state_def Let_def by (intro keeps_intros)

lemma keeps_evaluate_rule_join [keeps_intros]: "keeps (within_budget cfg) (evaluate_rule_join cfg r dp all delta acc)"
  unfolding evaluate_rule_join_def Let_def by (intro keeps_intros)

lemma keeps_evaluate_rule [keeps_intros]:
  "keeps (within_budget cfg) (evaluate_delta_rule cfg vp s all delta r acc)"
  "keeps (within_budget cfg) (evaluate_rule_once cfg r all acc)"
  unfolding evaluate_delta_rule_def evaluate_rule_once_def evaluate_rule_def by (intro keeps_intros)+

lemma keeps_commit [keeps_intros]: "keeps (within_budget cfg) (commit_candidates cfg target I cs acc)"
proof -
  have "keeps (within_budget cfg) (commit_candidate cfg target I c acc)" for c acc
    unfolding commit_candidate_def Let_def by (intro keeps_intros)
  then show ?thesis unfolding commit_candidates_def by (intro keeps_intros)
qed

lemma keeps_evaluate_strata [keeps_intros]: "keeps (within_budget cfg) (evaluate_strata cfg vp st)"
proof -
  have "keeps (within_budget cfg) (evaluate_round cfg vp s st)" "keeps (within_budget cfg) (initial_delta cfg vp s all)"
    "keeps (within_budget cfg) (evaluate_nonrecursive_rules cfg vp s st')" for s st st' all
    unfolding evaluate_round_def initial_delta_def evaluate_nonrecursive_rules_def Let_def by (intro keeps_intros)+
  then show ?thesis
    unfolding evaluate_strata_def evaluate_stratum_def by (intro keeps_intros)
qed

lemma keeps_input [keeps_intros]:
  "keeps (within_budget cfg) (collect_input cfg fs)" "keeps (within_budget cfg) (validate_input cfg vp fs)"
  "keeps (within_budget cfg) (load_fact cfg I f acc)" "keeps (within_budget cfg) (output_facts cfg I ks)"
  unfolding collect_input_def validate_input_def validate_fact_def load_fact_def output_facts_def Let_def
  by (intro keeps_intros)+

text \<open>\<open>yields P m Q\<close>: a run from a state with \<open>P\<close> that returns a value returns one with \<open>Q\<close>.\<close>

definition yields :: "('s \<Rightarrow> bool) \<Rightarrow> ('s, 'e, 'a) fallible \<Rightarrow> ('a \<Rightarrow> bool) \<Rightarrow> bool" where
  "yields P m Q \<longleftrightarrow> (\<forall>s x s'. P s \<longrightarrow> m s = Inr (x, s') \<longrightarrow> Q x)"

lemma yields_bind: "keeps P m \<Longrightarrow> (\<And>x. yields P (f x) Q) \<Longrightarrow> yields P (bind m f) Q"
  unfolding yields_def keeps_def bind_Inr_iff by blast

lemma yields_split: "(\<And>a b. yields P (f a b) Q) \<Longrightarrow> yields P (case p of (a, b) \<Rightarrow> f a b) Q"
  by (cases p) simp

lemma yields_peak:
  "yields (within_budget cfg) (evaluate_validated_with_guard cfg vp fs) (\<lambda>res. result_peak res \<le> max_memory_bytes (cfg_limits cfg))"
  unfolding evaluate_validated_with_guard_def Let_def
  by (intro yields_bind yields_split keeps_intros) (auto simp: yields_def within_budget_def)

section \<open>Entry points\<close>

lemma within_budget_start: "within_budget cfg (ExecutionGuard_new cfg)"
  by (simp add: within_budget_def ExecutionGuard_new_def)

lemma evaluate_validated_cases:
  assumes "vp_ok vp"
  shows "case evaluate_validated cfg vp fs of
      Inl e \<Rightarrow> input_permitted cfg (input_ok cfg vp fs) e
    | Inr res \<Rightarrow> input_ok cfg vp fs \<and> result_ok cfg vp fs res \<and> result_peak res \<le> max_memory_bytes (cfg_limits cfg)"
proof -
  let ?m = "andthen (check cfg) (evaluate_validated_with_guard cfg vp fs)"
  have r: "runs ?m (input_permitted cfg (input_ok cfg vp fs)) (\<lambda>res. input_ok cfg vp fs \<and> result_ok cfg vp fs res)"
    by (rule runs_input_check [OF runs_evaluate_validated_with_guard [OF assms]])
  have y: "yields (within_budget cfg) ?m (\<lambda>res. result_peak res \<le> max_memory_bytes (cfg_limits cfg))"
    by (rule yields_bind [OF keeps_budget_check yields_peak])
  show ?thesis
    using within_budget_start [of cfg] runs_Inl [OF r, of "ExecutionGuard_new cfg"] runs_Inr [OF r, of "ExecutionGuard_new cfg"] y
    unfolding evaluate_validated_def yields_def by (auto split: sum.split)
qed

lemma keeps_check_atom [keeps_intros]: "keeps P ctl \<Longrightarrow> keeps P (check_atom ctl a r lim arities vs gen)"
  unfolding check_atom_def check_term_def check_identifier_def Let_def by (intro keeps_intros)

lemma keeps_require_bound [keeps_intros]: "keeps P (require_bound e bound vs)"
  unfolding require_bound_def by (intro keeps_intros)

lemma keeps_check_rule [keeps_intros]: "keeps P ctl \<Longrightarrow> keeps P (check_rule ctl lim r st)"
  unfolding check_rule_def check_positive_body_def check_negative_body_def check_head_def check_identifier_def Let_def
  by (intro keeps_intros)

lemma keeps_validate_with_control [keeps_intros]: "keeps P ctl \<Longrightarrow> keeps P (validate_with_control ctl program lim)"
  unfolding validate_with_control_def Let_def sum.case_eq_if by (intro keeps_intros)

text \<open>\<open>evaluate\<close> validates first: a program that is not valid is reported, and only such a program.\<close>

definition prepared :: "Program \<Rightarrow> ValidatedProgram \<Rightarrow> bool" where
  "prepared program vp \<longleftrightarrow> vp_ok vp \<and> vp_least vp \<and> vp_rules vp = sort_key rule_id (rules program)"

definition evaluate_permitted :: "Config \<Rightarrow> ValidationLimits \<Rightarrow> Program \<Rightarrow> Fact list \<Rightarrow> failure \<Rightarrow> bool" where
  "evaluate_permitted cfg lim program fs e \<longleftrightarrow>
     (if \<exists>v. e = Failed (ValidationFailed v) then \<not> program_valid lim (rules program)
      else permitted cfg e \<or> (\<exists>vp. prepared program vp \<and> input_permitted cfg (input_ok cfg vp fs) e))"

lemma evaluate_cases:
  assumes small: "card (program_relations (rules program)) < 2 ^ 32"
  shows "case evaluate cfg lim program fs of
      Inl e \<Rightarrow> evaluate_permitted cfg lim program fs e
    | Inr res \<Rightarrow> program_valid lim (rules program) \<and> (\<exists>vp. prepared program vp \<and> input_ok cfg vp fs \<and>
        result_ok cfg vp fs res \<and> result_peak res \<le> max_memory_bytes (cfg_limits cfg))"
proof -
  let ?E = "evaluate_permitted cfg lim program fs" and ?peak = "\<lambda>res. result_peak res \<le> max_memory_bytes (cfg_limits cfg)"
  let ?Q = "\<lambda>res. program_valid lim (rules program) \<and> (\<exists>vp. prepared program vp \<and> input_ok cfg vp fs \<and> result_ok cfg vp fs res)"
  let ?v = "map_err validation_failure (validate_with_control (check cfg) program lim) :: ValidatedProgram engine"
  let ?m = "andthen (check cfg) (bind ?v (\<lambda>vp. andthen (check cfg) (evaluate_validated_with_guard cfg vp fs)))"
  have perm: "permitted cfg e \<Longrightarrow> ?E e" for e
    by (auto simp: evaluate_permitted_def permitted_def)
  have inp: "prepared program vp \<Longrightarrow> input_permitted cfg (input_ok cfg vp fs) e \<Longrightarrow> ?E e" for vp e
    by (auto simp: evaluate_permitted_def input_permitted_def permitted_def)
  have ctl: "\<exists>s. check cfg s = Inl c \<Longrightarrow> permitted cfg c" for c
    using runs_check [of cfg] by (auto simp: runs_def)
  have v: "runs ?v ?E (\<lambda>vp. program_valid lim (rules program) \<and> prepared program vp)"
  proof (rule runs_map_err, rule runs_weaken [OF runs_validate_with_control [OF small]], goal_cases)
    case (1 e)
    then show ?case
      by (cases e) (auto simp: validation_failure_def evaluate_permitted_def dest!: ctl, simp add: permitted_def)
  qed (simp add: prepared_def)
  have r: "runs ?m ?E ?Q"
  proof (rule runs_bind [where R = "\<lambda>_. True"], rule runs_weaken [OF runs_check perm], assumption, rule TrueI,
      rule runs_bind [OF v], goal_cases)
    case (1 _ vp)
    then have vp: "vp_ok vp" "prepared program vp" by (auto simp: prepared_def)
    show ?case
      by (rule runs_weaken [OF runs_input_check [OF runs_evaluate_validated_with_guard [OF vp(1)]]])
        (use inp vp 1 in auto)
  qed
  have y: "yields (within_budget cfg) ?m ?peak"
    by (intro yields_bind keeps_intros yields_peak)
  show ?thesis
    using within_budget_start [of cfg] runs_Inl [OF r, of "ExecutionGuard_new cfg"] runs_Inr [OF r, of "ExecutionGuard_new cfg"] y
    unfolding evaluate_def yields_def by (auto split: sum.split)
qed

section \<open>Properties\<close>

text \<open>
  C1. The engine computes the model of the program: whatever \<open>evaluate\<close> returns for a valid program and an
  acceptable input, \<open>facts\<close> lists the stratified model of the sorted rules over the input, each fact once and
  in canonical order, and \<open>derived\<close> lists the part that is not input. Generated blank nodes are new: the
  naming is injective and avoids every value of the input and the program.
\<close>

theorem evaluate_correct:
  assumes "card (program_relations (rules program)) < 2 ^ 32"
  shows "case evaluate cfg lim program fs of
      Inl e \<Rightarrow> True
    | Inr res \<Rightarrow> program_valid lim (rules program) \<and> (\<exists>vp sk. prepared program vp \<and> input_ok cfg vp fs \<and>
        inventive sk vp fs \<and> listing (result_facts res) (program_model sk vp (set fs)) \<and>
        listing (result_derived res) (program_model sk vp (set fs) - set fs))"
  using evaluate_cases [OF assms, of cfg lim fs] unfolding result_ok_def Let_def by (auto split: sum.splits)

definition demo_facts :: "Fact list" where
  "demo_facts = [Fact_new ''e'' [VDefaultGraph]]"

theorem evaluate_correct_witness:
  "card (program_relations (rules demo_program)) < 2 ^ 32 \<and>
   (case evaluate plain_config ValidationLimits_default demo_program demo_facts of
      Inl e \<Rightarrow> True
    | Inr res \<Rightarrow> (\<exists>vp sk. prepared demo_program vp \<and> listing (result_facts res) (program_model sk vp (set demo_facts))))"
  using demo_program_small evaluate_correct [OF demo_program_small, where cfg = plain_config and lim = ValidationLimits_default and fs = demo_facts]
  by (auto split: sum.splits)

text \<open>
  C2. The result is a fixpoint of the rules: a fact is returned exactly when it is input or the head of an
  instance of a rule whose positive premises are returned and whose negated premises are not.
\<close>

theorem evaluate_fixpoint:
  assumes "card (program_relations (rules program)) < 2 ^ 32"
  shows "case evaluate cfg lim program fs of
      Inl e \<Rightarrow> True
    | Inr res \<Rightarrow> (\<exists>sk. \<forall>f. f \<in> set (result_facts res) \<longleftrightarrow> f \<in> set fs \<or>
        (\<exists>r\<in>set (rules program). \<exists>\<nu>. f = ground sk r \<nu> (head r) \<and>
          body_holds sk r \<nu> (set (result_facts res)) (set (result_facts res))))"
proof (cases "evaluate cfg lim program fs")
  case (Inr res)
  then obtain vp sk where vp: "vp_ok vp" "set (vp_rules vp) = set (rules program)"
      "set (result_facts res) = program_model sk vp (set fs)"
    using evaluate_cases [OF assms, of cfg lim fs] by (auto simp: result_ok_def prepared_def listing_def Let_def)
  have "set fs \<subseteq> program_model sk vp (set fs)" unfolding program_model_def by (rule perfect_model_base)
  with program_model_closed [OF vp(1)] program_model_founded [OF vp(1)] show ?thesis
    unfolding Inr sum.case vp(3) vp(2) [symmetric] by (intro exI [of _ sk]) blast
qed simp

theorem evaluate_fixpoint_witness:
  "card (program_relations (rules demo_program)) < 2 ^ 32 \<and>
   (case evaluate plain_config ValidationLimits_default demo_program demo_facts of
      Inl e \<Rightarrow> True
    | Inr res \<Rightarrow> set demo_facts \<subseteq> set (result_facts res))"
  using demo_program_small evaluate_fixpoint [OF demo_program_small, where cfg = plain_config and lim = ValidationLimits_default and fs = demo_facts]
  by (auto split: sum.splits)





text \<open>
  C4. An evaluation ends and does not panic: no index or map lookup is out of range, the \<open>while\<close> loop of
  every stratum ends within the iterations allowed, and an unused blank node label is always found.
\<close>

theorem evaluate_ends:
  assumes "card (program_relations (rules program)) < 2 ^ 32"
  shows "evaluate cfg lim program fs \<notin> {Inl Panic, Inl Diverged, Inl (Failed GeneratedBlankNodeSpaceExhausted)}"
  using evaluate_cases [OF assms, of cfg lim fs]
  by (auto simp: evaluate_permitted_def input_permitted_def permitted_def)

theorem evaluate_ends_witness:
  "card (program_relations (rules demo_program)) < 2 ^ 32 \<and>
   evaluate plain_config ValidationLimits_default demo_program demo_facts \<noteq> Inl Panic"
  using demo_program_small evaluate_ends [OF demo_program_small, where cfg = plain_config and lim = ValidationLimits_default and fs = demo_facts] by simp

text \<open>
  C6. An evaluation stays within its limits: the number of facts, the number of iterations and the
  reported peak of the memory estimate.
\<close>

theorem evaluate_within_limits:
  assumes "card (program_relations (rules program)) < 2 ^ 32"
  shows "case evaluate cfg lim program fs of
      Inl e \<Rightarrow> True
    | Inr res \<Rightarrow> length (result_facts res) \<le> max_facts (cfg_limits cfg) \<and>
        result_iterations res \<le> max_iterations (cfg_limits cfg) \<and>
        result_peak res \<le> max_memory_bytes (cfg_limits cfg)"
  using evaluate_cases [OF assms, of cfg lim fs] by (auto simp: result_ok_def split: sum.splits)

theorem evaluate_within_limits_witness:
  "card (program_relations (rules demo_program)) < 2 ^ 32 \<and>
   (case evaluate plain_config ValidationLimits_default demo_program demo_facts of
      Inl e \<Rightarrow> True
    | Inr res \<Rightarrow> result_iterations res \<le> 1000)"
  using demo_program_small evaluate_within_limits [OF demo_program_small, where cfg = plain_config and lim = ValidationLimits_default and fs = demo_facts]
  by (auto simp: plain_config_def EvaluationLimits_default_def split: sum.splits)

text \<open>
  C7. A validated program can be evaluated again and again: for the result of \<open>validate\<close>,
  \<open>evaluate_validated\<close> accepts an input only if it fits, reports an input error only if it does not, and
  otherwise returns the model, within the limits.
\<close>

theorem evaluate_validated_correct:
  assumes "card (program_relations (rules program)) < 2 ^ 32" and "validate program lim = Inr vp"
  shows "case evaluate_validated cfg vp fs of
      Inl e \<Rightarrow> input_permitted cfg (input_ok cfg vp fs) e
    | Inr res \<Rightarrow> input_ok cfg vp fs \<and> result_ok cfg vp fs res \<and> result_peak res \<le> max_memory_bytes (cfg_limits cfg)"
  by (rule evaluate_validated_cases [OF validate_sound(2) [OF assms]])

theorem evaluate_validated_correct_witness:
  "case validate demo_program ValidationLimits_default of
     Inl e \<Rightarrow> False
   | Inr vp \<Rightarrow> (case evaluate_validated plain_config vp demo_facts of Inl e \<Rightarrow> e \<noteq> Panic | Inr res \<Rightarrow> result_ok plain_config vp demo_facts res)"
proof -
  obtain vp where vp: "validate demo_program ValidationLimits_default = Inr vp"
    using demo_program_accepted by blast
  have "\<not> input_permitted plain_config b Panic" for b by (simp add: input_permitted_def)
  with evaluate_validated_correct [OF demo_program_small vp, of plain_config demo_facts] show ?thesis
    unfolding vp by (auto split: sum.splits)
qed

text \<open>
  A cancelled token stops an evaluation before any work: the first check reports \<open>Cancelled\<close>, and no
  validation error of the program can be reported instead.
\<close>

lemma evaluate_cancelled:
  assumes "token_cancelled (cancellation_token (options cfg))"
  shows "evaluate cfg lim program fs = Inl (Failed Cancelled) \<and> evaluate_validated cfg vp fs = Inl (Failed Cancelled)"
proof -
  have "check cfg (ExecutionGuard_new cfg) = Inl (Failed Cancelled)"
    using assms by (simp add: check_def is_cancelled_def load_cancelled_def ExecutionGuard_new_def)
  then show ?thesis by (simp add: evaluate_def evaluate_validated_def bind_def)
qed

lemma evaluate_cancelled_example:
  "evaluate (plain_config\<lparr>options := (options plain_config)\<lparr>cancellation_token := \<lparr>token_cancelled = True, token_check = None\<rparr>\<rparr>\<rparr>)
     ValidationLimits_default demo_program demo_facts = Inl (Failed Cancelled)"
  by (rule evaluate_cancelled [THEN conjunct1]) simp

end
