(* ===== verification/Datalog_Models.thy ===== *)
theory Datalog_Models
  imports Datalog_Evaluate
begin

text \<open>
  The model of a stratified program does not depend on the stratification, and every value in it
  comes from the input, from the program or from a generated blank node. These facts are used to
  compare a program with a translation of it.
\<close>

section \<open>Induction over the model\<close>

lemma perfect_model_induct:
  assumes lv: "levels_ok lv R" and f: "f \<in> perfect_model sk R base n"
    and base: "\<And>f. f \<in> base \<Longrightarrow> P f"
    and rule: "\<And>s r \<nu>. s \<le> n \<Longrightarrow> r \<in> R s \<Longrightarrow>
      body_holds sk r \<nu> (perfect_model sk R base n) (perfect_model sk R base n) \<Longrightarrow>
      (\<And>a. a \<in> set (positive_body r) \<Longrightarrow> P (ground sk r \<nu> a)) \<Longrightarrow> P (ground sk r \<nu> (head r))"
  shows "P f"
proof -
  let ?M = "perfect_model sk R base"
  have step: "P f" if f: "f \<in> stratum_model sk (R s) L" and s: "s \<le> n"
      and L: "L = (if s = 0 then base else ?M (s - 1))" and M: "?M s = stratum_model sk (R s) L"
      and low: "\<And>f. f \<in> L \<Longrightarrow> P f" for s f L
    using f
  proof induction
    case (derive r \<nu>)
    then have "body_holds sk r \<nu> (?M s) L" unfolding body_holds_def M by blast
    then have b: "body_holds sk r \<nu> (?M n) (?M n)"
      using body_holds_final(2) [OF lv derive(1) s] by (simp add: L)
    have "P (ground sk r \<nu> a)" if "a \<in> set (positive_body r)" for a
      using derive that by simp
    then show ?case by (rule rule [OF s derive(1) b])
  qed (rule low)
  have "P f" if "f \<in> ?M s" "s \<le> n" for s f
    using that
  proof (induction s arbitrary: f)
    case 0
    then have "f \<in> stratum_model sk (R 0) base" by simp
    then show ?case by (rule step) (use base in simp_all)
  next
    case (Suc s)
    then have "f \<in> stratum_model sk (R (Suc s)) (?M s)" by simp
    then show ?case
    proof (rule step)
      show "P f" if "f \<in> ?M s" for f using Suc.IH [OF that] Suc.prems(2) by simp
    qed (use Suc.prems(2) in simp_all)
  qed
  with f show ?thesis by blast
qed

section \<open>Independence of the stratification\<close>

lemma perfect_model_unique:
  assumes lv: "levels_ok lv R" and lv': "levels_ok lv' R'"
    and same: "(\<Union>s\<le>n. R s) = (\<Union>s\<le>m. R' s)"
  shows "perfect_model sk R base n = perfect_model sk R' base m"
proof -
  let ?M = "perfect_model sk R base n" and ?M' = "perfect_model sk R' base m"
  have strat: "rule_stratified lv r" if "s \<le> m" "r \<in> R' s" for r s
    using that same lv unfolding levels_ok_def by blast
  have "\<forall>f. lv (fact_relation f) \<le> k \<longrightarrow> (f \<in> ?M \<longleftrightarrow> f \<in> ?M')" for k
  proof (induction k rule: less_induct)
    case (less k)
    have neg: "ground sk r \<nu> a \<in> ?M \<longleftrightarrow> ground sk r \<nu> a \<in> ?M'"
      if "rule_stratified lv r" "lv (relation (head r)) \<le> k" "a \<in> set (negative_body r)" for r \<nu> a
      using that less [of "lv (relation a)"] by (auto simp: rule_stratified_def)
    have "lv (fact_relation f) \<le> k \<longrightarrow> f \<in> ?M'" if "f \<in> ?M" for f
      using lv that
    proof (rule perfect_model_induct)
      show "lv (fact_relation f) \<le> k \<longrightarrow> f \<in> ?M'" if "f \<in> base" for f
        using that perfect_model_base by blast
    next
      fix s r \<nu>
      assume r: "s \<le> n" "r \<in> R s" and b: "body_holds sk r \<nu> ?M ?M"
        and pos: "\<And>a. a \<in> set (positive_body r) \<Longrightarrow>
          lv (fact_relation (ground sk r \<nu> a)) \<le> k \<longrightarrow> ground sk r \<nu> a \<in> ?M'"
      show "lv (fact_relation (ground sk r \<nu> (head r))) \<le> k \<longrightarrow> ground sk r \<nu> (head r) \<in> ?M'"
      proof
        assume h: "lv (fact_relation (ground sk r \<nu> (head r))) \<le> k"
        have st: "rule_stratified lv r" using lv r(2) by (simp add: levels_ok_def)
        obtain s' where s': "s' \<le> m" "r \<in> R' s'" using same r by blast
        have "ground sk r \<nu> a \<in> ?M'" if "a \<in> set (positive_body r)" for a
          using pos [OF that] st h that by (auto simp: rule_stratified_def)
        moreover have "ground sk r \<nu> a \<notin> ?M'" if "a \<in> set (negative_body r)" for a
          using neg [OF st _ that, of \<nu>] h b that by (auto simp: body_holds_def)
        ultimately have "body_holds sk r \<nu> ?M' ?M'" by (auto simp: body_holds_def)
        then show "ground sk r \<nu> (head r) \<in> ?M'" by (rule perfect_model_closed [OF lv' s'(2,1)])
      qed
    qed
    moreover have "lv (fact_relation f) \<le> k \<longrightarrow> f \<in> ?M" if "f \<in> ?M'" for f
      using lv' that
    proof (rule perfect_model_induct)
      show "lv (fact_relation f) \<le> k \<longrightarrow> f \<in> ?M" if "f \<in> base" for f
        using that perfect_model_base by blast
    next
      fix s r \<nu>
      assume r: "s \<le> m" "r \<in> R' s" and b: "body_holds sk r \<nu> ?M' ?M'"
        and pos: "\<And>a. a \<in> set (positive_body r) \<Longrightarrow>
          lv (fact_relation (ground sk r \<nu> a)) \<le> k \<longrightarrow> ground sk r \<nu> a \<in> ?M"
      show "lv (fact_relation (ground sk r \<nu> (head r))) \<le> k \<longrightarrow> ground sk r \<nu> (head r) \<in> ?M"
      proof
        assume h: "lv (fact_relation (ground sk r \<nu> (head r))) \<le> k"
        note st = strat [OF r]
        obtain s' where s': "s' \<le> n" "r \<in> R s'" using same r by blast
        have "ground sk r \<nu> a \<in> ?M" if "a \<in> set (positive_body r)" for a
          using pos [OF that] st h that by (auto simp: rule_stratified_def)
        moreover have "ground sk r \<nu> a \<notin> ?M" if "a \<in> set (negative_body r)" for a
          using neg [OF st _ that, of \<nu>] h b that by (auto simp: body_holds_def)
        ultimately have "body_holds sk r \<nu> ?M ?M" by (auto simp: body_holds_def)
        then show "ground sk r \<nu> (head r) \<in> ?M" by (rule perfect_model_closed [OF lv s'(2,1)])
      qed
    qed
    ultimately show ?case by blast
  qed
  then show ?thesis by blast
qed

lemma rules_at_union:
  assumes "vp_ok vp"
  shows "(\<Union>s\<le>vp_max_stratum vp. rules_at vp s) = set (vp_rules vp)"
proof
  show "set (vp_rules vp) \<subseteq> (\<Union>s\<le>vp_max_stratum vp. rules_at vp s)"
  proof
    fix r assume r: "r \<in> set (vp_rules vp)"
    have s: "vp_stratum vp (relation (head r)) = Some (level vp (relation (head r)))"
      by (rule vp_stratum_level [OF assms atom_relation_in_program [OF r]]) (simp add: rule_atoms_def)
    with r max_stratum_ge [OF s] show "r \<in> (\<Union>s\<le>vp_max_stratum vp. rules_at vp s)"
      by (auto simp: rules_at_def)
  qed
qed (auto simp: rules_at_def)

lemma program_model_eq:
  assumes "vp_ok vp" and "levels_ok lv R" and "(\<Union>s\<le>n. R s) = set (vp_rules vp)"
  shows "program_model sk vp base = perfect_model sk R base n"
  unfolding program_model_def
  by (rule perfect_model_unique [OF levels_ok_rules_at [OF assms(1)] assms(2)])
    (simp add: rules_at_union [OF assms(1)] assms(3))

lemma program_model_induct:
  assumes vp: "vp_ok vp" and f: "f \<in> program_model sk vp base"
    and base: "\<And>f. f \<in> base \<Longrightarrow> P f"
    and rule: "\<And>r \<nu>. r \<in> set (vp_rules vp) \<Longrightarrow>
      body_holds sk r \<nu> (program_model sk vp base) (program_model sk vp base) \<Longrightarrow>
      (\<And>a. a \<in> set (positive_body r) \<Longrightarrow> P (ground sk r \<nu> a)) \<Longrightarrow> P (ground sk r \<nu> (head r))"
  shows "P f"
  using levels_ok_rules_at [OF vp] f [unfolded program_model_def] base
proof (rule perfect_model_induct)
  show "P (ground sk r \<nu> (head r))"
    if "r \<in> rules_at vp s" "body_holds sk r \<nu> (perfect_model sk (rules_at vp) base (vp_max_stratum vp))
      (perfect_model sk (rules_at vp) base (vp_max_stratum vp))"
      "\<And>a. a \<in> set (positive_body r) \<Longrightarrow> P (ground sk r \<nu> a)" for s r \<nu>
    using that rule [of r \<nu>] by (auto simp: rules_at_def program_model_def)
qed

end
