(* ===== verification/Rdf_Literals.thy ===== *)
theory Rdf_Literals
  imports Rdf_Terms
begin

text \<open>
  Construction and inspection of literals (\<open>oxrdf/src/literal.rs\<close>, with the \<open>rdf-12\<close>
  feature), and the representation invariant of terms. The constructors normalise: an
  \<open>xsd:string\<close> literal is always the \<open>String\<close> variant, and the two datatypes that need a
  language tag are refused by the typed constructors. A panic is \<open>None\<close>.
\<close>

section \<open>Vocabulary\<close>

definition xsd_STRING :: NamedNode where
  "xsd_STRING = NamedNode_new_unchecked ''http://www.w3.org/2001/XMLSchema#string''"

definition xsd_BOOLEAN :: NamedNode where
  "xsd_BOOLEAN = NamedNode_new_unchecked ''http://www.w3.org/2001/XMLSchema#boolean''"

definition xsd_INTEGER :: NamedNode where
  "xsd_INTEGER = NamedNode_new_unchecked ''http://www.w3.org/2001/XMLSchema#integer''"

definition rdf_LANG_STRING :: NamedNode where
  "rdf_LANG_STRING =
     NamedNode_new_unchecked ''http://www.w3.org/1999/02/22-rdf-syntax-ns#langString''"

definition rdf_DIR_LANG_STRING :: NamedNode where
  "rdf_DIR_LANG_STRING =
     NamedNode_new_unchecked ''http://www.w3.org/1999/02/22-rdf-syntax-ns#dirLangString''"

lemmas vocab_defs = xsd_STRING_def xsd_BOOLEAN_def xsd_INTEGER_def rdf_LANG_STRING_def
  rdf_DIR_LANG_STRING_def NamedNode_new_unchecked_def

section \<open>Constructors\<close>

datatype InvalidLiteralDatatypeError = LangString | DirLangString

definition invalid_typed_literal_datatype :: "NamedNode \<Rightarrow> InvalidLiteralDatatypeError option" where
  "invalid_typed_literal_datatype dt =
     (if dt = rdf_LANG_STRING then Some LangString
      else if dt = rdf_DIR_LANG_STRING then Some DirLangString
      else None)"

definition new_simple_literal :: "string \<Rightarrow> Literal" where
  "new_simple_literal v = LString v"

definition new_typed_literal_validated :: "string \<Rightarrow> NamedNode \<Rightarrow> Literal" where
  "new_typed_literal_validated v dt = (if dt = xsd_STRING then LString v else TypedLiteral v dt)"

definition new_typed_literal :: "string \<Rightarrow> NamedNode \<Rightarrow> Literal option" where
  "new_typed_literal v dt =
     (if invalid_typed_literal_datatype dt = None then Some (new_typed_literal_validated v dt)
      else None)"

definition try_new_typed_literal :: "string \<Rightarrow> NamedNode \<Rightarrow> InvalidLiteralDatatypeError + Literal" where
  "try_new_typed_literal v dt =
     (case invalid_typed_literal_datatype dt of
        Some e \<Rightarrow> Inl e
      | None \<Rightarrow> Inr (new_typed_literal_validated v dt))"

definition new_language_tagged_literal_unchecked :: "string \<Rightarrow> string \<Rightarrow> Literal" where
  "new_language_tagged_literal_unchecked v language = LanguageTaggedString v language"

definition new_directional_language_tagged_literal_unchecked ::
  "string \<Rightarrow> string \<Rightarrow> BaseDirection \<Rightarrow> Literal" where
  "new_directional_language_tagged_literal_unchecked v language direction =
     DirectionalLanguageTaggedString v language direction"

text \<open>
  \<open>u8::is_ascii_lowercase\<close> and \<open>make_ascii_lowercase\<close>. The language tag parser belongs to the
  crate \<open>oxilangtag\<close> and is the argument \<open>parse\<close>.
\<close>

definition is_ascii_lowercase :: "char \<Rightarrow> bool" where
  "is_ascii_lowercase c \<longleftrightarrow> 97 \<le> (of_char c :: nat) \<and> (of_char c :: nat) \<le> 122"

definition ascii_lowercase :: "char \<Rightarrow> char" where
  "ascii_lowercase c =
     (if 65 \<le> (of_char c :: nat) \<and> (of_char c :: nat) \<le> 90 then char_of (of_char c + 32 :: nat) else c)"

definition lowercase_tag :: "string \<Rightarrow> string" where
  "lowercase_tag language =
     (if list_all is_ascii_lowercase language then language else map ascii_lowercase language)"

definition new_language_tagged_literal ::
  "(string \<Rightarrow> 'e + string) \<Rightarrow> string \<Rightarrow> string \<Rightarrow> 'e + Literal" where
  "new_language_tagged_literal parse v language =
     (case parse (lowercase_tag language) of
        Inl e \<Rightarrow> Inl e
      | Inr tag \<Rightarrow> Inr (new_language_tagged_literal_unchecked v tag))"

definition new_directional_language_tagged_literal ::
  "(string \<Rightarrow> 'e + string) \<Rightarrow> string \<Rightarrow> string \<Rightarrow> BaseDirection \<Rightarrow> 'e + Literal" where
  "new_directional_language_tagged_literal parse v language direction =
     (case parse (lowercase_tag language) of
        Inl e \<Rightarrow> Inl e
      | Inr tag \<Rightarrow> Inr (new_directional_language_tagged_literal_unchecked v tag direction))"

definition show_int :: "int \<Rightarrow> string" where
  "show_int z = (if z < 0 then ''-'' @ show_nat (nat (- z)) else show_nat (nat z))"

definition Literal_from_bool :: "bool \<Rightarrow> Literal" where
  "Literal_from_bool b = TypedLiteral (if b then ''true'' else ''false'') xsd_BOOLEAN"

definition Literal_from_i64 :: "int \<Rightarrow> Literal" where
  "Literal_from_i64 z = TypedLiteral (show_int z) xsd_INTEGER"

section \<open>Accessors\<close>

fun Literal_value :: "Literal \<Rightarrow> string" where
  "Literal_value (LString v) = v"
| "Literal_value (LanguageTaggedString v _) = v"
| "Literal_value (DirectionalLanguageTaggedString v _ _) = v"
| "Literal_value (TypedLiteral v _) = v"

fun Literal_language :: "Literal \<Rightarrow> string option" where
  "Literal_language (LanguageTaggedString _ language) = Some language"
| "Literal_language (DirectionalLanguageTaggedString _ language _) = Some language"
| "Literal_language _ = None"

fun Literal_direction :: "Literal \<Rightarrow> BaseDirection option" where
  "Literal_direction (DirectionalLanguageTaggedString _ _ direction) = Some direction"
| "Literal_direction _ = None"

fun Literal_datatype :: "Literal \<Rightarrow> NamedNode" where
  "Literal_datatype (LString _) = xsd_STRING"
| "Literal_datatype (LanguageTaggedString _ _) = rdf_LANG_STRING"
| "Literal_datatype (DirectionalLanguageTaggedString _ _ _) = rdf_DIR_LANG_STRING"
| "Literal_datatype (TypedLiteral _ dt) = dt"

fun Literal_destruct ::
  "Literal \<Rightarrow> string \<times> NamedNode option \<times> string option \<times> BaseDirection option" where
  "Literal_destruct (LString s) = (s, None, None, None)"
| "Literal_destruct (LanguageTaggedString v language) = (v, None, Some language, None)"
| "Literal_destruct (DirectionalLanguageTaggedString v language direction) =
     (v, None, Some language, Some direction)"
| "Literal_destruct (TypedLiteral v dt) = (v, Some dt, None, None)"

section \<open>The representation invariant\<close>

fun literal_ok :: "Literal \<Rightarrow> bool" where
  "literal_ok (TypedLiteral _ dt) \<longleftrightarrow>
     dt \<noteq> xsd_STRING \<and> dt \<noteq> rdf_LANG_STRING \<and> dt \<noteq> rdf_DIR_LANG_STRING"
| "literal_ok _ \<longleftrightarrow> True"

text \<open>
  A numeric blank node other than the one with identifier 0, whose label \<open>0\<close> reads back as a
  plain label.
\<close>

fun blank_ok :: "BlankNode \<Rightarrow> bool" where
  "blank_ok (BNamed s) \<longleftrightarrow> to_integer_id s = None"
| "blank_ok (BAnonymous n) \<longleftrightarrow> 0 < n \<and> n \<le> u128_max"

fun node_ok :: "NamedOrBlankNode \<Rightarrow> bool" where
  "node_ok (NobNamedNode _) \<longleftrightarrow> True"
| "node_ok (NobBlankNode b) \<longleftrightarrow> blank_ok b"

fun term_ok :: "Term \<Rightarrow> bool" where
  "term_ok (TNamedNode _) \<longleftrightarrow> True"
| "term_ok (TBlankNode b) \<longleftrightarrow> blank_ok b"
| "term_ok (TLiteral l) \<longleftrightarrow> literal_ok l"
| "term_ok (TTriple (TripleNew s p ob)) \<longleftrightarrow> node_ok s \<and> term_ok ob"

fun graph_ok :: "GraphName \<Rightarrow> bool" where
  "graph_ok (GBlankNode b) \<longleftrightarrow> blank_ok b"
| "graph_ok _ \<longleftrightarrow> True"

definition quad_ok :: "Quad \<Rightarrow> bool" where
  "quad_ok q \<longleftrightarrow> node_ok (subject q) \<and> term_ok (object q) \<and> graph_ok (graph_name q)"

lemma invalid_typed_literal_datatype_None [simp]:
  "invalid_typed_literal_datatype dt = None \<longleftrightarrow> dt \<noteq> rdf_LANG_STRING \<and> dt \<noteq> rdf_DIR_LANG_STRING"
  by (simp add: invalid_typed_literal_datatype_def)

lemma new_typed_literal_SomeD:
  "new_typed_literal v dt = Some l \<Longrightarrow> literal_ok l \<and> Literal_value l = v \<and> Literal_datatype l = dt"
  by (auto simp: new_typed_literal_def new_typed_literal_validated_def split: if_splits)

lemma new_typed_literal_ok:
  "literal_ok (TypedLiteral v dt) \<Longrightarrow> new_typed_literal v dt = Some (TypedLiteral v dt)"
  by (simp add: new_typed_literal_def new_typed_literal_validated_def)

lemma integer_id_loop_bound: "integer_id_loop v s = Some n \<Longrightarrow> v \<le> u128_max \<Longrightarrow> n \<le> u128_max"
  by (induction s arbitrary: v) (auto split: if_splits option.splits)

lemma blank_ok_new_unchecked: "blank_ok (BlankNode_new_unchecked s)"
proof (cases "to_integer_id s")
  case None
  then show ?thesis by (simp add: BlankNode_new_unchecked_def)
next
  case (Some n)
  then have "integer_id_loop 0 s = Some n"
    by (auto simp: to_integer_id_def split: list.splits if_splits)
  with Some show ?thesis
    by (auto simp: BlankNode_new_unchecked_def BlankNode_new_from_unique_id_def
        dest: to_integer_id_SomeD integer_id_loop_bound)
qed

lemma blank_roundtrip: "blank_ok b \<Longrightarrow> BlankNode_new_unchecked (BlankNode_as_str b) = b"
  by (cases b) (auto simp: BlankNode_new_unchecked_def BlankNode_new_from_unique_id_def
      to_integer_id_show_hex)

section \<open>Properties\<close>

text \<open>
  C36. The literal constructors return literals in the normal form of the type: the typed constructor
  keeps the value and the datatype and gives no language, refuses exactly the two datatypes that
  need a language tag (as an error, or as a panic in the unchecked variant), and the language-tagged
  constructors keep the value, the parsed tag and the direction, with the datatype that goes with
  them.
\<close>

theorem literal_constructors_typed:
  "(case try_new_typed_literal v dt of
      Inl e \<Rightarrow> dt = (case e of LangString \<Rightarrow> rdf_LANG_STRING | DirLangString \<Rightarrow> rdf_DIR_LANG_STRING) \<and>
        new_typed_literal v dt = None
    | Inr l \<Rightarrow> literal_ok l \<and> Literal_destruct l = (v, if dt = xsd_STRING then None else Some dt, None, None) \<and>
        Literal_value l = v \<and> Literal_datatype l = dt \<and> new_typed_literal v dt = Some l) \<and>
   (case new_language_tagged_literal parse v language of
      Inl e \<Rightarrow> parse (lowercase_tag language) = Inl e
    | Inr l \<Rightarrow> (\<exists>tag. parse (lowercase_tag language) = Inr tag \<and> literal_ok l \<and>
        Literal_destruct l = (v, None, Some tag, None) \<and> Literal_datatype l = rdf_LANG_STRING)) \<and>
   (case new_directional_language_tagged_literal parse v language direction of
      Inl e \<Rightarrow> parse (lowercase_tag language) = Inl e
    | Inr l \<Rightarrow> (\<exists>tag. parse (lowercase_tag language) = Inr tag \<and> literal_ok l \<and>
        Literal_destruct l = (v, None, Some tag, Some direction) \<and>
        Literal_datatype l = rdf_DIR_LANG_STRING))"
  by (auto simp: try_new_typed_literal_def new_typed_literal_def new_typed_literal_validated_def
      new_language_tagged_literal_def new_directional_language_tagged_literal_def
      new_language_tagged_literal_unchecked_def new_directional_language_tagged_literal_unchecked_def
      invalid_typed_literal_datatype_def vocab_defs split: sum.splits)

end
