(* ===== verification/Rdf_Interning.thy ===== *)
theory Rdf_Interning
  imports Rdf_Literals "HOL-Library.Sublist"
begin

text \<open>
  The interned terms of the in-memory RDF dataset (\<open>oxrdf/src/interning.rs\<close>), their derived
  order, and the bounds \<open>first\<close>, \<open>next\<close> and \<open>impossible\<close> that the range queries of the
  dataset use. The lemmas show that \<open>next\<close> is the successor in that order for every value
  below the largest key and the largest blank node number.
\<close>

section \<open>Interned terms\<close>

definition u64_max :: nat where
  "u64_max = 2 ^ 64 - 1"

lemma u64_max_code [code]: "u64_max = 18446744073709551615"
  by (simp add: u64_max_def)

definition Key_first :: nat where
  "Key_first = 0"

definition Key_next :: "nat \<Rightarrow> nat" where
  "Key_next k = min u64_max (k + 1)"

definition Key_impossible :: nat where
  "Key_impossible = u64_max"

datatype InternedNamedNode = InternedNamedNode (named_id: nat)

datatype InternedBlankNode = INumber nat | IOther nat

datatype InternedLiteral =
    IString nat
  | ILanguageTaggedString nat nat
  | IDirectionalLanguageTaggedString nat nat bool
  | ITypedLiteral nat InternedNamedNode

datatype InternedNamedOrBlankNode =
    INobNamedNode InternedNamedNode
  | INobBlankNode InternedBlankNode

datatype InternedGraphName =
    IDefaultGraph
  | IGNamedNode InternedNamedNode
  | IGBlankNode InternedBlankNode

text \<open>The boxed \<open>InternedTriple\<close> of a quoted triple is spelled out as its three fields.\<close>

datatype InternedTerm =
    ITNamedNode InternedNamedNode
  | ITBlankNode InternedBlankNode
  | ITLiteral InternedLiteral
  | ITTriple InternedNamedOrBlankNode InternedNamedNode InternedTerm

type_synonym InternedTriple = "InternedNamedOrBlankNode \<times> InternedNamedNode \<times> InternedTerm"

section \<open>Order\<close>

text \<open>
  The derived \<open>Ord\<close> compares the position of the variant first and then the fields from left
  to right: the lexicographic order of the sequences below.
\<close>

fun named_code :: "InternedNamedNode \<Rightarrow> nat list" where
  "named_code (InternedNamedNode k) = [k]"

fun blank_code :: "InternedBlankNode \<Rightarrow> nat list" where
  "blank_code (INumber n) = [0, n]"
| "blank_code (IOther k) = [1, k]"

fun literal_code :: "InternedLiteral \<Rightarrow> nat list" where
  "literal_code (IString v) = [0, v]"
| "literal_code (ILanguageTaggedString v l) = [1, v, l]"
| "literal_code (IDirectionalLanguageTaggedString v l is_ltr) = [2, v, l, of_bool is_ltr]"
| "literal_code (ITypedLiteral v dt) = 3 # v # named_code dt"

fun node_code :: "InternedNamedOrBlankNode \<Rightarrow> nat list" where
  "node_code (INobNamedNode n) = 0 # named_code n"
| "node_code (INobBlankNode b) = 1 # blank_code b"

fun graph_code :: "InternedGraphName \<Rightarrow> nat list" where
  "graph_code IDefaultGraph = [0]"
| "graph_code (IGNamedNode n) = 1 # named_code n"
| "graph_code (IGBlankNode b) = 2 # blank_code b"

fun term_code :: "InternedTerm \<Rightarrow> nat list" where
  "term_code (ITNamedNode n) = 0 # named_code n"
| "term_code (ITBlankNode b) = 1 # blank_code b"
| "term_code (ITLiteral l) = 2 # literal_code l"
| "term_code (ITTriple s p ob) = 3 # node_code s @ named_code p @ term_code ob"

lemma named_code_append_eq [simp]: "named_code n @ r = named_code m @ s \<longleftrightarrow> n = m \<and> r = s"
  by (cases n; cases m) auto

lemma blank_code_append_eq [simp]: "blank_code n @ r = blank_code m @ s \<longleftrightarrow> n = m \<and> r = s"
  by (cases n; cases m) auto

lemma literal_code_append_eq [simp]: "literal_code n @ r = literal_code m @ s \<longleftrightarrow> n = m \<and> r = s"
  by (cases n; cases m) auto

lemma node_code_append_eq [simp]: "node_code n @ r = node_code m @ s \<longleftrightarrow> n = m \<and> r = s"
  by (cases n; cases m) auto

lemma graph_code_append_eq [simp]: "graph_code n @ r = graph_code m @ s \<longleftrightarrow> n = m \<and> r = s"
  by (cases n; cases m) auto

lemma term_code_append_eq [simp]: "term_code n @ r = term_code m @ s \<longleftrightarrow> n = m \<and> r = s"
proof (induction n arbitrary: m r s)
  case (ITTriple x y n)
  then show ?case by (cases m) auto
qed (case_tac m; auto)+

lemmas code_append_eqs = named_code_append_eq blank_code_append_eq literal_code_append_eq
  node_code_append_eq graph_code_append_eq term_code_append_eq

lemmas code_eqs [simp] = code_append_eqs [where r = "[]" and s = "[]", simplified]

instantiation InternedNamedNode :: linorder
begin

definition less_eq_InternedNamedNode :: "InternedNamedNode \<Rightarrow> InternedNamedNode \<Rightarrow> bool" where
  "x \<le> y \<longleftrightarrow> named_code x \<le> named_code y"

definition less_InternedNamedNode :: "InternedNamedNode \<Rightarrow> InternedNamedNode \<Rightarrow> bool" where
  "x < y \<longleftrightarrow> named_code x < named_code y"

instance
  by standard (auto simp: less_le less_eq_InternedNamedNode_def less_InternedNamedNode_def)

end

instantiation InternedBlankNode :: linorder
begin

definition less_eq_InternedBlankNode :: "InternedBlankNode \<Rightarrow> InternedBlankNode \<Rightarrow> bool" where
  "x \<le> y \<longleftrightarrow> blank_code x \<le> blank_code y"

definition less_InternedBlankNode :: "InternedBlankNode \<Rightarrow> InternedBlankNode \<Rightarrow> bool" where
  "x < y \<longleftrightarrow> blank_code x < blank_code y"

instance
  by standard (auto simp: less_le less_eq_InternedBlankNode_def less_InternedBlankNode_def)

end

instantiation InternedLiteral :: linorder
begin

definition less_eq_InternedLiteral :: "InternedLiteral \<Rightarrow> InternedLiteral \<Rightarrow> bool" where
  "x \<le> y \<longleftrightarrow> literal_code x \<le> literal_code y"

definition less_InternedLiteral :: "InternedLiteral \<Rightarrow> InternedLiteral \<Rightarrow> bool" where
  "x < y \<longleftrightarrow> literal_code x < literal_code y"

instance
  by standard (auto simp: less_le less_eq_InternedLiteral_def less_InternedLiteral_def)

end

instantiation InternedNamedOrBlankNode :: linorder
begin

definition less_eq_InternedNamedOrBlankNode ::
  "InternedNamedOrBlankNode \<Rightarrow> InternedNamedOrBlankNode \<Rightarrow> bool" where
  "x \<le> y \<longleftrightarrow> node_code x \<le> node_code y"

definition less_InternedNamedOrBlankNode ::
  "InternedNamedOrBlankNode \<Rightarrow> InternedNamedOrBlankNode \<Rightarrow> bool" where
  "x < y \<longleftrightarrow> node_code x < node_code y"

instance
  by standard (auto simp: less_le less_eq_InternedNamedOrBlankNode_def less_InternedNamedOrBlankNode_def)

end

instantiation InternedGraphName :: linorder
begin

definition less_eq_InternedGraphName :: "InternedGraphName \<Rightarrow> InternedGraphName \<Rightarrow> bool" where
  "x \<le> y \<longleftrightarrow> graph_code x \<le> graph_code y"

definition less_InternedGraphName :: "InternedGraphName \<Rightarrow> InternedGraphName \<Rightarrow> bool" where
  "x < y \<longleftrightarrow> graph_code x < graph_code y"

instance
  by standard (auto simp: less_le less_eq_InternedGraphName_def less_InternedGraphName_def)

end

instantiation InternedTerm :: linorder
begin

definition less_eq_InternedTerm :: "InternedTerm \<Rightarrow> InternedTerm \<Rightarrow> bool" where
  "x \<le> y \<longleftrightarrow> term_code x \<le> term_code y"

definition less_InternedTerm :: "InternedTerm \<Rightarrow> InternedTerm \<Rightarrow> bool" where
  "x < y \<longleftrightarrow> term_code x < term_code y"

instance
  by standard (auto simp: less_le less_eq_InternedTerm_def less_InternedTerm_def)

end

lemmas order_defs =
  less_eq_InternedNamedNode_def less_InternedNamedNode_def
  less_eq_InternedBlankNode_def less_InternedBlankNode_def
  less_eq_InternedLiteral_def less_InternedLiteral_def
  less_eq_InternedNamedOrBlankNode_def less_InternedNamedOrBlankNode_def
  less_eq_InternedGraphName_def less_InternedGraphName_def
  less_eq_InternedTerm_def less_InternedTerm_def

section \<open>First and next\<close>

text \<open>
  The bounds of the range queries: the least value of a type, and the value after a given one.
\<close>

definition InternedNamedNode_first :: InternedNamedNode where
  "InternedNamedNode_first = InternedNamedNode Key_first"

fun InternedNamedNode_next :: "InternedNamedNode \<Rightarrow> InternedNamedNode" where
  "InternedNamedNode_next (InternedNamedNode k) = InternedNamedNode (Key_next k)"

definition InternedNamedNode_impossible :: InternedNamedNode where
  "InternedNamedNode_impossible = InternedNamedNode Key_impossible"

fun InternedBlankNode_next :: "InternedBlankNode \<Rightarrow> InternedBlankNode" where
  "InternedBlankNode_next (INumber n) = INumber (min u128_max (n + 1))"
| "InternedBlankNode_next (IOther k) = IOther (Key_next k)"

fun InternedLiteral_next :: "InternedLiteral \<Rightarrow> InternedLiteral" where
  "InternedLiteral_next (IString v) = IString (Key_next v)"
| "InternedLiteral_next (ILanguageTaggedString v l) = ILanguageTaggedString v (Key_next l)"
| "InternedLiteral_next (IDirectionalLanguageTaggedString v l is_ltr) =
     IDirectionalLanguageTaggedString v (if is_ltr then Key_next l else l) (\<not> is_ltr)"
| "InternedLiteral_next (ITypedLiteral v dt) = ITypedLiteral v (InternedNamedNode_next dt)"

definition InternedNamedOrBlankNode_first :: InternedNamedOrBlankNode where
  "InternedNamedOrBlankNode_first = INobNamedNode InternedNamedNode_first"

fun InternedNamedOrBlankNode_next :: "InternedNamedOrBlankNode \<Rightarrow> InternedNamedOrBlankNode" where
  "InternedNamedOrBlankNode_next (INobNamedNode n) = INobNamedNode (InternedNamedNode_next n)"
| "InternedNamedOrBlankNode_next (INobBlankNode b) = INobBlankNode (InternedBlankNode_next b)"

definition InternedNamedOrBlankNode_impossible :: InternedNamedOrBlankNode where
  "InternedNamedOrBlankNode_impossible = INobNamedNode InternedNamedNode_impossible"

definition InternedGraphName_first :: InternedGraphName where
  "InternedGraphName_first = IDefaultGraph"

fun InternedGraphName_next :: "InternedGraphName \<Rightarrow> InternedGraphName" where
  "InternedGraphName_next IDefaultGraph = IGNamedNode InternedNamedNode_first"
| "InternedGraphName_next (IGNamedNode n) = IGNamedNode (InternedNamedNode_next n)"
| "InternedGraphName_next (IGBlankNode b) = IGBlankNode (InternedBlankNode_next b)"

definition InternedGraphName_impossible :: InternedGraphName where
  "InternedGraphName_impossible = IGNamedNode InternedNamedNode_impossible"

definition InternedTerm_first :: InternedTerm where
  "InternedTerm_first = ITNamedNode InternedNamedNode_first"

fun InternedTerm_next :: "InternedTerm \<Rightarrow> InternedTerm" where
  "InternedTerm_next (ITNamedNode n) = ITNamedNode (InternedNamedNode_next n)"
| "InternedTerm_next (ITBlankNode b) = ITBlankNode (InternedBlankNode_next b)"
| "InternedTerm_next (ITLiteral l) = ITLiteral (InternedLiteral_next l)"
| "InternedTerm_next (ITTriple s p ob) = ITTriple s p (InternedTerm_next ob)"

definition InternedTerm_impossible :: InternedTerm where
  "InternedTerm_impossible = ITNamedNode InternedNamedNode_impossible"

text \<open>
  The values a \<open>next\<close> is the successor of. A key below \<open>u64::MAX\<close> is what the interner hands
  out; a numeric blank node with identifier \<open>u128::MAX\<close> has no successor.
\<close>

fun named_bounded :: "InternedNamedNode \<Rightarrow> bool" where
  "named_bounded (InternedNamedNode k) \<longleftrightarrow> k < u64_max"

fun blank_bounded :: "InternedBlankNode \<Rightarrow> bool" where
  "blank_bounded (INumber n) \<longleftrightarrow> n < u128_max"
| "blank_bounded (IOther k) \<longleftrightarrow> k < u64_max"

fun literal_bounded :: "InternedLiteral \<Rightarrow> bool" where
  "literal_bounded (IString v) \<longleftrightarrow> v < u64_max"
| "literal_bounded (ILanguageTaggedString v l) \<longleftrightarrow> l < u64_max"
| "literal_bounded (IDirectionalLanguageTaggedString v l is_ltr) \<longleftrightarrow> l < u64_max"
| "literal_bounded (ITypedLiteral v dt) \<longleftrightarrow> named_bounded dt"

fun node_bounded :: "InternedNamedOrBlankNode \<Rightarrow> bool" where
  "node_bounded (INobNamedNode n) \<longleftrightarrow> named_bounded n"
| "node_bounded (INobBlankNode b) \<longleftrightarrow> blank_bounded b"

fun graph_bounded :: "InternedGraphName \<Rightarrow> bool" where
  "graph_bounded IDefaultGraph \<longleftrightarrow> True"
| "graph_bounded (IGNamedNode n) \<longleftrightarrow> named_bounded n"
| "graph_bounded (IGBlankNode b) \<longleftrightarrow> blank_bounded b"

fun term_bounded :: "InternedTerm \<Rightarrow> bool" where
  "term_bounded (ITNamedNode n) \<longleftrightarrow> named_bounded n"
| "term_bounded (ITBlankNode b) \<longleftrightarrow> blank_bounded b"
| "term_bounded (ITLiteral l) \<longleftrightarrow> literal_bounded l"
| "term_bounded (ITTriple s p ob) \<longleftrightarrow> term_bounded ob"

lemmas first_defs = InternedNamedNode_first_def InternedNamedOrBlankNode_first_def
  InternedGraphName_first_def InternedTerm_first_def Key_first_def

lemma named_code_id: "named_code n = [named_id n]"
  by (cases n) simp

lemma named_first_le [simp]: "InternedNamedNode_first \<le> n"
  by (cases n) (auto simp: order_defs first_defs)

lemma node_first_le [simp]: "InternedNamedOrBlankNode_first \<le> n"
  by (cases n) (auto simp: order_defs first_defs named_code_id)

lemma term_first_le [simp]: "InternedTerm_first \<le> t"
  by (cases t) (auto simp: order_defs first_defs named_code_id)

lemma graph_first_le [simp]: "InternedGraphName_first \<le> g"
  by (cases g) (auto simp: order_defs first_defs)

lemma append_less_append_iff:
  fixes xs ys :: "'a::linorder list"
  assumes "\<not> prefix xs ys" and "\<not> prefix ys xs"
  shows "xs @ r < ys @ s \<longleftrightarrow> xs < ys"
  using assms by (induction xs arbitrary: ys) (case_tac ys; auto)+

lemma same_append_less_iff: "xs @ r < xs @ s \<longleftrightarrow> r < (s :: 'a::linorder list)"
  by (induction xs) auto

lemma code_append_less:
  fixes c :: "'x \<Rightarrow> nat list"
  assumes "\<And>x y r s. c x @ r = c y @ s \<longleftrightarrow> x = y \<and> r = s"
  shows "c x @ r < c y @ s \<longleftrightarrow> c x < c y \<or> x = y \<and> r < s"
proof (cases "x = y")
  case False
  then have "\<not> prefix (c x) (c y)" and "\<not> prefix (c y) (c x)"
    by (metis append_Nil2 assms prefix_def)+
  with False show ?thesis by (simp add: append_less_append_iff)
qed (simp add: same_append_less_iff)

lemmas code_append_lesses = code_append_less [of node_code, OF node_code_append_eq]
  code_append_less [of named_code, OF named_code_append_eq]

lemma named_next:
  "named_bounded n \<Longrightarrow> n \<le> m \<and> m < InternedNamedNode_next n \<longleftrightarrow> m = n"
  by (cases n; cases m) (auto simp: order_defs Key_next_def)

lemma blank_next:
  "blank_bounded n \<Longrightarrow> n \<le> m \<and> m < InternedBlankNode_next n \<longleftrightarrow> m = n"
  by (cases n; cases m) (auto simp: order_defs Key_next_def)

lemma literal_next:
  "literal_bounded n \<Longrightarrow> n \<le> m \<and> m < InternedLiteral_next n \<longleftrightarrow> m = n"
  using named_next
  by (cases n; cases m) (auto simp: order_defs Key_next_def of_bool_def split: if_splits)

lemma node_next:
  "node_bounded n \<Longrightarrow> n \<le> m \<and> m < InternedNamedOrBlankNode_next n \<longleftrightarrow> m = n"
  using named_next blank_next
  by (cases n; cases m) (auto simp: order_defs)

lemma graph_next:
  "graph_bounded n \<Longrightarrow> n \<le> m \<and> m < InternedGraphName_next n \<longleftrightarrow> m = n"
proof (cases n)
  case IDefaultGraph
  then show ?thesis by (cases m) (auto simp: order_defs first_defs named_code_id)
qed (cases m; use named_next blank_next in \<open>auto simp: order_defs\<close>)+

lemma ITTriple_less [simp]:
  "ITTriple s p x < ITTriple s' p' x' \<longleftrightarrow> s < s' \<or> s = s' \<and> (p < p' \<or> p = p' \<and> x < x')"
  by (simp add: order_defs code_append_lesses)

lemma ITTriple_le [simp]:
  "ITTriple s p x \<le> ITTriple s' p' x' \<longleftrightarrow> s < s' \<or> s = s' \<and> (p < p' \<or> p = p' \<and> x \<le> x')"
  by (auto simp: le_less)

lemma term_next:
  "term_bounded n \<Longrightarrow> n \<le> m \<and> m < InternedTerm_next n \<longleftrightarrow> m = n"
proof (induction n arbitrary: m)
  case (ITTriple s p ob)
  show ?case
  proof (cases "\<exists>s' p' x. m = ITTriple s' p' x")
    case True
    then obtain s' p' x where m: "m = ITTriple s' p' x" by blast
    have "ob \<le> x \<and> x < InternedTerm_next ob \<longleftrightarrow> x = ob"
      using ITTriple by simp
    then show ?thesis unfolding m by fastforce
  next
    case False
    then show ?thesis by (cases m) (auto simp: order_defs)
  qed
next
  case (ITNamedNode n)
  then show ?case using named_next by (cases m) (auto simp: order_defs)
next
  case (ITBlankNode n)
  then show ?case using blank_next by (cases m) (auto simp: order_defs)
next
  case (ITLiteral n)
  then show ?case using literal_next by (cases m) (auto simp: order_defs)
qed

end
