(* ===== verification/Rdf_Interner.thy ===== *)
theory Rdf_Interner
  imports Rdf_Interning "HOL-Library.Word"
begin

text \<open>
  The interner of the in-memory RDF dataset (\<open>oxrdf/src/interning.rs\<close>): strings are stored
  under their 64-bit hash, numeric blank nodes under their identifier and quoted triples under
  their interned form. The hash function is the random hasher of the standard library and is a
  field of the state; nothing is assumed of it.

  A lookup of a missing key (a panic) is \<open>None\<close>, and so is an interning that never returns.
\<close>

section \<open>State and string table\<close>

record RdfInterner =
  hasher :: "string \<Rightarrow> 64 word"
  string_for_hash :: "(nat, string) hash_map"
  string_for_blank_node_id :: "(nat, string) hash_map"
  triples :: "(InternedTriple, Triple) hash_map"

definition RdfInterner_new :: "(string \<Rightarrow> 64 word) \<Rightarrow> RdfInterner" where
  "RdfInterner_new h =
     \<lparr>hasher = h, string_for_hash = [], string_for_blank_node_id = [], triples = []\<rparr>"

definition RdfInterner_hash :: "RdfInterner \<Rightarrow> string \<Rightarrow> nat" where
  "RdfInterner_hash i v = (let h = unat (hasher i v) in if h = u64_max then 0 else h)"

text \<open>
  Code that reads and grows_to the interner; \<open>None\<close> when it does not return.
\<close>

type_synonym 'a interning = "RdfInterner \<Rightarrow> ('a \<times> RdfInterner) option"

definition ireturn :: "'a \<Rightarrow> 'a interning" where
  "ireturn x = (\<lambda>i. Some (x, i))"

definition ibind :: "'a interning \<Rightarrow> ('a \<Rightarrow> 'b interning) \<Rightarrow> 'b interning" where
  "ibind m f = (\<lambda>i. case m i of None \<Rightarrow> None | Some (x, j) \<Rightarrow> f x j)"

definition iupdate :: "(RdfInterner \<Rightarrow> RdfInterner) \<Rightarrow> unit interning" where
  "iupdate f = (\<lambda>i. Some ((), f i))"

text \<open>
  The loop over an occupied entry. It compares with the same entry on every pass: \<open>e\<close> is not
  looked up again after \<open>hash\<close> has changed.
\<close>

partial_function (option) occupied_loop :: "string \<Rightarrow> string \<Rightarrow> nat \<Rightarrow> nat option" where
  "occupied_loop stored v h =
     (if stored = v then Some h
      else if h = u64_max - 1 then occupied_loop stored v 0
      else occupied_loop stored v (h + 1))"

declare occupied_loop.simps [code]

definition get_or_intern :: "string \<Rightarrow> nat interning" where
  "get_or_intern v i =
     (let h = RdfInterner_hash i v in
      case map_of (string_for_hash i) h of
        None \<Rightarrow> Some (h, i\<lparr>string_for_hash := AList.update h v (string_for_hash i)\<rparr>)
      | Some stored \<Rightarrow>
          (case occupied_loop stored v h of None \<Rightarrow> None | Some k \<Rightarrow> Some (k, i)))"

text \<open>
  The loop of \<open>get\<close>, for at most as many slots as the first argument says; \<open>None\<close> stands for
  a search still going on.
\<close>

fun get_loop :: "nat \<Rightarrow> (nat, string) hash_map \<Rightarrow> string \<Rightarrow> nat \<Rightarrow> nat option option" where
  "get_loop 0 m v h = None"
| "get_loop (Suc n) m v h =
     (case map_of m h of
        None \<Rightarrow> Some None
      | Some w \<Rightarrow>
          if w = v then Some (Some h)
          else get_loop n m v (if h = u64_max - 1 then 0 else h + 1))"

definition RdfInterner_get :: "RdfInterner \<Rightarrow> string \<Rightarrow> nat option" where
  "RdfInterner_get i v =
     (case get_loop (Suc (length (string_for_hash i))) (string_for_hash i) v (RdfInterner_hash i v) of
        None \<Rightarrow> None
      | Some r \<Rightarrow> r)"

definition RdfInterner_resolve :: "RdfInterner \<Rightarrow> nat \<Rightarrow> string option" where
  "RdfInterner_resolve i k = map_of (string_for_hash i) k"

section \<open>Encoding\<close>

definition InternedNamedNode_encoded_into :: "NamedNode \<Rightarrow> InternedNamedNode interning" where
  "InternedNamedNode_encoded_into n =
     ibind (get_or_intern (iri n)) (\<lambda>k. ireturn (InternedNamedNode k))"

definition InternedNamedNode_encoded_from :: "RdfInterner \<Rightarrow> NamedNode \<Rightarrow> InternedNamedNode option" where
  "InternedNamedNode_encoded_from i n = map_option InternedNamedNode (RdfInterner_get i (iri n))"

definition InternedNamedNode_decode_from :: "RdfInterner \<Rightarrow> InternedNamedNode \<Rightarrow> NamedNode option" where
  "InternedNamedNode_decode_from i n =
     map_option NamedNode_new_unchecked (RdfInterner_resolve i (named_id n))"

definition note_blank_node :: "nat \<Rightarrow> string \<Rightarrow> RdfInterner \<Rightarrow> RdfInterner" where
  "note_blank_node n s i =
     (case map_of (string_for_blank_node_id i) n of
        None \<Rightarrow> i\<lparr>string_for_blank_node_id := AList.update n s (string_for_blank_node_id i)\<rparr>
      | Some _ \<Rightarrow> i)"

definition InternedBlankNode_encoded_into :: "BlankNode \<Rightarrow> InternedBlankNode interning" where
  "InternedBlankNode_encoded_into b =
     (case BlankNode_unique_id b of
        Some n \<Rightarrow> ibind (iupdate (note_blank_node n (BlankNode_as_str b))) (\<lambda>_. ireturn (INumber n))
      | None \<Rightarrow> ibind (get_or_intern (BlankNode_as_str b)) (\<lambda>k. ireturn (IOther k)))"

definition InternedBlankNode_encoded_from :: "RdfInterner \<Rightarrow> BlankNode \<Rightarrow> InternedBlankNode option" where
  "InternedBlankNode_encoded_from i b =
     (case BlankNode_unique_id b of
        Some n \<Rightarrow> if map_of (string_for_blank_node_id i) n \<noteq> None then Some (INumber n) else None
      | None \<Rightarrow> map_option IOther (RdfInterner_get i (BlankNode_as_str b)))"

fun InternedBlankNode_decode_from :: "RdfInterner \<Rightarrow> InternedBlankNode \<Rightarrow> BlankNode option" where
  "InternedBlankNode_decode_from i (INumber n) =
     map_option BlankNode_new_unchecked (map_of (string_for_blank_node_id i) n)"
| "InternedBlankNode_decode_from i (IOther k) =
     map_option BlankNode_new_unchecked (RdfInterner_resolve i k)"

definition InternedLiteral_encoded_into :: "Literal \<Rightarrow> InternedLiteral interning" where
  "InternedLiteral_encoded_into l =
     (case Literal_destruct l of (v, dt, language, direction) \<Rightarrow>
        ibind (get_or_intern v) (\<lambda>value_id.
          case language of
            Some tag \<Rightarrow> ibind (get_or_intern tag) (\<lambda>language_id.
              case direction of
                Some d \<Rightarrow> ireturn (IDirectionalLanguageTaggedString value_id language_id (d = Ltr))
              | None \<Rightarrow> ireturn (ILanguageTaggedString value_id language_id))
          | None \<Rightarrow>
              (case dt of
                 Some t \<Rightarrow> ibind (InternedNamedNode_encoded_into t)
                   (\<lambda>t'. ireturn (ITypedLiteral value_id t'))
               | None \<Rightarrow> ireturn (IString value_id))))"

definition InternedLiteral_encoded_from :: "RdfInterner \<Rightarrow> Literal \<Rightarrow> InternedLiteral option" where
  "InternedLiteral_encoded_from i l =
     Option.bind (RdfInterner_get i (Literal_value l)) (\<lambda>value_id.
       case Literal_language l of
         Some tag \<Rightarrow> Option.bind (RdfInterner_get i tag) (\<lambda>language_id.
           case Literal_direction l of
             Some d \<Rightarrow> Some (IDirectionalLanguageTaggedString value_id language_id (d = Ltr))
           | None \<Rightarrow> Some (ILanguageTaggedString value_id language_id))
       | None \<Rightarrow>
           if Literal_datatype l = xsd_STRING then Some (IString value_id)
           else map_option (ITypedLiteral value_id)
             (InternedNamedNode_encoded_from i (Literal_datatype l)))"

fun InternedLiteral_decode_from :: "RdfInterner \<Rightarrow> InternedLiteral \<Rightarrow> Literal option" where
  "InternedLiteral_decode_from i (IString v) = map_option new_simple_literal (RdfInterner_resolve i v)"
| "InternedLiteral_decode_from i (ILanguageTaggedString v l) =
     Option.bind (RdfInterner_resolve i v) (\<lambda>s. Option.bind (RdfInterner_resolve i l) (\<lambda>tag.
       Some (new_language_tagged_literal_unchecked s tag)))"
| "InternedLiteral_decode_from i (IDirectionalLanguageTaggedString v l is_ltr) =
     Option.bind (RdfInterner_resolve i v) (\<lambda>s. Option.bind (RdfInterner_resolve i l) (\<lambda>tag.
       Some (new_directional_language_tagged_literal_unchecked s tag (if is_ltr then Ltr else Rtl))))"
| "InternedLiteral_decode_from i (ITypedLiteral v dt) =
     Option.bind (RdfInterner_resolve i v) (\<lambda>s. Option.bind (InternedNamedNode_decode_from i dt) (\<lambda>t.
       new_typed_literal s t))"

fun InternedNamedOrBlankNode_encoded_into ::
  "NamedOrBlankNode \<Rightarrow> InternedNamedOrBlankNode interning" where
  "InternedNamedOrBlankNode_encoded_into (NobNamedNode n) =
     ibind (InternedNamedNode_encoded_into n) (\<lambda>x. ireturn (INobNamedNode x))"
| "InternedNamedOrBlankNode_encoded_into (NobBlankNode b) =
     ibind (InternedBlankNode_encoded_into b) (\<lambda>x. ireturn (INobBlankNode x))"

fun InternedNamedOrBlankNode_encoded_from ::
  "RdfInterner \<Rightarrow> NamedOrBlankNode \<Rightarrow> InternedNamedOrBlankNode option" where
  "InternedNamedOrBlankNode_encoded_from i (NobNamedNode n) =
     map_option INobNamedNode (InternedNamedNode_encoded_from i n)"
| "InternedNamedOrBlankNode_encoded_from i (NobBlankNode b) =
     map_option INobBlankNode (InternedBlankNode_encoded_from i b)"

fun InternedNamedOrBlankNode_decode_from ::
  "RdfInterner \<Rightarrow> InternedNamedOrBlankNode \<Rightarrow> NamedOrBlankNode option" where
  "InternedNamedOrBlankNode_decode_from i (INobNamedNode n) =
     map_option NobNamedNode (InternedNamedNode_decode_from i n)"
| "InternedNamedOrBlankNode_decode_from i (INobBlankNode b) =
     map_option NobBlankNode (InternedBlankNode_decode_from i b)"

fun InternedGraphName_encoded_into :: "GraphName \<Rightarrow> InternedGraphName interning" where
  "InternedGraphName_encoded_into GDefaultGraph = ireturn IDefaultGraph"
| "InternedGraphName_encoded_into (GNamedNode n) =
     ibind (InternedNamedNode_encoded_into n) (\<lambda>x. ireturn (IGNamedNode x))"
| "InternedGraphName_encoded_into (GBlankNode b) =
     ibind (InternedBlankNode_encoded_into b) (\<lambda>x. ireturn (IGBlankNode x))"

fun InternedGraphName_encoded_from :: "RdfInterner \<Rightarrow> GraphName \<Rightarrow> InternedGraphName option" where
  "InternedGraphName_encoded_from i GDefaultGraph = Some IDefaultGraph"
| "InternedGraphName_encoded_from i (GNamedNode n) =
     map_option IGNamedNode (InternedNamedNode_encoded_from i n)"
| "InternedGraphName_encoded_from i (GBlankNode b) =
     map_option IGBlankNode (InternedBlankNode_encoded_from i b)"

fun InternedGraphName_decode_from :: "RdfInterner \<Rightarrow> InternedGraphName \<Rightarrow> GraphName option" where
  "InternedGraphName_decode_from i IDefaultGraph = Some GDefaultGraph"
| "InternedGraphName_decode_from i (IGNamedNode n) =
     map_option GNamedNode (InternedNamedNode_decode_from i n)"
| "InternedGraphName_decode_from i (IGBlankNode b) =
     map_option GBlankNode (InternedBlankNode_decode_from i b)"

text \<open>
  Terms nest through quoted triples; the clause for a quoted triple is
  \<open>InternedTriple::encoded_into\<close> and \<open>InternedTriple::encoded_from\<close>.
\<close>

fun InternedTerm_encoded_into :: "Term \<Rightarrow> InternedTerm interning" where
  "InternedTerm_encoded_into (TNamedNode n) =
     ibind (InternedNamedNode_encoded_into n) (\<lambda>x. ireturn (ITNamedNode x))"
| "InternedTerm_encoded_into (TBlankNode b) =
     ibind (InternedBlankNode_encoded_into b) (\<lambda>x. ireturn (ITBlankNode x))"
| "InternedTerm_encoded_into (TLiteral l) =
     ibind (InternedLiteral_encoded_into l) (\<lambda>x. ireturn (ITLiteral x))"
| "InternedTerm_encoded_into (TTriple (TripleNew s p ob)) =
     ibind (InternedNamedOrBlankNode_encoded_into s) (\<lambda>s'.
     ibind (InternedNamedNode_encoded_into p) (\<lambda>p'.
     ibind (InternedTerm_encoded_into ob) (\<lambda>ob'.
     ibind (iupdate (\<lambda>i. i\<lparr>triples := AList.update (s', p', ob') (TripleNew s p ob) (triples i)\<rparr>))
       (\<lambda>_. ireturn (ITTriple s' p' ob')))))"

fun InternedTerm_encoded_from :: "RdfInterner \<Rightarrow> Term \<Rightarrow> InternedTerm option" where
  "InternedTerm_encoded_from i (TNamedNode n) =
     map_option ITNamedNode (InternedNamedNode_encoded_from i n)"
| "InternedTerm_encoded_from i (TBlankNode b) =
     map_option ITBlankNode (InternedBlankNode_encoded_from i b)"
| "InternedTerm_encoded_from i (TLiteral l) =
     map_option ITLiteral (InternedLiteral_encoded_from i l)"
| "InternedTerm_encoded_from i (TTriple (TripleNew s p ob)) =
     Option.bind (InternedNamedOrBlankNode_encoded_from i s) (\<lambda>s'.
     Option.bind (InternedNamedNode_encoded_from i p) (\<lambda>p'.
     Option.bind (InternedTerm_encoded_from i ob) (\<lambda>ob'.
       if map_of (triples i) (s', p', ob') \<noteq> None then Some (ITTriple s' p' ob') else None)))"

text \<open>The same two operations on the triple itself.\<close>

fun InternedTriple_encoded_into :: "Triple \<Rightarrow> InternedTriple interning" where
  "InternedTriple_encoded_into (TripleNew s p ob) =
     ibind (InternedNamedOrBlankNode_encoded_into s) (\<lambda>s'.
     ibind (InternedNamedNode_encoded_into p) (\<lambda>p'.
     ibind (InternedTerm_encoded_into ob) (\<lambda>ob'.
     ibind (iupdate (\<lambda>i. i\<lparr>triples := AList.update (s', p', ob') (TripleNew s p ob) (triples i)\<rparr>))
       (\<lambda>_. ireturn (s', p', ob')))))"

fun InternedTriple_encoded_from :: "RdfInterner \<Rightarrow> Triple \<Rightarrow> InternedTriple option" where
  "InternedTriple_encoded_from i (TripleNew s p ob) =
     Option.bind (InternedNamedOrBlankNode_encoded_from i s) (\<lambda>s'.
     Option.bind (InternedNamedNode_encoded_from i p) (\<lambda>p'.
     Option.bind (InternedTerm_encoded_from i ob) (\<lambda>ob'.
       if map_of (triples i) (s', p', ob') \<noteq> None then Some (s', p', ob') else None)))"

fun InternedTriple_next :: "InternedTriple \<Rightarrow> InternedTriple" where
  "InternedTriple_next (s, p, ob) = (s, p, InternedTerm_next ob)"

lemma InternedTerm_triple:
  "InternedTerm_encoded_into (TTriple t) =
     ibind (InternedTriple_encoded_into t) (\<lambda>(s, p, ob). ireturn (ITTriple s p ob))"
  "InternedTerm_encoded_from i (TTriple t) =
     map_option (\<lambda>(s, p, ob). ITTriple s p ob) (InternedTriple_encoded_from i t)"
  by (cases t; auto simp: ibind_def iupdate_def ireturn_def fun_eq_iff map_option_case
      split: option.splits Option.bind_splits)+

fun InternedTerm_decode_from :: "RdfInterner \<Rightarrow> InternedTerm \<Rightarrow> Term option" where
  "InternedTerm_decode_from i (ITNamedNode n) =
     map_option TNamedNode (InternedNamedNode_decode_from i n)"
| "InternedTerm_decode_from i (ITBlankNode b) =
     map_option TBlankNode (InternedBlankNode_decode_from i b)"
| "InternedTerm_decode_from i (ITLiteral l) =
     map_option TLiteral (InternedLiteral_decode_from i l)"
| "InternedTerm_decode_from i (ITTriple s p ob) = map_option TTriple (map_of (triples i) (s, p, ob))"

text \<open>
  \<open>try_clone_with\<close>: the callback \<open>check\<close> runs on a state of its own and may fail.
\<close>

definition copy_map :: "('s, 'e, unit) fallible \<Rightarrow> ('k, 'v) hash_map \<Rightarrow> ('s, 'e, ('k, 'v) hash_map) fallible" where
  "copy_map check m = for_each (\<lambda>(k, v) acc. andthen check (ok (AList.update k v acc))) m []"

definition RdfInterner_try_clone_with :: "('s, 'e, unit) fallible \<Rightarrow> RdfInterner \<Rightarrow> ('s, 'e, RdfInterner) fallible" where
  "RdfInterner_try_clone_with check i =
     andthen check
       (bind (copy_map check (string_for_hash i)) (\<lambda>strings.
        bind (copy_map check (string_for_blank_node_id i)) (\<lambda>blanks.
        bind (copy_map check (triples i)) (\<lambda>ts.
        andthen check
          (ok \<lparr>hasher = hasher i, string_for_hash = strings,
             string_for_blank_node_id = blanks, triples = ts\<rparr>)))))"

section \<open>The string table\<close>

definition strings_ok :: "RdfInterner \<Rightarrow> bool" where
  "strings_ok i \<longleftrightarrow> (\<forall>k v. map_of (string_for_hash i) k = Some v \<longrightarrow> k = RdfInterner_hash i v)"

definition term_interner_ok :: "RdfInterner \<Rightarrow> bool" where
  "term_interner_ok i \<longleftrightarrow>
     distinct (map fst (string_for_hash i)) \<and>
     distinct (map fst (string_for_blank_node_id i)) \<and>
     distinct (map fst (triples i)) \<and>
     strings_ok i \<and>
     (\<forall>n s. map_of (string_for_blank_node_id i) n = Some s \<longrightarrow> s = show_hex n \<and> 0 < n \<and> n \<le> u128_max) \<and>
     (\<forall>s p x t. map_of (triples i) (s, p, x) = Some t \<longrightarrow>
       (\<exists>s' p' x'. t = TripleNew s' p' x' \<and> term_ok (TTriple t) \<and>
         InternedNamedOrBlankNode_encoded_from i s' = Some s \<and>
         InternedNamedNode_encoded_from i p' = Some p \<and> InternedTerm_encoded_from i x' = Some x))"

definition grows_to :: "RdfInterner \<Rightarrow> RdfInterner \<Rightarrow> bool" where
  "grows_to i j \<longleftrightarrow> hasher i = hasher j \<and>
     map_of (string_for_hash i) \<subseteq>\<^sub>m map_of (string_for_hash j) \<and>
     map_of (string_for_blank_node_id i) \<subseteq>\<^sub>m map_of (string_for_blank_node_id j) \<and>
     map_of (triples i) \<subseteq>\<^sub>m map_of (triples j)"

lemma grows_to_refl [simp]: "grows_to i i"
  by (simp add: grows_to_def)

lemma grows_to_trans [trans]: "grows_to i j \<Longrightarrow> grows_to j k \<Longrightarrow> grows_to i k"
  unfolding grows_to_def by (auto intro: map_le_trans)

lemma hash_less [simp]: "RdfInterner_hash i v < u64_max"
proof -
  have "unat (hasher i v) < 2 ^ 64"
    using unsigned_less [where w = "hasher i v"] by simp
  then show ?thesis
    by (simp add: RdfInterner_hash_def Let_def u64_max_def)
qed

lemma hash_cong: "hasher i = hasher j \<Longrightarrow> RdfInterner_hash i v = RdfInterner_hash j v"
  by (simp add: RdfInterner_hash_def)

lemma get_loop_found: "get_loop n m v h = Some (Some k) \<Longrightarrow> map_of m k = Some v"
  by (induction n m v h rule: get_loop.induct) (auto split: option.splits if_splits)

lemma interner_ok_strings: "term_interner_ok i \<Longrightarrow> strings_ok i"
  by (simp add: term_interner_ok_def)

lemma RdfInterner_get_eq:
  assumes "strings_ok i"
  shows "RdfInterner_get i v =
    (if map_of (string_for_hash i) (RdfInterner_hash i v) = Some v then Some (RdfInterner_hash i v) else None)"
proof (cases "RdfInterner_get i v")
  case None
  then show ?thesis
    by (auto simp: RdfInterner_get_def split: option.splits if_splits)
next
  case (Some k)
  then have "map_of (string_for_hash i) k = Some v"
    using get_loop_found unfolding RdfInterner_get_def by (fastforce simp del: get_loop.simps split: option.splits)
  moreover from this assms have "k = RdfInterner_hash i v"
    unfolding strings_ok_def by blast
  ultimately show ?thesis using Some by simp
qed

lemma occupied_loop_same [simp]: "occupied_loop v v h = Some h"
  by (subst occupied_loop.simps) simp

lemma occupied_loop_SomeD: "occupied_loop w v h = Some k \<Longrightarrow> w = v"
  by (erule occupied_loop.raw_induct [of "\<lambda>w v h k. w = v", rotated]) (auto split: if_splits)

lemma occupied_loop_other: "w \<noteq> v \<Longrightarrow> occupied_loop w v h = None"
  using occupied_loop_SomeD by (cases "occupied_loop w v h") auto

text \<open>
  Interning a string: it comes back, unless a different string occupies its slot; then the call
  does not return.
\<close>

lemma get_or_intern_cases:
  "get_or_intern v i =
     (case map_of (string_for_hash i) (RdfInterner_hash i v) of
        None \<Rightarrow> Some (RdfInterner_hash i v, i\<lparr>string_for_hash := AList.update (RdfInterner_hash i v) v (string_for_hash i)\<rparr>)
      | Some w \<Rightarrow> if w = v then Some (RdfInterner_hash i v, i) else None)"
  by (auto simp: get_or_intern_def Let_def occupied_loop_other split: option.splits)

text \<open>
  A search visits the slots from the hash on, cyclically; \<open>length + 1\<close> of them are enough as
  long as the table leaves a slot free.
\<close>

lemma get_loop_None:
  "get_loop n m v h = None \<Longrightarrow> h < u64_max \<Longrightarrow> k < n \<Longrightarrow> (h + k) mod u64_max \<in> dom (map_of m)"
proof (induction n m v h arbitrary: k rule: get_loop.induct)
  case (2 n m v h)
  let ?h = "if h = u64_max - 1 then 0 else h + 1"
  from 2 obtain w where w: "map_of m h = Some w" "w \<noteq> v" "get_loop n m v ?h = None"
    by (auto split: option.splits if_splits)
  show ?case
  proof (cases k)
    case 0
    with 2 w show ?thesis by (auto simp: dom_def)
  next
    case (Suc l)
    have "?h < u64_max" using 2 by (auto simp: u64_max_def)
    then have "(?h + l) mod u64_max \<in> dom (map_of m)"
      using 2 w Suc by (auto simp del: One_nat_def)
    moreover have "(?h + l) mod u64_max = (h + k) mod u64_max"
    proof (cases "h = u64_max - 1")
      case True
      then have "h + k = u64_max + l" using 2 Suc by simp
      with True show ?thesis by simp
    qed (simp add: Suc)
    ultimately show ?thesis by simp
  qed
qed simp

lemma get_loop_ends:
  assumes "length m < u64_max" and "h < u64_max"
  shows "get_loop (Suc (length m)) m v h \<noteq> None"
proof
  assume none: "get_loop (Suc (length m)) m v h = None"
  let ?slot = "\<lambda>k. (h + k) mod u64_max"
  have "inj_on ?slot {..length m}"
  proof (rule inj_onI)
    fix k l
    assume "k \<in> {..length m}" "l \<in> {..length m}" and eq: "?slot k = ?slot l"
    moreover have "?slot x = (if h + x < u64_max then h + x else h + x - u64_max)" if "x \<le> length m" for x
      using that assms by (simp add: mod_if)
    ultimately show "k = l" using assms by (auto split: if_splits)
  qed
  then have "card (?slot ` {..length m}) = Suc (length m)"
    by (simp add: card_image)
  moreover have "?slot ` {..length m} \<subseteq> dom (map_of m)"
    using get_loop_None [OF none assms(2)] by (auto simp del: domIff simp: less_Suc_eq_le)
  then have "card (?slot ` {..length m}) \<le> card (dom (map_of m))"
    by (intro card_mono finite_dom_map_of)
  moreover have "card (dom (map_of m)) \<le> length m"
    using card_length [of "map fst m"] by (simp add: dom_map_of_conv_image_fst)
  ultimately show False by simp
qed

section \<open>Encoding is compositional\<close>

text \<open>
  \<open>encodes m f\<close>: running \<open>m\<close> keeps the invariant, only adds entries, and returns what the
  lookup \<open>f\<close> then finds. A lookup is \<open>lasting\<close> when adding entries does not change what it found.
\<close>

definition lasting :: "(RdfInterner \<Rightarrow> 'a option) \<Rightarrow> bool" where
  "lasting f \<longleftrightarrow> (\<forall>i j x. strings_ok i \<longrightarrow> strings_ok j \<longrightarrow> grows_to i j \<longrightarrow> f i = Some x \<longrightarrow> f j = Some x)"

definition encodes :: "'a interning \<Rightarrow> (RdfInterner \<Rightarrow> 'a option) \<Rightarrow> bool" where
  "encodes m f \<longleftrightarrow> (\<forall>i x j. term_interner_ok i \<longrightarrow> m i = Some (x, j) \<longrightarrow>
     term_interner_ok j \<and> grows_to i j \<and> f j = Some x)"

lemma lastingD: "lasting f \<Longrightarrow> strings_ok i \<Longrightarrow> strings_ok j \<Longrightarrow> grows_to i j \<Longrightarrow> f i = Some x \<Longrightarrow> f j = Some x"
  unfolding lasting_def by blast

lemma encodesD:
  assumes "encodes m f" and "term_interner_ok i" and "m i = Some (x, j)"
  shows "term_interner_ok j" and "grows_to i j" and "f j = Some x"
  using assms unfolding encodes_def by blast+

lemma encodes_return: "encodes (ireturn x) (\<lambda>_. Some x)"
  by (simp add: encodes_def ireturn_def)

lemma encodes_bind:
  assumes "encodes m f" and "lasting f" and "\<And>x. encodes (n x) (h x)"
  shows "encodes (ibind m n) (\<lambda>i. Option.bind (f i) (\<lambda>x. h x i))"
  unfolding encodes_def
proof (intro allI impI)
  fix i y k
  assume i: "term_interner_ok i" and "ibind m n i = Some (y, k)"
  then obtain x j where j: "m i = Some (x, j)" and k: "n x j = Some (y, k)"
    by (auto simp: ibind_def split: option.splits)
  note J = encodesD [OF assms(1) i j]
  note K = encodesD [OF assms(3) J(1) k]
  have "f k = Some x" using lastingD [OF assms(2) J(1) [THEN interner_ok_strings] K(1) [THEN interner_ok_strings] K(2) J(3)] .
  with J K show "term_interner_ok k \<and> grows_to i k \<and> Option.bind (f k) (\<lambda>x. h x k) = Some y"
    by (auto intro: grows_to_trans)
qed

lemma encodes_map:
  assumes "encodes m f"
  shows "encodes (ibind m (\<lambda>x. ireturn (C x))) (\<lambda>i. map_option C (f i))"
  using assms unfolding encodes_def ibind_def ireturn_def by (auto split: option.splits)

lemma lasting_Some [simp]: "lasting (\<lambda>_. x)"
  by (simp add: lasting_def)

lemma lasting_map: "lasting f \<Longrightarrow> lasting (\<lambda>i. map_option C (f i))"
  unfolding lasting_def map_option_eq_Some by blast

lemma lasting_bind:
  assumes "lasting f" and "\<And>x. lasting (h x)"
  shows "lasting (\<lambda>i. Option.bind (f i) (\<lambda>x. h x i))"
  unfolding lasting_def
proof (intro allI impI)
  fix i j y
  assume ok: "strings_ok i" "strings_ok j" "grows_to i j"
    and "Option.bind (f i) (\<lambda>x. h x i) = Some y"
  then obtain x where x: "f i = Some x" "h x i = Some y"
    by (auto simp: bind_eq_Some_conv)
  show "Option.bind (f j) (\<lambda>x. h x j) = Some y"
    using lastingD [OF assms(1) ok x(1)] lastingD [OF assms(2) ok x(2)] by simp
qed

lemma map_leD: "f \<subseteq>\<^sub>m g \<Longrightarrow> f x = Some y \<Longrightarrow> g x = Some y"
  by (metis domI map_le_def)

lemma grows_to_lookup:
  assumes "grows_to i j"
  shows "map_of (string_for_hash i) k = Some v \<Longrightarrow> map_of (string_for_hash j) k = Some v"
    and "map_of (string_for_blank_node_id i) n = Some v \<Longrightarrow> map_of (string_for_blank_node_id j) n = Some v"
    and "map_of (triples i) x = Some t \<Longrightarrow> map_of (triples j) x = Some t"
    and "RdfInterner_hash i w = RdfInterner_hash j w"
  using assms unfolding grows_to_def by (auto dest: map_leD intro: hash_cong)

lemma lasting_get: "lasting (\<lambda>i. RdfInterner_get i v)"
  unfolding lasting_def by (auto simp: RdfInterner_get_eq grows_to_lookup(4) dest: grows_to_lookup(1) split: if_splits)

lemma lasting_named: "lasting (\<lambda>i. InternedNamedNode_encoded_from i n)"
  unfolding InternedNamedNode_encoded_from_def by (intro lasting_map lasting_get)

lemma lasting_blank: "lasting (\<lambda>i. InternedBlankNode_encoded_from i b)"
proof (cases b)
  case (BNamed s)
  then show ?thesis
    by (auto simp: InternedBlankNode_encoded_from_def intro: lasting_map lasting_get)
next
  case (BAnonymous n)
  then show ?thesis
    by (auto simp: InternedBlankNode_encoded_from_def lasting_def dest: grows_to_lookup(2))
qed

lemma lasting_literal: "lasting (\<lambda>i. InternedLiteral_encoded_from i l)"
  by (cases l; cases "Literal_datatype l = xsd_STRING")
    (auto simp: InternedLiteral_encoded_from_def
      intro!: lasting_bind lasting_get lasting_map lasting_named)

lemma lasting_node: "lasting (\<lambda>i. InternedNamedOrBlankNode_encoded_from i n)"
  by (cases n) (auto intro: lasting_map lasting_named lasting_blank)

lemma lasting_graph: "lasting (\<lambda>i. InternedGraphName_encoded_from i g)"
  by (cases g) (auto intro: lasting_map lasting_named lasting_blank)

lemma lasting_triples: "lasting (\<lambda>i. if map_of (triples i) x \<noteq> None then Some y else None)"
  unfolding lasting_def by (auto dest: grows_to_lookup(3) split: if_splits)

lemma lasting_term: "lasting (\<lambda>i. InternedTerm_encoded_from i t)"
proof (induction t rule: term_ok.induct)
  case (4 s p ob)
  then show ?case
    unfolding InternedTerm_encoded_from.simps
    by (intro lasting_bind lasting_node lasting_named lasting_triples)
qed (auto intro: lasting_map lasting_named lasting_blank lasting_literal)

section \<open>Decoding\<close>

lemma named_decode:
  "strings_ok i \<Longrightarrow> InternedNamedNode_encoded_from i n = Some x \<Longrightarrow>
    InternedNamedNode_decode_from i x = Some n"
  by (auto simp: InternedNamedNode_encoded_from_def InternedNamedNode_decode_from_def
      RdfInterner_get_eq RdfInterner_resolve_def NamedNode_new_unchecked_def split: if_splits)

lemma resolve_get: "strings_ok i \<Longrightarrow> RdfInterner_get i v = Some k \<Longrightarrow> RdfInterner_resolve i k = Some v"
  by (auto simp: RdfInterner_get_eq RdfInterner_resolve_def split: if_splits)

lemma blank_decode:
  "term_interner_ok i \<Longrightarrow> blank_ok b \<Longrightarrow> InternedBlankNode_encoded_from i b = Some x \<Longrightarrow>
    InternedBlankNode_decode_from i x = Some b"
proof (cases b)
  case (BNamed s)
  assume "term_interner_ok i" "blank_ok b" "InternedBlankNode_encoded_from i b = Some x"
  with BNamed show ?thesis
    by (auto simp: InternedBlankNode_encoded_from_def resolve_get interner_ok_strings
        BlankNode_new_unchecked_def)
next
  case (BAnonymous n)
  assume ok: "term_interner_ok i" "blank_ok b" and x: "InternedBlankNode_encoded_from i b = Some x"
  with BAnonymous obtain s where s: "map_of (string_for_blank_node_id i) n = Some s" "x = INumber n"
    by (auto simp: InternedBlankNode_encoded_from_def split: if_splits)
  then have "s = BlankNode_as_str b"
    using ok BAnonymous by (auto simp: term_interner_ok_def)
  with s ok show ?thesis by (simp add: blank_roundtrip)
qed

lemma literal_decode:
  "strings_ok i \<Longrightarrow> literal_ok l \<Longrightarrow> InternedLiteral_encoded_from i l = Some x \<Longrightarrow>
    InternedLiteral_decode_from i x = Some l"
  by (cases l)
    (auto simp: InternedLiteral_encoded_from_def bind_eq_Some_conv resolve_get new_simple_literal_def
      new_language_tagged_literal_unchecked_def new_directional_language_tagged_literal_unchecked_def
      new_typed_literal_ok named_decode split: if_splits intro: BaseDirection.exhaust)

lemma node_decode:
  "term_interner_ok i \<Longrightarrow> node_ok n \<Longrightarrow> InternedNamedOrBlankNode_encoded_from i n = Some x \<Longrightarrow>
    InternedNamedOrBlankNode_decode_from i x = Some n"
  by (cases n) (auto simp: named_decode blank_decode interner_ok_strings)

lemma graph_decode:
  "term_interner_ok i \<Longrightarrow> graph_ok g \<Longrightarrow> InternedGraphName_encoded_from i g = Some x \<Longrightarrow>
    InternedGraphName_decode_from i x = Some g"
  by (cases g) (auto simp: named_decode blank_decode interner_ok_strings)

lemma term_decode:
  assumes "term_interner_ok i"
  shows "term_ok t \<Longrightarrow> InternedTerm_encoded_from i t = Some x \<Longrightarrow> InternedTerm_decode_from i x = Some t"
proof (induction x arbitrary: t)
  case (ITTriple s p x)
  from ITTriple.prems(2) obtain s' p' x' tr where t: "t = TTriple (TripleNew s' p' x')"
    and enc: "InternedNamedOrBlankNode_encoded_from i s' = Some s"
      "InternedNamedNode_encoded_from i p' = Some p" "InternedTerm_encoded_from i x' = Some x"
    and tr: "map_of (triples i) (s, p, x) = Some tr"
    by (cases t rule: term_ok.cases) (auto simp: bind_eq_Some_conv split: if_splits)
  from tr assms obtain s2 p2 x2 where tr2: "tr = TripleNew s2 p2 x2" "term_ok (TTriple tr)"
    and enc2: "InternedNamedOrBlankNode_encoded_from i s2 = Some s"
      "InternedNamedNode_encoded_from i p2 = Some p" "InternedTerm_encoded_from i x2 = Some x"
    unfolding term_interner_ok_def by blast
  have "s2 = s'"
    using node_decode [OF assms _ enc(1)] node_decode [OF assms _ enc2(1)] ITTriple.prems(1) t tr2
    by simp
  moreover have "p2 = p'"
    using named_decode [OF interner_ok_strings [OF assms] enc(2)]
      named_decode [OF interner_ok_strings [OF assms] enc2(2)] by simp
  moreover have "x2 = x'"
    using ITTriple.IH [OF _ enc(3)] ITTriple.IH [OF _ enc2(3)] ITTriple.prems(1) t tr2 by simp
  ultimately show ?case using t tr tr2 by simp
next
  case (ITNamedNode n)
  then show ?case
    by (cases t rule: term_ok.cases)
      (auto simp: named_decode [OF interner_ok_strings [OF assms]] bind_eq_Some_conv split: if_splits)
next
  case (ITBlankNode n)
  then show ?case
    by (cases t rule: term_ok.cases)
      (auto simp: blank_decode [OF assms] bind_eq_Some_conv split: if_splits)
next
  case (ITLiteral n)
  then show ?case
    by (cases t rule: term_ok.cases)
      (auto simp: literal_decode [OF interner_ok_strings [OF assms]] bind_eq_Some_conv split: if_splits)
qed

section \<open>Encoding keeps the invariant\<close>

lemma interner_ok_extend:
  assumes "term_interner_ok i" and "grows_to i j" and "strings_ok j" and "triples j = triples i"
    and "distinct (map fst (string_for_hash j))" "distinct (map fst (string_for_blank_node_id j))"
    and "\<And>n s. map_of (string_for_blank_node_id j) n = Some s \<Longrightarrow> s = show_hex n \<and> 0 < n \<and> n \<le> u128_max"
  shows "term_interner_ok j"
proof -
  note later = lastingD [OF _ interner_ok_strings [OF assms(1)] assms(3,2)]
  have "\<exists>s' p' x'. t = TripleNew s' p' x' \<and> term_ok (TTriple t) \<and>
      InternedNamedOrBlankNode_encoded_from j s' = Some s \<and>
      InternedNamedNode_encoded_from j p' = Some p \<and> InternedTerm_encoded_from j x' = Some x"
    if "map_of (triples j) (s, p, x) = Some t" for s p x t
  proof -
    from that assms(1,4) obtain s' p' x' where "t = TripleNew s' p' x'" "term_ok (TTriple t)"
      and "InternedNamedOrBlankNode_encoded_from i s' = Some s"
        "InternedNamedNode_encoded_from i p' = Some p" "InternedTerm_encoded_from i x' = Some x"
      unfolding term_interner_ok_def by metis
    with later [OF lasting_node] later [OF lasting_named] later [OF lasting_term] show ?thesis by blast
  qed
  with assms show ?thesis unfolding term_interner_ok_def by auto
qed

lemma encodes_get_or_intern: "encodes (get_or_intern v) (\<lambda>i. RdfInterner_get i v)"
  unfolding encodes_def
proof (intro allI impI)
  fix i k j
  assume i: "term_interner_ok i" and k: "get_or_intern v i = Some (k, j)"
  let ?h = "RdfInterner_hash i v"
  show "term_interner_ok j \<and> grows_to i j \<and> RdfInterner_get j v = Some k"
  proof (cases "map_of (string_for_hash i) ?h")
    case None
    with k have j: "j = i\<lparr>string_for_hash := AList.update ?h v (string_for_hash i)\<rparr>" "k = ?h"
      by (auto simp: get_or_intern_cases)
    have hash: "RdfInterner_hash j w = RdfInterner_hash i w" for w
      by (rule hash_cong) (simp add: j)
    have ext: "grows_to i j"
      using None by (auto simp: j grows_to_def map_le_def update_conv')
    have str: "strings_ok j"
      using interner_ok_strings [OF i] unfolding strings_ok_def hash by (simp add: j update_conv')
    have "term_interner_ok j"
      by (rule interner_ok_extend [OF i ext str])
        (use i in \<open>auto simp: j term_interner_ok_def distinct_update\<close>)
    moreover have "RdfInterner_get j v = Some k"
      unfolding RdfInterner_get_eq [OF str] hash by (simp add: j update_conv')
    ultimately show ?thesis using ext by blast
  next
    case (Some w)
    with k have "w = v" "k = ?h" "j = i" by (auto simp: get_or_intern_cases split: if_splits)
    with Some i show ?thesis by (simp add: RdfInterner_get_eq interner_ok_strings)
  qed
qed

lemma encodes_named:
  "encodes (InternedNamedNode_encoded_into n) (\<lambda>i. InternedNamedNode_encoded_from i n)"
  unfolding InternedNamedNode_encoded_into_def InternedNamedNode_encoded_from_def
  by (intro encodes_map encodes_get_or_intern)

lemma encodes_number:
  assumes "0 < n" and "n \<le> u128_max"
  shows "encodes (ibind (iupdate (note_blank_node n (show_hex n))) (\<lambda>_. ireturn (INumber n)))
    (\<lambda>i. InternedBlankNode_encoded_from i (BAnonymous n))"
  unfolding encodes_def
proof (intro allI impI)
  fix i x j
  assume i: "term_interner_ok i"
    and "ibind (iupdate (note_blank_node n (show_hex n))) (\<lambda>_. ireturn (INumber n)) i = Some (x, j)"
  then have j: "j = note_blank_node n (show_hex n) i" and x: "x = INumber n"
    by (auto simp: ibind_def iupdate_def ireturn_def)
  show "term_interner_ok j \<and> grows_to i j \<and> InternedBlankNode_encoded_from j (BAnonymous n) = Some x"
  proof (cases "map_of (string_for_blank_node_id i) n")
    case None
    then have j': "j = i\<lparr>string_for_blank_node_id := AList.update n (show_hex n) (string_for_blank_node_id i)\<rparr>"
      by (simp add: j note_blank_node_def)
    have hash: "RdfInterner_hash j w = RdfInterner_hash i w" for w
      by (rule hash_cong) (simp add: j')
    have ext: "grows_to i j"
      using None by (auto simp: j' grows_to_def map_le_def update_conv')
    have str: "strings_ok j"
      using interner_ok_strings [OF i] unfolding strings_ok_def hash by (simp add: j')
    have "term_interner_ok j"
      by (rule interner_ok_extend [OF i ext str])
        (use i assms in \<open>auto simp: j' term_interner_ok_def distinct_update update_conv' split: if_splits\<close>)
    with ext show ?thesis by (simp add: j' x InternedBlankNode_encoded_from_def update_conv')
  next
    case (Some s)
    with i show ?thesis by (simp add: j x note_blank_node_def InternedBlankNode_encoded_from_def)
  qed
qed

lemma encodes_blank:
  "blank_ok b \<Longrightarrow> encodes (InternedBlankNode_encoded_into b) (\<lambda>i. InternedBlankNode_encoded_from i b)"
proof (cases b)
  case (BNamed s)
  then show ?thesis
    by (simp add: InternedBlankNode_encoded_into_def InternedBlankNode_encoded_from_def encodes_map
        encodes_get_or_intern)
next
  case (BAnonymous n)
  assume "blank_ok b"
  with BAnonymous show ?thesis
    using encodes_number [of n] by (simp add: InternedBlankNode_encoded_into_def)
qed

lemma encodes_literal:
  assumes "literal_ok l"
  shows "encodes (InternedLiteral_encoded_into l) (\<lambda>i. InternedLiteral_encoded_from i l)"
proof (cases l)
  case (TypedLiteral v dt)
  with assms have "InternedLiteral_encoded_from i l = Option.bind (RdfInterner_get i v)
      (\<lambda>k. map_option (ITypedLiteral k) (InternedNamedNode_encoded_from i dt))" for i
    by (simp add: InternedLiteral_encoded_from_def)
  then show ?thesis
    using encodes_bind [OF encodes_get_or_intern lasting_get encodes_map [OF encodes_named]] TypedLiteral
    by (simp add: InternedLiteral_encoded_into_def)
qed (auto simp: InternedLiteral_encoded_into_def InternedLiteral_encoded_from_def
    intro!: encodes_bind encodes_get_or_intern lasting_get encodes_return)

lemma encodes_node:
  "node_ok n \<Longrightarrow>
    encodes (InternedNamedOrBlankNode_encoded_into n) (\<lambda>i. InternedNamedOrBlankNode_encoded_from i n)"
  by (cases n) (auto intro: encodes_map encodes_named encodes_blank)

lemma encodes_graph:
  "graph_ok g \<Longrightarrow> encodes (InternedGraphName_encoded_into g) (\<lambda>i. InternedGraphName_encoded_from i g)"
  by (cases g) (auto intro: encodes_map encodes_named encodes_blank encodes_return)

text \<open>Recording a quoted triple whose components are interned never replaces another one.\<close>

lemma encodes_triples:
  assumes i: "term_interner_ok i" and ok: "term_ok (TTriple (TripleNew s p x))"
    and enc: "InternedNamedOrBlankNode_encoded_from i s = Some s'"
      "InternedNamedNode_encoded_from i p = Some p'" "InternedTerm_encoded_from i x = Some x'"
    and j: "j = i\<lparr>triples := AList.update (s', p', x') (TripleNew s p x) (triples i)\<rparr>"
  shows "term_interner_ok j" and "grows_to i j"
    and "InternedTerm_encoded_from j (TTriple (TripleNew s p x)) = Some (ITTriple s' p' x')"
proof -
  note strings = interner_ok_strings [OF i]
  have hash: "RdfInterner_hash j w = RdfInterner_hash i w" for w
    by (rule hash_cong) (simp add: j)
  have str: "strings_ok j"
    using strings unfolding strings_ok_def hash by (simp add: j)
  have same: "tr = TripleNew s p x" if "map_of (triples i) (s', p', x') = Some tr" for tr
  proof -
    from that i obtain s2 p2 x2 where tr: "tr = TripleNew s2 p2 x2" "term_ok (TTriple tr)"
      and enc2: "InternedNamedOrBlankNode_encoded_from i s2 = Some s'"
        "InternedNamedNode_encoded_from i p2 = Some p'" "InternedTerm_encoded_from i x2 = Some x'"
      unfolding term_interner_ok_def by blast
    have "s2 = s" using node_decode [OF i _ enc(1)] node_decode [OF i _ enc2(1)] ok tr by simp
    moreover have "p2 = p" using named_decode [OF strings enc(2)] named_decode [OF strings enc2(2)] by simp
    moreover have "x2 = x" using term_decode [OF i _ enc(3)] term_decode [OF i _ enc2(3)] ok tr by simp
    ultimately show ?thesis using tr by simp
  qed
  then have le: "map_of (triples i) \<subseteq>\<^sub>m map_of (triples j)"
    unfolding map_le_def j by (auto simp: update_conv')
  then show ext: "grows_to i j"
    by (simp add: grows_to_def j)
  note later = lastingD [OF _ strings str ext]
  have "\<exists>s1 p1 x1. t = TripleNew s1 p1 x1 \<and> term_ok (TTriple t) \<and>
      InternedNamedOrBlankNode_encoded_from j s1 = Some a \<and>
      InternedNamedNode_encoded_from j p1 = Some b \<and> InternedTerm_encoded_from j x1 = Some c"
    if t: "map_of (triples j) (a, b, c) = Some t" for a b c t
  proof (cases "(a, b, c) = (s', p', x')")
    case True
    with t have "t = TripleNew s p x" by (simp add: j update_conv')
    with True ok enc later [OF lasting_node] later [OF lasting_named] later [OF lasting_term]
    show ?thesis by blast
  next
    case False
    with t have "map_of (triples i) (a, b, c) = Some t" by (auto simp: j update_conv')
    with i obtain s1 p1 x1 where "t = TripleNew s1 p1 x1" "term_ok (TTriple t)"
      and "InternedNamedOrBlankNode_encoded_from i s1 = Some a"
        "InternedNamedNode_encoded_from i p1 = Some b" "InternedTerm_encoded_from i x1 = Some c"
      unfolding term_interner_ok_def by blast
    with later [OF lasting_node] later [OF lasting_named] later [OF lasting_term] show ?thesis by blast
  qed
  moreover have "distinct (map fst (triples j))"
    using i by (simp add: j term_interner_ok_def distinct_update)
  ultimately show "term_interner_ok j"
    using i str unfolding term_interner_ok_def by (simp add: j)
  show "InternedTerm_encoded_from j (TTriple (TripleNew s p x)) = Some (ITTriple s' p' x')"
    using later [OF lasting_node enc(1)] later [OF lasting_named enc(2)] later [OF lasting_term enc(3)]
    by (simp add: j update_conv')
qed

lemma encodes_term:
  "term_ok t \<Longrightarrow> encodes (InternedTerm_encoded_into t) (\<lambda>i. InternedTerm_encoded_from i t)"
proof (induction t rule: term_ok.induct)
  case (4 s p x)
  show ?case
    unfolding encodes_def
  proof (intro allI impI)
    fix i y j
    assume i: "term_interner_ok i" and "InternedTerm_encoded_into (TTriple (TripleNew s p x)) i = Some (y, j)"
    then obtain s' i1 p' i2 x' i3 where
      run: "InternedNamedOrBlankNode_encoded_into s i = Some (s', i1)"
        "InternedNamedNode_encoded_into p i1 = Some (p', i2)"
        "InternedTerm_encoded_into x i2 = Some (x', i3)"
      and j: "j = i3\<lparr>triples := AList.update (s', p', x') (TripleNew s p x) (triples i3)\<rparr>"
      and y: "y = ITTriple s' p' x'"
      by (auto simp: ibind_def iupdate_def ireturn_def split: option.splits)
    have ok: "node_ok s" "term_ok x" using 4 by auto
    note A = encodesD [OF encodes_node [OF ok(1)] i run(1)]
    note B = encodesD [OF encodes_named A(1) run(2)]
    note C = encodesD [OF 4(1) [OF ok(2)] B(1) run(3)]
    note str = A(1) [THEN interner_ok_strings] B(1) [THEN interner_ok_strings] C(1) [THEN interner_ok_strings]
    have s: "InternedNamedOrBlankNode_encoded_from i3 s = Some s'"
      using lastingD [OF lasting_node str(1,3) grows_to_trans [OF B(2) C(2)] A(3)] .
    have p: "InternedNamedNode_encoded_from i3 p = Some p'"
      using lastingD [OF lasting_named str(2,3) C(2) B(3)] .
    note D = encodes_triples [OF C(1) 4(2) s p C(3) j]
    show "term_interner_ok j \<and> grows_to i j \<and> InternedTerm_encoded_from j (TTriple (TripleNew s p x)) = Some y"
      using D y grows_to_trans [OF A(2) grows_to_trans [OF B(2) grows_to_trans [OF C(2) D(2)]]] by blast
  qed
qed (auto intro: encodes_map encodes_named encodes_blank encodes_literal)

lemma interner_ok_new [simp]: "term_interner_ok (RdfInterner_new h)"
  by (simp add: term_interner_ok_def strings_ok_def RdfInterner_new_def)

section \<open>Encoding returns\<close>

text \<open>
  The strings a term contributes to the table. Over a set of strings with distinct hashes every
  encoding returns.
\<close>

fun blank_strings :: "BlankNode \<Rightarrow> string set" where
  "blank_strings (BNamed s) = {s}"
| "blank_strings (BAnonymous _) = {}"

fun literal_strings :: "Literal \<Rightarrow> string set" where
  "literal_strings (LString v) = {v}"
| "literal_strings (LanguageTaggedString v l) = {v, l}"
| "literal_strings (DirectionalLanguageTaggedString v l _) = {v, l}"
| "literal_strings (TypedLiteral v dt) = {v, iri dt}"

fun node_strings :: "NamedOrBlankNode \<Rightarrow> string set" where
  "node_strings (NobNamedNode n) = {iri n}"
| "node_strings (NobBlankNode b) = blank_strings b"

fun term_strings :: "Term \<Rightarrow> string set" where
  "term_strings (TNamedNode n) = {iri n}"
| "term_strings (TBlankNode b) = blank_strings b"
| "term_strings (TLiteral l) = literal_strings l"
| "term_strings (TTriple (TripleNew s p x)) = node_strings s \<union> {iri p} \<union> term_strings x"

fun graph_strings :: "GraphName \<Rightarrow> string set" where
  "graph_strings GDefaultGraph = {}"
| "graph_strings (GNamedNode n) = {iri n}"
| "graph_strings (GBlankNode b) = blank_strings b"

definition stored_strings :: "RdfInterner \<Rightarrow> string set" where
  "stored_strings i = ran (map_of (string_for_hash i))"

definition distinguishes :: "(string \<Rightarrow> 64 word) \<Rightarrow> string set \<Rightarrow> bool" where
  "distinguishes h S \<longleftrightarrow> inj_on (RdfInterner_hash (RdfInterner_new h)) S"

text \<open>\<open>returns S m\<close>: with distinct hashes on \<open>S\<close>, \<open>m\<close> returns and stores strings of \<open>S\<close> only.\<close>

definition returns :: "string set \<Rightarrow> 'a interning \<Rightarrow> bool" where
  "returns S m \<longleftrightarrow> (\<forall>i. strings_ok i \<longrightarrow> distinguishes (hasher i) S \<longrightarrow> stored_strings i \<subseteq> S \<longrightarrow>
     (\<exists>x j. m i = Some (x, j) \<and> strings_ok j \<and> hasher j = hasher i \<and> stored_strings j \<subseteq> S))"

lemma returns_return [simp]: "returns S (ireturn x)"
  by (simp add: returns_def ireturn_def)

lemma returnsE:
  assumes "returns S m" and "strings_ok i" and "distinguishes (hasher i) S" and "stored_strings i \<subseteq> S"
  obtains x j where "m i = Some (x, j)" and "strings_ok j" and "hasher j = hasher i"
    and "stored_strings j \<subseteq> S"
  using assms unfolding returns_def by blast

lemma returns_bind:
  assumes "returns S m" and "\<And>x. returns S (n x)"
  shows "returns S (ibind m n)"
  unfolding returns_def
proof (intro allI impI)
  fix i
  assume i: "strings_ok i" "distinguishes (hasher i) S" "stored_strings i \<subseteq> S"
  from assms(1) i obtain x j where j: "m i = Some (x, j)" "strings_ok j" "hasher j = hasher i"
    "stored_strings j \<subseteq> S" by (rule returnsE)
  have "distinguishes (hasher j) S" using i j by simp
  with assms(2) [of x] j(2,4) obtain y k where "n x j = Some (y, k)" "strings_ok k"
    "hasher k = hasher j" "stored_strings k \<subseteq> S" by (meson returnsE)
  with j show "\<exists>y k. ibind m n i = Some (y, k) \<and> strings_ok k \<and> hasher k = hasher i \<and> stored_strings k \<subseteq> S"
    by (simp add: ibind_def)
qed

lemma returns_update:
  "(\<And>i. string_for_hash (f i) = string_for_hash i \<and> hasher (f i) = hasher i) \<Longrightarrow> returns S (iupdate f)"
  unfolding returns_def iupdate_def strings_ok_def stored_strings_def
  by (auto simp: RdfInterner_hash_def)

lemma returns_get_or_intern:
  assumes "v \<in> S"
  shows "returns S (get_or_intern v)"
  unfolding returns_def
proof (intro allI impI)
  fix i
  assume str: "strings_ok i" and inj: "distinguishes (hasher i) S" and sub: "stored_strings i \<subseteq> S"
  let ?h = "RdfInterner_hash i v" and ?m = "string_for_hash i"
  let ?j = "i\<lparr>string_for_hash := AList.update ?h v ?m\<rparr>"
  show "\<exists>x j. get_or_intern v i = Some (x, j) \<and> strings_ok j \<and> hasher j = hasher i \<and> stored_strings j \<subseteq> S"
  proof (cases "map_of ?m ?h")
    case None
    have "strings_ok ?j"
      using str unfolding strings_ok_def by (auto simp: update_conv' RdfInterner_hash_def)
    moreover have "stored_strings ?j \<subseteq> S"
      using sub assms unfolding stored_strings_def by (auto simp: update_conv' ran_def split: if_splits)
    ultimately show ?thesis using None by (simp add: get_or_intern_cases)
  next
    case (Some w)
    then have "w \<in> S" and "RdfInterner_hash i w = ?h"
      using sub str by (auto simp: stored_strings_def strings_ok_def ran_def)
    moreover have "RdfInterner_hash i = RdfInterner_hash (RdfInterner_new (hasher i))"
      by (auto simp: fun_eq_iff RdfInterner_new_def intro: hash_cong)
    ultimately have "w = v"
      using inj assms unfolding distinguishes_def by (metis inj_onD)
    with Some str sub show ?thesis by (simp add: get_or_intern_cases)
  qed
qed

lemma returns_named: "iri n \<in> S \<Longrightarrow> returns S (InternedNamedNode_encoded_into n)"
  unfolding InternedNamedNode_encoded_into_def by (intro returns_bind returns_get_or_intern) auto

lemma returns_blank: "blank_strings b \<subseteq> S \<Longrightarrow> returns S (InternedBlankNode_encoded_into b)"
  by (cases b) (auto simp: InternedBlankNode_encoded_into_def note_blank_node_def
      intro!: returns_bind returns_get_or_intern returns_update split: option.splits)

lemma returns_literal: "literal_strings l \<subseteq> S \<Longrightarrow> returns S (InternedLiteral_encoded_into l)"
  by (cases l) (auto simp: InternedLiteral_encoded_into_def
      intro!: returns_bind returns_get_or_intern returns_named)

lemma returns_node: "node_strings n \<subseteq> S \<Longrightarrow> returns S (InternedNamedOrBlankNode_encoded_into n)"
  by (cases n) (auto intro!: returns_bind returns_named returns_blank)

lemma returns_graph: "graph_strings g \<subseteq> S \<Longrightarrow> returns S (InternedGraphName_encoded_into g)"
  by (cases g) (auto intro!: returns_bind returns_named returns_blank)

lemma returns_term: "term_strings t \<subseteq> S \<Longrightarrow> returns S (InternedTerm_encoded_into t)"
  by (induction t rule: term_ok.induct)
    (auto intro!: returns_bind returns_named returns_blank returns_literal returns_node returns_update)

section \<open>Copying\<close>

lemma update_new: "k \<notin> fst ` set m \<Longrightarrow> AList.update k v m = m @ [(k, v)]"
  by (induction m) auto

lemma runs_copy_map:
  assumes "distinct (map fst m)" and "runs check E (\<lambda>_. True)"
  shows "runs (copy_map check m) E (\<lambda>m'. m' = m)"
  unfolding copy_map_def
proof (rule runs_for_each_split [where I = "\<lambda>done rest acc. acc = done"])
  fix "done" x rest and acc :: "('a, 'b) hash_map"
  assume m: "m = done @ x # rest" and acc: "acc = done"
  obtain k v where x: "x = (k, v)" by (cases x)
  have "k \<notin> fst ` set done" using assms(1) m x by auto
  then have "AList.update k v acc = done @ [x]" by (simp add: acc x update_new)
  then show "runs ((\<lambda>(k, v) acc. andthen check (ok (AList.update k v acc))) x acc) E
      (\<lambda>acc. acc = done @ [x])"
    by (auto simp: x intro!: runs_bind [OF assms(2)])
qed auto

lemma runs_Interner_try_clone_with:
  assumes "term_interner_ok i" and "runs check E (\<lambda>_. True)"
  shows "runs (RdfInterner_try_clone_with check i) E (\<lambda>j. j = i)"
proof -
  note d = assms(1) [unfolded term_interner_ok_def]
  show ?thesis
    unfolding RdfInterner_try_clone_with_def
    by (intro runs_bind [OF assms(2)] runs_bind [OF runs_copy_map [OF _ assms(2)]])
      (use d in \<open>auto simp: runs_def ok_def\<close>)
qed

section \<open>Properties\<close>

text \<open>
  C17. Interning a well-formed RDF term, when no two of the strings involved have the same hash,
  returns an interned term that decodes to the term and that a later lookup of the term finds; and
  every term interned before is still found under the same interned form and decodes to itself.
\<close>

theorem interning_roundtrip:
  assumes "term_interner_ok i" and "term_ok t"
    and "distinguishes (hasher i) (stored_strings i \<union> term_strings t)"
  shows "\<exists>x j. InternedTerm_encoded_into t i = Some (x, j) \<and> term_interner_ok j \<and>
    InternedTerm_decode_from j x = Some t \<and> InternedTerm_encoded_from j t = Some x \<and>
    (\<forall>u y. InternedTerm_encoded_from i u = Some y \<longrightarrow> term_ok u \<longrightarrow>
      InternedTerm_encoded_from j u = Some y \<and> InternedTerm_decode_from j y = Some u)"
proof -
  have "returns (stored_strings i \<union> term_strings t) (InternedTerm_encoded_into t)"
    by (rule returns_term) simp
  from this interner_ok_strings [OF assms(1)] assms(3) obtain x j
    where x: "InternedTerm_encoded_into t i = Some (x, j)" by (rule returnsE) auto
  note J = encodesD [OF encodes_term [OF assms(2)] assms(1) x]
  have "InternedTerm_encoded_from j u = Some y \<and> InternedTerm_decode_from j y = Some u"
    if "InternedTerm_encoded_from i u = Some y" "term_ok u" for u y
    using lastingD [OF lasting_term interner_ok_strings [OF assms(1)] interner_ok_strings [OF J(1)] J(2) that(1)]
      term_decode [OF J(1) that(2)] by simp
  with x J term_decode [OF J(1) assms(2) J(3)] show ?thesis by blast
qed

text \<open>A hash function for examples: the length of the string.\<close>

definition length_hash :: "string \<Rightarrow> 64 word" where
  "length_hash s = of_nat (length s)"

lemma length_hash_distinguishes:
  "inj_on length S \<Longrightarrow> (\<And>s. s \<in> S \<Longrightarrow> length s < u64_max) \<Longrightarrow> distinguishes length_hash S"
  unfolding distinguishes_def
proof (rule inj_onI)
  fix s t
  assume inj: "inj_on length S" and small: "\<And>s. s \<in> S \<Longrightarrow> length s < u64_max"
    and st: "s \<in> S" "t \<in> S"
    and eq: "RdfInterner_hash (RdfInterner_new length_hash) s = RdfInterner_hash (RdfInterner_new length_hash) t"
  have "RdfInterner_hash (RdfInterner_new length_hash) u = length u" if "u \<in> S" for u
    using small [OF that]
    by (simp add: RdfInterner_hash_def RdfInterner_new_def length_hash_def Let_def u64_max_def
        unsigned_of_nat take_bit_nat_eq_self)
  with eq st inj show "s = t" by (auto dest: inj_onD)
qed

theorem interning_roundtrip_witness:
  "\<exists>x j. InternedTerm_encoded_into (TLiteral (TypedLiteral ''7'' xsd_INTEGER)) (RdfInterner_new length_hash) = Some (x, j) \<and>
     InternedTerm_decode_from j x = Some (TLiteral (TypedLiteral ''7'' xsd_INTEGER))"
proof -
  have "term_ok (TLiteral (TypedLiteral ''7'' xsd_INTEGER))"
    by (simp add: vocab_defs)
  moreover have "distinguishes (hasher (RdfInterner_new length_hash))
      (stored_strings (RdfInterner_new length_hash) \<union> term_strings (TLiteral (TypedLiteral ''7'' xsd_INTEGER)))"
    unfolding RdfInterner_new_def
    by (simp add: stored_strings_def vocab_defs)
      (rule length_hash_distinguishes; auto simp: u64_max_def)
  ultimately show ?thesis
    using interning_roundtrip [OF interner_ok_new, of "TLiteral (TypedLiteral ''7'' xsd_INTEGER)" length_hash]
    by blast
qed

text \<open>
  C37. When a string hashes to the slot of a different string, \<open>get_or_intern\<close> never returns: its
  inner loop goes on comparing with the entry it found first. The lookup \<open>get\<close> of the same string,
  which does read the next slot, ends and finds nothing, as long as the table is not full.
\<close>

theorem intern_collision_diverges:
  assumes "map_of (string_for_hash i) (RdfInterner_hash i v) = Some w" and "w \<noteq> v"
    and "term_interner_ok i" and "length (string_for_hash i) < u64_max"
  shows "get_or_intern v i = None \<and>
    get_loop (Suc (length (string_for_hash i))) (string_for_hash i) v (RdfInterner_hash i v) = Some None"
proof
  show "get_or_intern v i = None" using assms(1,2) by (simp add: get_or_intern_cases)
  have "RdfInterner_get i v = None"
    using assms by (simp add: RdfInterner_get_eq interner_ok_strings)
  with get_loop_ends [OF assms(4) hash_less, of v i v]
  show "get_loop (Suc (length (string_for_hash i))) (string_for_hash i) v (RdfInterner_hash i v) = Some None"
    by (auto simp: RdfInterner_get_def simp del: get_loop.simps split: option.splits)
qed

theorem intern_collision_diverges_witness:
  "get_or_intern ''b'' \<lparr>hasher = \<lambda>_. 0, string_for_hash = [(0, ''a'')], string_for_blank_node_id = [], triples = []\<rparr> = None"
  using intern_collision_diverges [of
      "\<lparr>hasher = \<lambda>_. 0, string_for_hash = [(0, ''a'')], string_for_blank_node_id = [], triples = []\<rparr>" "''b''" "''a''"]
  by (simp add: RdfInterner_hash_def term_interner_ok_def strings_ok_def u64_max_def split: if_splits)

end
