(* ===== verification/Rdf_Dataset.thy ===== *)
theory Rdf_Dataset
  imports Rdf_Interner
begin

text \<open>
  The in-memory RDF dataset (\<open>oxrdf/src/dataset.rs\<close>): an interner, the set of named graphs and
  six orderings of the interned quads, each a \<open>BTreeSet\<close>. Queries are range scans of the
  ordering whose leading columns are given. Blank node canonicalisation is not modelled.

  Iterators are modelled by the list of the items they yield, \<open>None\<close> for a panic while
  decoding; code that may not return because of the interner is \<open>None\<close> as well.
\<close>

section \<open>State\<close>

type_synonym quad_key = "InternedNamedOrBlankNode \<times> InternedNamedNode \<times> InternedTerm \<times> InternedGraphName"

record Dataset =
  interner :: RdfInterner
  named_graphs :: "InternedGraphName btree_set"
  gspo :: "(InternedGraphName \<times> InternedNamedOrBlankNode \<times> InternedNamedNode \<times> InternedTerm) btree_set"
  gpos :: "(InternedGraphName \<times> InternedNamedNode \<times> InternedTerm \<times> InternedNamedOrBlankNode) btree_set"
  gosp :: "(InternedGraphName \<times> InternedTerm \<times> InternedNamedOrBlankNode \<times> InternedNamedNode) btree_set"
  spog :: "(InternedNamedOrBlankNode \<times> InternedNamedNode \<times> InternedTerm \<times> InternedGraphName) btree_set"
  posg :: "(InternedNamedNode \<times> InternedTerm \<times> InternedNamedOrBlankNode \<times> InternedGraphName) btree_set"
  ospg :: "(InternedTerm \<times> InternedNamedOrBlankNode \<times> InternedNamedNode \<times> InternedGraphName) btree_set"

definition Dataset_new :: "(string \<Rightarrow> 64 word) \<Rightarrow> Dataset" where
  "Dataset_new h = \<lparr>interner = RdfInterner_new h, named_graphs = [],
     gspo = [], gpos = [], gosp = [], spog = [], posg = [], ospg = []\<rparr>"

text \<open>\<open>BTreeSet::remove\<close>, and the entries of \<open>BTreeSet::range(lo..hi)\<close>.\<close>

definition bts_remove :: "'k \<Rightarrow> 'k btree_set \<Rightarrow> 'k btree_set" where
  "bts_remove x xs = filter (\<lambda>y. y \<noteq> x) xs"

definition bts_range :: "'k::linorder \<Rightarrow> 'k \<Rightarrow> 'k btree_set \<Rightarrow> 'k list" where
  "bts_range lo hi xs = filter (\<lambda>x. lo \<le> x \<and> x < hi) xs"

section \<open>Encoding and decoding\<close>

definition encode_quad :: "Quad \<Rightarrow> quad_key interning" where
  "encode_quad q =
     ibind (InternedNamedOrBlankNode_encoded_into (subject q)) (\<lambda>s.
     ibind (InternedNamedNode_encoded_into (predicate q)) (\<lambda>p.
     ibind (InternedTerm_encoded_into (object q)) (\<lambda>x.
     ibind (InternedGraphName_encoded_into (graph_name q)) (\<lambda>g.
     ireturn (s, p, x, g)))))"

definition encoded_quad :: "Dataset \<Rightarrow> Quad \<Rightarrow> quad_key option" where
  "encoded_quad d q =
     Option.bind (InternedNamedOrBlankNode_encoded_from (interner d) (subject q)) (\<lambda>s.
     Option.bind (InternedNamedNode_encoded_from (interner d) (predicate q)) (\<lambda>p.
     Option.bind (InternedTerm_encoded_from (interner d) (object q)) (\<lambda>x.
     Option.bind (InternedGraphName_encoded_from (interner d) (graph_name q)) (\<lambda>g.
     Some (s, p, x, g)))))"

fun graph_of_node :: "InternedNamedOrBlankNode \<Rightarrow> InternedGraphName" where
  "graph_of_node (INobNamedNode n) = IGNamedNode n"
| "graph_of_node (INobBlankNode b) = IGBlankNode b"

definition encode_named_graph_name :: "NamedOrBlankNode \<Rightarrow> InternedGraphName interning" where
  "encode_named_graph_name g =
     ibind (InternedNamedOrBlankNode_encoded_into g) (\<lambda>n. ireturn (graph_of_node n))"

definition encoded_named_graph_name :: "Dataset \<Rightarrow> NamedOrBlankNode \<Rightarrow> InternedGraphName option" where
  "encoded_named_graph_name d g =
     map_option graph_of_node (InternedNamedOrBlankNode_encoded_from (interner d) g)"

fun decode_named_graph_name :: "Dataset \<Rightarrow> InternedGraphName \<Rightarrow> NamedOrBlankNode option" where
  "decode_named_graph_name d (IGNamedNode n) =
     map_option NobNamedNode (InternedNamedNode_decode_from (interner d) n)"
| "decode_named_graph_name d (IGBlankNode b) =
     map_option NobBlankNode (InternedBlankNode_decode_from (interner d) b)"
| "decode_named_graph_name d IDefaultGraph = None"

fun decode_spog :: "Dataset \<Rightarrow> quad_key \<Rightarrow> Quad option" where
  "decode_spog d (s, p, x, g) =
     Option.bind (InternedNamedOrBlankNode_decode_from (interner d) s) (\<lambda>s'.
     Option.bind (InternedNamedNode_decode_from (interner d) p) (\<lambda>p'.
     Option.bind (InternedTerm_decode_from (interner d) x) (\<lambda>x'.
     Option.bind (InternedGraphName_decode_from (interner d) g) (\<lambda>g'.
     Some \<lparr>subject = s', predicate = p', object = x', graph_name = g'\<rparr>))))"

fun decode_spo :: "Dataset \<Rightarrow> InternedTriple \<Rightarrow> Triple option" where
  "decode_spo d (s, p, x) =
     Option.bind (InternedNamedOrBlankNode_decode_from (interner d) s) (\<lambda>s'.
     Option.bind (InternedNamedNode_decode_from (interner d) p) (\<lambda>p'.
     Option.bind (InternedTerm_decode_from (interner d) x) (\<lambda>x'.
     Some (TripleNew s' p' x'))))"

section \<open>Updates\<close>

fun insert_encoded :: "quad_key \<Rightarrow> Dataset \<Rightarrow> bool \<times> Dataset" where
  "insert_encoded (s, p, x, g) d =
     ((x, s, p, g) \<notin> set (ospg d),
      d\<lparr>named_graphs := if g \<noteq> IDefaultGraph then bts_insert g (named_graphs d) else named_graphs d,
        gspo := bts_insert (g, s, p, x) (gspo d),
        gpos := bts_insert (g, p, x, s) (gpos d),
        gosp := bts_insert (g, x, s, p) (gosp d),
        spog := bts_insert (s, p, x, g) (spog d),
        posg := bts_insert (p, x, s, g) (posg d),
        ospg := bts_insert (x, s, p, g) (ospg d)\<rparr>)"

fun remove_encoded :: "quad_key \<Rightarrow> Dataset \<Rightarrow> bool \<times> Dataset" where
  "remove_encoded (s, p, x, g) d =
     ((x, s, p, g) \<in> set (ospg d),
      d\<lparr>gspo := bts_remove (g, s, p, x) (gspo d),
        gpos := bts_remove (g, p, x, s) (gpos d),
        gosp := bts_remove (g, x, s, p) (gosp d),
        spog := bts_remove (s, p, x, g) (spog d),
        posg := bts_remove (p, x, s, g) (posg d),
        ospg := bts_remove (x, s, p, g) (ospg d)\<rparr>)"

definition Dataset_insert :: "Quad \<Rightarrow> Dataset \<Rightarrow> (bool \<times> Dataset) option" where
  "Dataset_insert q d =
     (case encode_quad q (interner d) of
        None \<Rightarrow> None
      | Some (k, i) \<Rightarrow> Some (insert_encoded k (d\<lparr>interner := i\<rparr>)))"

definition Dataset_remove :: "Quad \<Rightarrow> Dataset \<Rightarrow> bool \<times> Dataset" where
  "Dataset_remove q d =
     (case encoded_quad d q of Some k \<Rightarrow> remove_encoded k d | None \<Rightarrow> (False, d))"

definition Dataset_contains :: "Dataset \<Rightarrow> Quad \<Rightarrow> bool" where
  "Dataset_contains d q = (case encoded_quad d q of Some k \<Rightarrow> k \<in> set (spog d) | None \<Rightarrow> False)"

definition Dataset_len :: "Dataset \<Rightarrow> nat" where
  "Dataset_len d = length (gspo d)"

definition Dataset_is_empty :: "Dataset \<Rightarrow> bool" where
  "Dataset_is_empty d \<longleftrightarrow> gspo d = []"

definition Dataset_clear :: "Dataset \<Rightarrow> Dataset" where
  "Dataset_clear d = d\<lparr>named_graphs := [], gspo := [], gpos := [], gosp := [], spog := [], posg := [],
     ospg := []\<rparr>"

definition contains_named_graph :: "Dataset \<Rightarrow> NamedOrBlankNode \<Rightarrow> bool" where
  "contains_named_graph d g =
     (case encoded_named_graph_name d g of Some k \<Rightarrow> k \<in> set (named_graphs d) | None \<Rightarrow> False)"

definition insert_named_graph :: "NamedOrBlankNode \<Rightarrow> Dataset \<Rightarrow> (bool \<times> Dataset) option" where
  "insert_named_graph g d =
     (case encode_named_graph_name g (interner d) of
        None \<Rightarrow> None
      | Some (k, i) \<Rightarrow>
          Some (k \<notin> set (named_graphs d), d\<lparr>interner := i, named_graphs := bts_insert k (named_graphs d)\<rparr>))"

section \<open>Range scans\<close>

text \<open>Abbreviations for the least value in each column and an absent term.\<close>

abbreviation "s_min \<equiv> InternedNamedOrBlankNode_first"
abbreviation "p_min \<equiv> InternedNamedNode_first"
abbreviation "x_min \<equiv> InternedTerm_first"
abbreviation "g_min \<equiv> InternedGraphName_first"

definition unwrap_or :: "'a \<Rightarrow> 'a option \<Rightarrow> 'a" where
  "unwrap_or x y = (case y of None \<Rightarrow> x | Some z \<Rightarrow> z)"

definition interned_quads_for_subject :: "Dataset \<Rightarrow> InternedNamedOrBlankNode \<Rightarrow> quad_key list" where
  "interned_quads_for_subject d s =
     bts_range (s, p_min, x_min, g_min) (InternedNamedOrBlankNode_next s, p_min, x_min, g_min) (spog d)"

definition interned_quads_for_predicate :: "Dataset \<Rightarrow> InternedNamedNode \<Rightarrow> quad_key list" where
  "interned_quads_for_predicate d p =
     map (\<lambda>(p, x, s, g). (s, p, x, g))
       (bts_range (p, x_min, s_min, g_min) (InternedNamedNode_next p, x_min, s_min, g_min) (posg d))"

definition interned_quads_for_object :: "Dataset \<Rightarrow> InternedTerm \<Rightarrow> quad_key list" where
  "interned_quads_for_object d x =
     map (\<lambda>(x, s, p, g). (s, p, x, g))
       (bts_range (x, s_min, p_min, g_min) (InternedTerm_next x, s_min, p_min, g_min) (ospg d))"

definition interned_quads_for_graph_name :: "Dataset \<Rightarrow> InternedGraphName \<Rightarrow> quad_key list" where
  "interned_quads_for_graph_name d g =
     map (\<lambda>(g, s, p, x). (s, p, x, g))
       (bts_range (g, s_min, p_min, x_min) (InternedGraphName_next g, s_min, p_min, x_min) (gspo d))"

text \<open>The items of an iterator that decodes each key; \<open>None\<close> if one of them panics.\<close>

definition decode_all :: "Dataset \<Rightarrow> quad_key list \<Rightarrow> Quad list option" where
  "decode_all d ks = those (map (decode_spog d) ks)"

definition Dataset_iter :: "Dataset \<Rightarrow> Quad list option" where
  "Dataset_iter d = decode_all d (spog d)"

definition Dataset_named_graphs :: "Dataset \<Rightarrow> NamedOrBlankNode list option" where
  "Dataset_named_graphs d = those (map (decode_named_graph_name d) (named_graphs d))"

definition quads_for_subject :: "Dataset \<Rightarrow> NamedOrBlankNode \<Rightarrow> Quad list option" where
  "quads_for_subject d s = decode_all d (interned_quads_for_subject d
     (unwrap_or InternedNamedOrBlankNode_impossible (InternedNamedOrBlankNode_encoded_from (interner d) s)))"

definition quads_for_predicate :: "Dataset \<Rightarrow> NamedNode \<Rightarrow> Quad list option" where
  "quads_for_predicate d p = decode_all d (interned_quads_for_predicate d
     (unwrap_or InternedNamedNode_impossible (InternedNamedNode_encoded_from (interner d) p)))"

definition quads_for_object :: "Dataset \<Rightarrow> Term \<Rightarrow> Quad list option" where
  "quads_for_object d x = decode_all d (interned_quads_for_object d
     (unwrap_or InternedTerm_impossible (InternedTerm_encoded_from (interner d) x)))"

definition quads_for_graph_name :: "Dataset \<Rightarrow> GraphName \<Rightarrow> Quad list option" where
  "quads_for_graph_name d g = decode_all d (interned_quads_for_graph_name d
     (unwrap_or InternedGraphName_impossible (InternedGraphName_encoded_from (interner d) g)))"

text \<open>\<open>opt_is x f\<close> is \<open>x.is_none_or(|v| v == f)\<close>.\<close>

definition opt_is :: "'a option \<Rightarrow> 'a \<Rightarrow> bool" where
  "opt_is x v = (case x of None \<Rightarrow> True | Some y \<Rightarrow> y = v)"

definition quads_for_pattern ::
  "Dataset \<Rightarrow> NamedOrBlankNode option \<Rightarrow> NamedNode option \<Rightarrow> Term option \<Rightarrow> GraphName option \<Rightarrow>
    Quad list option" where
  "quads_for_pattern d sub pre ob gr =
     (case sub of
        Some s \<Rightarrow> map_option (filter (\<lambda>q. opt_is pre (predicate q) \<and> opt_is ob (object q) \<and>
          opt_is gr (graph_name q))) (quads_for_subject d s)
      | None \<Rightarrow>
     (case ob of
        Some x \<Rightarrow> map_option (filter (\<lambda>q. opt_is pre (predicate q) \<and> opt_is gr (graph_name q)))
          (quads_for_object d x)
      | None \<Rightarrow>
     (case pre of
        Some p \<Rightarrow> map_option (filter (\<lambda>q. opt_is gr (graph_name q))) (quads_for_predicate d p)
      | None \<Rightarrow>
     (case gr of
        Some g \<Rightarrow> quads_for_graph_name d g
      | None \<Rightarrow> Dataset_iter d))))"

section \<open>Clearing and copying\<close>

definition clear_encoded_graph :: "InternedGraphName \<Rightarrow> Dataset \<Rightarrow> Dataset" where
  "clear_encoded_graph g d =
     foldl (\<lambda>d' k. snd (remove_encoded k d')) d (interned_quads_for_graph_name d g)"

definition clear_graph :: "GraphName \<Rightarrow> Dataset \<Rightarrow> Dataset" where
  "clear_graph g d =
     (case InternedGraphName_encoded_from (interner d) g of
        None \<Rightarrow> d
      | Some k \<Rightarrow> clear_encoded_graph k d)"

definition remove_named_graph :: "NamedOrBlankNode \<Rightarrow> Dataset \<Rightarrow> bool \<times> Dataset" where
  "remove_named_graph g d =
     (case encoded_named_graph_name d g of
        None \<Rightarrow> (False, d)
      | Some k \<Rightarrow>
          (k \<in> set (named_graphs d),
           clear_encoded_graph k (d\<lparr>named_graphs := bts_remove k (named_graphs d)\<rparr>)))"

definition copy_index :: "('s, 'e, unit) fallible \<Rightarrow> 'k::linorder btree_set \<Rightarrow> ('s, 'e, 'k btree_set) fallible" where
  "copy_index check source =
     andthen check
       (bind (for_each (\<lambda>x acc. andthen check (ok (bts_insert x acc))) source []) (\<lambda>result.
        andthen check (ok result)))"

definition Dataset_try_clone_with :: "('s, 'e, unit) fallible \<Rightarrow> Dataset \<Rightarrow> ('s, 'e, Dataset) fallible" where
  "Dataset_try_clone_with check d =
     andthen check
       (bind (RdfInterner_try_clone_with check (interner d)) (\<lambda>i.
        bind (copy_index check (named_graphs d)) (\<lambda>ng.
        bind (copy_index check (gspo d)) (\<lambda>a.
        bind (copy_index check (gpos d)) (\<lambda>b.
        bind (copy_index check (gosp d)) (\<lambda>c.
        bind (copy_index check (spog d)) (\<lambda>e.
        bind (copy_index check (posg d)) (\<lambda>f.
        bind (copy_index check (ospg d)) (\<lambda>h.
        andthen check (ok \<lparr>interner = i, named_graphs = ng, gspo = a, gpos = b, gosp = c, spog = e,
          posg = f, ospg = h\<rparr>))))))))))"

section \<open>Collections of quads\<close>

text \<open>The loop of \<open>Extend::extend\<close>, shared by datasets and graph views.\<close>

fun insert_all :: "('q \<Rightarrow> 's \<Rightarrow> (bool \<times> 's) option) \<Rightarrow> 'q list \<Rightarrow> 's \<Rightarrow> 's option" where
  "insert_all ins [] d = Some d"
| "insert_all ins (q # qs) d =
     (case ins q d of None \<Rightarrow> None | Some (_, d') \<Rightarrow> insert_all ins qs d')"

definition Dataset_extend :: "Quad list \<Rightarrow> Dataset \<Rightarrow> Dataset option" where
  "Dataset_extend qs d = insert_all Dataset_insert qs d"

definition Dataset_from_iter :: "(string \<Rightarrow> 64 word) \<Rightarrow> Quad list \<Rightarrow> Dataset option" where
  "Dataset_from_iter h qs = Dataset_extend qs (Dataset_new h)"

definition Dataset_eq :: "Dataset \<Rightarrow> Dataset \<Rightarrow> bool option" where
  "Dataset_eq d e =
     (if Dataset_len d \<noteq> Dataset_len e \<or> length (named_graphs d) \<noteq> length (named_graphs e) then Some False
      else
        Option.bind (Dataset_named_graphs d) (\<lambda>gs.
          if \<not> list_all (contains_named_graph e) gs then Some False
          else map_option (list_all (Dataset_contains e)) (Dataset_iter d)))"

definition Dataset_fmt :: "Dataset \<Rightarrow> string option" where
  "Dataset_fmt d = map_option (\<lambda>qs. concat (map (\<lambda>q. Quad_fmt q @ '' .'' @ [CHR 0x0A]) qs)) (Dataset_iter d)"

end
