(* ===== verification/Rdf_Dataset_Correct.thy ===== *)
theory Rdf_Dataset_Correct
  imports Rdf_Dataset
begin

text \<open>
  The dataset as a set of quads. The invariant says that the six orderings hold the same quads,
  that every stored key stands for a well-formed quad and that every graph in use is listed; the
  abstraction is the set of quads it contains and the set of its named graphs. Updates refine the
  set operations, and every query returns the matching quads, each once.
\<close>

section \<open>Interned quads\<close>

definition quad_from :: "Quad \<Rightarrow> RdfInterner \<Rightarrow> quad_key option" where
  "quad_from q i =
     Option.bind (InternedNamedOrBlankNode_encoded_from i (subject q)) (\<lambda>s.
     Option.bind (InternedNamedNode_encoded_from i (predicate q)) (\<lambda>p.
     Option.bind (InternedTerm_encoded_from i (object q)) (\<lambda>x.
     Option.bind (InternedGraphName_encoded_from i (graph_name q)) (\<lambda>g.
     Some (s, p, x, g)))))"

lemma encoded_quad_from: "encoded_quad d q = quad_from q (interner d)"
  by (simp add: encoded_quad_def quad_from_def)

lemma quad_from_SomeD:
  "quad_from q i = Some (s, p, x, g) \<longleftrightarrow>
    InternedNamedOrBlankNode_encoded_from i (subject q) = Some s \<and>
    InternedNamedNode_encoded_from i (predicate q) = Some p \<and>
    InternedTerm_encoded_from i (object q) = Some x \<and>
    InternedGraphName_encoded_from i (graph_name q) = Some g"
  by (auto simp: quad_from_def bind_eq_Some_conv)

lemma lasting_quad: "lasting (quad_from q)"
  unfolding quad_from_def
  by (intro lasting_bind lasting_node lasting_named lasting_term lasting_graph lasting_Some)

lemma encodes_quad: "quad_ok q \<Longrightarrow> encodes (encode_quad q) (quad_from q)"
  unfolding quad_from_def encode_quad_def quad_ok_def
  by (intro encodes_bind encodes_return encodes_node encodes_named encodes_term encodes_graph
      lasting_node lasting_named lasting_term lasting_graph) auto

definition quad_strings :: "Quad \<Rightarrow> string set" where
  "quad_strings q = node_strings (subject q) \<union> {iri (predicate q)} \<union> term_strings (object q) \<union>
     graph_strings (graph_name q)"

lemma returns_quad: "quad_strings q \<subseteq> S \<Longrightarrow> returns S (encode_quad q)"
  unfolding encode_quad_def quad_strings_def
  by (intro returns_bind returns_return returns_node returns_named returns_term returns_graph) auto

lemma quad_decode:
  assumes "term_interner_ok (interner d)" and "quad_ok q" and "encoded_quad d q = Some k"
  shows "decode_spog d k = Some q"
proof -
  obtain s p x g where k: "k = (s, p, x, g)" by (metis prod_cases4)
  with assms(3) have e: "InternedNamedOrBlankNode_encoded_from (interner d) (subject q) = Some s"
    "InternedNamedNode_encoded_from (interner d) (predicate q) = Some p"
    "InternedTerm_encoded_from (interner d) (object q) = Some x"
    "InternedGraphName_encoded_from (interner d) (graph_name q) = Some g"
    by (simp_all add: encoded_quad_from quad_from_SomeD)
  have ok: "node_ok (subject q)" "term_ok (object q)" "graph_ok (graph_name q)"
    using assms(2) by (simp_all add: quad_ok_def)
  show ?thesis
    by (simp add: k node_decode [OF assms(1) ok(1) e(1)] term_decode [OF assms(1) ok(2) e(3)]
        named_decode [OF interner_ok_strings [OF assms(1)] e(2)] graph_decode [OF assms(1) ok(3) e(4)])
qed

lemma node_named_graph: "encoded_named_graph_name d n = Some g \<Longrightarrow> g \<noteq> IDefaultGraph"
  by (auto simp: encoded_named_graph_name_def elim!: graph_of_node.elims)

fun node_of_graph :: "GraphName \<Rightarrow> NamedOrBlankNode option" where
  "node_of_graph GDefaultGraph = None"
| "node_of_graph (GNamedNode n) = Some (NobNamedNode n)"
| "node_of_graph (GBlankNode b) = Some (NobBlankNode b)"

lemma encoded_graph_node:
  "node_of_graph g = Some n \<Longrightarrow>
    InternedGraphName_encoded_from (interner d) g = encoded_named_graph_name d n"
  by (cases g) (auto simp: encoded_named_graph_name_def option.map_comp comp_def)

lemma node_of_graph_ok: "node_of_graph g = Some n \<Longrightarrow> graph_ok g = node_ok n"
  by (cases g) auto

lemma encoded_graph_default:
  "node_of_graph g = None \<Longrightarrow> InternedGraphName_encoded_from i g = Some IDefaultGraph"
  by (cases g) auto

lemma lasting_named_graph:
  assumes "strings_ok (interner d)" "strings_ok i" "grows_to (interner d) i"
    and "encoded_named_graph_name d n = Some g"
  shows "encoded_named_graph_name (d\<lparr>interner := i\<rparr>) n = Some g"
  using assms lastingD [OF lasting_node assms(1-3)] by (auto simp: encoded_named_graph_name_def)

lemma named_graph_decode:
  "term_interner_ok (interner d) \<Longrightarrow> node_ok n \<Longrightarrow> encoded_named_graph_name d n = Some g \<Longrightarrow>
    decode_named_graph_name d g = Some n"
  by (cases n) (auto simp: encoded_named_graph_name_def named_decode blank_decode interner_ok_strings)

section \<open>Invariant and abstraction\<close>

definition indexes_ok :: "Dataset \<Rightarrow> bool" where
  "indexes_ok d \<longleftrightarrow> bts_wf (named_graphs d) \<and> bts_wf (gspo d) \<and> bts_wf (gpos d) \<and> bts_wf (gosp d) \<and>
     bts_wf (spog d) \<and> bts_wf (posg d) \<and> bts_wf (ospg d) \<and>
     (\<forall>s p x g. ((g, s, p, x) \<in> set (gspo d) \<longleftrightarrow> (s, p, x, g) \<in> set (spog d)) \<and>
        ((g, p, x, s) \<in> set (gpos d) \<longleftrightarrow> (s, p, x, g) \<in> set (spog d)) \<and>
        ((g, x, s, p) \<in> set (gosp d) \<longleftrightarrow> (s, p, x, g) \<in> set (spog d)) \<and>
        ((p, x, s, g) \<in> set (posg d) \<longleftrightarrow> (s, p, x, g) \<in> set (spog d)) \<and>
        ((x, s, p, g) \<in> set (ospg d) \<longleftrightarrow> (s, p, x, g) \<in> set (spog d)))"

definition dataset_ok :: "Dataset \<Rightarrow> bool" where
  "dataset_ok d \<longleftrightarrow> term_interner_ok (interner d) \<and> indexes_ok d \<and>
     (\<forall>k \<in> set (spog d). \<exists>q. quad_ok q \<and> encoded_quad d q = Some k) \<and>
     (\<forall>s p x g. (s, p, x, g) \<in> set (spog d) \<longrightarrow> g \<noteq> IDefaultGraph \<longrightarrow> g \<in> set (named_graphs d)) \<and>
     (\<forall>g \<in> set (named_graphs d). \<exists>n. node_ok n \<and> encoded_named_graph_name d n = Some g)"

definition quads_of :: "Dataset \<Rightarrow> Quad set" where
  "quads_of d = {q. quad_ok q \<and> Dataset_contains d q}"

definition graphs_of :: "Dataset \<Rightarrow> NamedOrBlankNode set" where
  "graphs_of d = {n. node_ok n \<and> contains_named_graph d n}"

lemma Dataset_contains_iff:
  "Dataset_contains d q \<longleftrightarrow> (\<exists>k \<in> set (spog d). encoded_quad d q = Some k)"
  by (auto simp: Dataset_contains_def split: option.splits)

lemma contains_named_graph_iff:
  "contains_named_graph d n \<longleftrightarrow> (\<exists>g \<in> set (named_graphs d). encoded_named_graph_name d n = Some g)"
  by (auto simp: contains_named_graph_def split: option.splits)

lemma encoded_quad_inject:
  "term_interner_ok (interner d) \<Longrightarrow> quad_ok q \<Longrightarrow> quad_ok r \<Longrightarrow> encoded_quad d q = Some k \<Longrightarrow>
    encoded_quad d r = Some k \<Longrightarrow> q = r"
  by (metis option.inject quad_decode)

lemma encoded_named_graph_inject:
  "term_interner_ok (interner d) \<Longrightarrow> node_ok n \<Longrightarrow> node_ok m \<Longrightarrow> encoded_named_graph_name d n = Some g \<Longrightarrow>
    encoded_named_graph_name d m = Some g \<Longrightarrow> n = m"
  by (metis option.inject named_graph_decode)

lemma dataset_okD:
  assumes "dataset_ok d"
  shows "term_interner_ok (interner d)" and "indexes_ok d"
    and "k \<in> set (spog d) \<Longrightarrow> \<exists>q. quad_ok q \<and> encoded_quad d q = Some k"
    and "(s, p, x, g) \<in> set (spog d) \<Longrightarrow> g \<noteq> IDefaultGraph \<Longrightarrow> g \<in> set (named_graphs d)"
    and "g \<in> set (named_graphs d) \<Longrightarrow> \<exists>n. node_ok n \<and> encoded_named_graph_name d n = Some g"
  using assms unfolding dataset_ok_def by blast+

lemma stored_key:
  assumes "dataset_ok d" and "k \<in> set (spog d)"
  obtains q where "q \<in> quads_of d" and "encoded_quad d q = Some k" and "decode_spog d k = Some q"
  using dataset_okD(1,3) [OF assms(1)] assms(2) quad_decode [of d]
  unfolding quads_of_def Dataset_contains_iff by blast

lemma quads_of_key:
  assumes "dataset_ok d" and "q \<in> quads_of d"
  obtains k where "k \<in> set (spog d)" and "encoded_quad d q = Some k" and "decode_spog d k = Some q"
    and "quad_ok q"
  using assms dataset_okD(1) [OF assms(1)] quad_decode [of d q]
  unfolding quads_of_def Dataset_contains_iff by blast

lemma dataset_ok_new [simp]: "dataset_ok (Dataset_new h)"
  by (simp add: dataset_ok_def Dataset_new_def indexes_ok_def)

lemma quads_of_new [simp]: "quads_of (Dataset_new h) = {}"
  by (simp add: quads_of_def Dataset_contains_iff Dataset_new_def)

lemma graphs_of_new [simp]: "graphs_of (Dataset_new h) = {}"
  by (simp add: graphs_of_def contains_named_graph_iff Dataset_new_def)

section \<open>Growing the interner\<close>

lemma extend_interner:
  assumes d: "dataset_ok d" and i: "term_interner_ok i" and e: "grows_to (interner d) i"
  defines "d1 \<equiv> d\<lparr>interner := i\<rparr>"
  shows "dataset_ok d1" and "quads_of d1 = quads_of d" and "graphs_of d1 = graphs_of d"
proof -
  note str = interner_ok_strings [OF dataset_okD(1) [OF d]] interner_ok_strings [OF i]
  have q: "encoded_quad d1 q = Some k" if "encoded_quad d q = Some k" for q k
    using that lastingD [OF lasting_quad str e] by (simp add: encoded_quad_from d1_def)
  have g: "encoded_named_graph_name d1 n = Some k" if "encoded_named_graph_name d n = Some k" for n k
    using that lasting_named_graph [OF str e] by (simp add: d1_def)
  have "indexes_ok d1" using dataset_okD(2) [OF d] by (simp add: indexes_ok_def d1_def)
  then show ok: "dataset_ok d1"
    using d i q g unfolding dataset_ok_def by (simp add: d1_def) blast
  have spog: "spog d1 = spog d" and ng: "named_graphs d1 = named_graphs d" by (simp_all add: d1_def)
  show "quads_of d1 = quads_of d"
  proof (intro set_eqI iffI)
    fix r assume "r \<in> quads_of d"
    then show "r \<in> quads_of d1" using q unfolding quads_of_def Dataset_contains_iff spog by blast
  next
    fix r assume r: "r \<in> quads_of d1"
    from quads_of_key [OF ok r] obtain k where k: "k \<in> set (spog d)" "encoded_quad d1 r = Some k" "quad_ok r"
      unfolding spog by blast
    from stored_key [OF d k(1)] obtain q' where q': "q' \<in> quads_of d" "encoded_quad d q' = Some k" by blast
    then have "q' = r"
      using encoded_quad_inject [OF dataset_okD(1) [OF ok] _ k(3) q [OF q'(2)] k(2)]
      by (simp add: quads_of_def)
    with q' show "r \<in> quads_of d" by simp
  qed
  show "graphs_of d1 = graphs_of d"
  proof (intro set_eqI iffI)
    fix n assume "n \<in> graphs_of d"
    then show "n \<in> graphs_of d1" using g unfolding graphs_of_def contains_named_graph_iff ng by blast
  next
    fix n assume "n \<in> graphs_of d1"
    then obtain k where k: "k \<in> set (named_graphs d)" "encoded_named_graph_name d1 n = Some k" "node_ok n"
      unfolding graphs_of_def contains_named_graph_iff ng by blast
    from dataset_okD(5) [OF d k(1)] obtain m where m: "node_ok m" "encoded_named_graph_name d m = Some k" by blast
    then have "m = n"
      using encoded_named_graph_inject [OF dataset_okD(1) [OF ok] _ k(3) g [OF m(2)] k(2)] by simp
    with m k show "n \<in> graphs_of d" unfolding graphs_of_def contains_named_graph_iff by blast
  qed
qed

section \<open>Updates\<close>

lemma set_bts_remove [simp]: "set (bts_remove x xs) = set xs - {x}"
  by (auto simp: bts_remove_def)

lemma bts_wf_remove: "bts_wf xs \<Longrightarrow> bts_wf (bts_remove x xs)"
  by (simp add: bts_remove_def sorted_wrt_filter)

lemma encoded_cong:
  "interner d' = interner d \<Longrightarrow> encoded_quad d' q = encoded_quad d q"
  "interner d' = interner d \<Longrightarrow> encoded_named_graph_name d' n = encoded_named_graph_name d n"
  by (simp_all add: encoded_quad_from encoded_named_graph_name_def)

lemma indexes_ok_insert: "indexes_ok d \<Longrightarrow> indexes_ok (snd (insert_encoded k d))"
  by (cases k) (auto simp: indexes_ok_def bts_wf_insert)

lemma indexes_ok_remove: "indexes_ok d \<Longrightarrow> indexes_ok (snd (remove_encoded k d))"
  by (cases k) (auto simp: indexes_ok_def bts_wf_remove)

lemma insert_encoded_simps [simp]:
  "interner (snd (insert_encoded k d)) = interner d"
  "set (spog (snd (insert_encoded k d))) = insert k (set (spog d))"
  "set (named_graphs (snd (insert_encoded k d))) =
    set (named_graphs d) \<union> ({snd (snd (snd k))} - {IDefaultGraph})"
  by (cases k; auto)+

lemma remove_encoded_simps [simp]:
  "interner (snd (remove_encoded k d)) = interner d"
  "set (spog (snd (remove_encoded k d))) = set (spog d) - {k}"
  "named_graphs (snd (remove_encoded k d)) = named_graphs d"
  by (cases k; simp)+

lemma ospg_spog:
  "indexes_ok d \<Longrightarrow> fst (insert_encoded k d) \<longleftrightarrow> k \<notin> set (spog d)"
  "indexes_ok d \<Longrightarrow> fst (remove_encoded k d) \<longleftrightarrow> k \<in> set (spog d)"
  by (cases k; auto simp: indexes_ok_def)+

lemma quad_graph_key:
  assumes "encoded_quad d q = Some (s, p, x, g)"
  shows "node_of_graph (graph_name q) = Some n \<Longrightarrow> encoded_named_graph_name d n = Some g"
    and "node_of_graph (graph_name q) = None \<longleftrightarrow> g = IDefaultGraph"
proof -
  have g: "InternedGraphName_encoded_from (interner d) (graph_name q) = Some g"
    using assms by (simp add: encoded_quad_from quad_from_SomeD)
  then show "node_of_graph (graph_name q) = Some n \<Longrightarrow> encoded_named_graph_name d n = Some g"
    by (simp add: encoded_graph_node)
  from g show "node_of_graph (graph_name q) = None \<longleftrightarrow> g = IDefaultGraph"
    by (cases "graph_name q") auto
qed

lemma insert_encoded_correct:
  assumes d: "dataset_ok d" and q: "quad_ok q" and k: "encoded_quad d q = Some k"
  shows "dataset_ok (snd (insert_encoded k d))"
    and "quads_of (snd (insert_encoded k d)) = insert q (quads_of d)"
    and "graphs_of (snd (insert_encoded k d)) = graphs_of d \<union> set_option (node_of_graph (graph_name q))"
    and "fst (insert_encoded k d) \<longleftrightarrow> q \<notin> quads_of d"
proof -
  let ?d = "snd (insert_encoded k d)"
  obtain s p x g where kk: "k = (s, p, x, g)" by (metis prod_cases4)
  note G = quad_graph_key [OF k [unfolded kk]]
  note [simp] = encoded_cong [OF insert_encoded_simps(1)]
  have gok: "node_ok n" if "node_of_graph (graph_name q) = Some n" for n
    using q node_of_graph_ok [OF that] by (simp add: quad_ok_def)
  have ng: "\<exists>n. node_ok n \<and> encoded_named_graph_name d n = Some g'" if "g' \<in> set (named_graphs ?d)" for g'
  proof (cases "g' \<in> set (named_graphs d)")
    case True
    then show ?thesis using dataset_okD(5) [OF d] by blast
  next
    case False
    with that have "g' = g" "g \<noteq> IDefaultGraph" by (auto simp: kk simp del: insert_encoded.simps)
    with G gok show ?thesis by fastforce
  qed
  show "dataset_ok ?d"
    unfolding dataset_ok_def
  proof (intro conjI ballI allI impI)
    show "term_interner_ok (interner ?d)" using dataset_okD(1) [OF d] by simp
    show "indexes_ok ?d" using dataset_okD(2) [OF d] by (rule indexes_ok_insert)
    show "\<exists>q. quad_ok q \<and> encoded_quad ?d q = Some k'" if "k' \<in> set (spog ?d)" for k'
      using that dataset_okD(3) [OF d, of k'] q k by (auto simp del: split_paired_All)
    show "g' \<in> set (named_graphs ?d)"
      if "(s', p', x', g') \<in> set (spog ?d)" "g' \<noteq> IDefaultGraph" for s' p' x' g'
      using that dataset_okD(4) [OF d] by (auto simp: kk simp del: insert_encoded.simps)
    show "\<exists>n. node_ok n \<and> encoded_named_graph_name ?d n = Some g'" if "g' \<in> set (named_graphs ?d)" for g'
      using ng [OF that] by simp
  qed
  have inj: "r = q" if "encoded_quad d r = Some k" "quad_ok r" for r
    using encoded_quad_inject [OF dataset_okD(1) [OF d]] that q k by blast
  show "quads_of ?d = insert q (quads_of d)"
    unfolding quads_of_def Dataset_contains_iff insert_encoded_simps encoded_cong(1) [OF insert_encoded_simps(1)]
    using q k inj by blast
  show "graphs_of ?d = graphs_of d \<union> set_option (node_of_graph (graph_name q))"
  proof (cases "node_of_graph (graph_name q)")
    case None
    with G have "g = IDefaultGraph" by simp
    with None show ?thesis
      by (simp add: graphs_of_def contains_named_graph_iff kk del: insert_encoded.simps)
  next
    case (Some n)
    with G have g: "encoded_named_graph_name d n = Some g" "g \<noteq> IDefaultGraph" by auto
    have uniq: "m = n" if "encoded_named_graph_name d m = Some g" "node_ok m" for m
      using encoded_named_graph_inject [OF dataset_okD(1) [OF d] that(2) gok [OF Some] that(1) g(1)] .
    have names: "set (named_graphs ?d) = insert g (set (named_graphs d))"
      using g(2) unfolding insert_encoded_simps by (auto simp: kk)
    show ?thesis
      unfolding graphs_of_def contains_named_graph_iff names encoded_cong(2) [OF insert_encoded_simps(1)]
        Some option.set
      using g(1) gok [OF Some] uniq by blast
  qed
  show "fst (insert_encoded k d) \<longleftrightarrow> q \<notin> quads_of d"
    using ospg_spog(1) [OF dataset_okD(2) [OF d]] q k by (simp add: quads_of_def Dataset_contains_iff)
qed

lemma insert_correct:
  assumes d: "dataset_ok d" and q: "quad_ok q" and ins: "Dataset_insert q d = Some (b, d')"
  shows "dataset_ok d' \<and> quads_of d' = insert q (quads_of d) \<and> (b \<longleftrightarrow> q \<notin> quads_of d) \<and>
    graphs_of d' = graphs_of d \<union> set_option (node_of_graph (graph_name q)) \<and>
    grows_to (interner d) (interner d')"
proof -
  obtain k i where run: "encode_quad q (interner d) = Some (k, i)"
    and r: "insert_encoded k (d\<lparr>interner := i\<rparr>) = (b, d')"
    using ins by (auto simp: Dataset_insert_def split: option.splits)
  note I = encodesD [OF encodes_quad [OF q] dataset_okD(1) [OF d] run]
  note E = extend_interner [OF d I(1,2)]
  have "encoded_quad (d\<lparr>interner := i\<rparr>) q = Some k" using I(3) by (simp add: encoded_quad_from)
  note K = insert_encoded_correct [OF E(1) q this]
  from r have "b = fst (insert_encoded k (d\<lparr>interner := i\<rparr>))" "d' = snd (insert_encoded k (d\<lparr>interner := i\<rparr>))"
    by simp_all
  with E K I(2) show ?thesis by (simp del: insert_encoded.simps)
qed

lemma insert_returns:
  assumes d: "dataset_ok d" and S: "distinguishes (hasher (interner d)) S"
    and sub: "stored_strings (interner d) \<subseteq> S" "quad_strings q \<subseteq> S"
  obtains b d' where "Dataset_insert q d = Some (b, d')" and "stored_strings (interner d') \<subseteq> S"
    and "hasher (interner d') = hasher (interner d)"
proof -
  from returns_quad [OF sub(2)] interner_ok_strings [OF dataset_okD(1) [OF d]] S sub(1)
  obtain k i where run: "encode_quad q (interner d) = Some (k, i)" "hasher i = hasher (interner d)"
    "stored_strings i \<subseteq> S" by (rule returnsE)
  then show ?thesis
    using that [of "fst (insert_encoded k (d\<lparr>interner := i\<rparr>))" "snd (insert_encoded k (d\<lparr>interner := i\<rparr>))"]
    by (simp add: Dataset_insert_def del: insert_encoded.simps)
qed

text \<open>Removing keys one after the other.\<close>

definition remove_all :: "quad_key list \<Rightarrow> Dataset \<Rightarrow> Dataset" where
  "remove_all ks d = foldl (\<lambda>d' k. snd (remove_encoded k d')) d ks"

lemma remove_all_simps [simp]:
  "interner (remove_all ks d) = interner d"
  "named_graphs (remove_all ks d) = named_graphs d"
  "set (spog (remove_all ks d)) = set (spog d) - set ks"
  unfolding remove_all_def by (induction ks arbitrary: d) (auto simp del: remove_encoded.simps)

lemma indexes_ok_remove_all: "indexes_ok d \<Longrightarrow> indexes_ok (remove_all ks d)"
  unfolding remove_all_def
  by (induction ks arbitrary: d) (auto simp: indexes_ok_remove simp del: remove_encoded.simps)

lemma remove_keys_correct:
  assumes d: "dataset_ok d" and sub: "interner d' = interner d" "set (spog d') = set (spog d) - K" "indexes_ok d'"
    and ng: "set (named_graphs d') \<subseteq> set (named_graphs d)"
    and graphs: "\<And>s p x g. (s, p, x, g) \<in> set (spog d') \<Longrightarrow> g \<noteq> IDefaultGraph \<Longrightarrow> g \<in> set (named_graphs d')"
  shows "dataset_ok d'"
    and "quads_of d' = {q \<in> quads_of d. \<forall>k \<in> K. encoded_quad d q \<noteq> Some k}"
proof -
  note [simp] = encoded_cong [OF sub(1)]
  have "term_interner_ok (interner d')" using dataset_okD(1) [OF d] sub(1) by simp
  then show "dataset_ok d'"
    using d sub(3) graphs ng unfolding dataset_ok_def sub(2) by auto
  show "quads_of d' = {q \<in> quads_of d. \<forall>k \<in> K. encoded_quad d q \<noteq> Some k}"
    by (auto simp: quads_of_def Dataset_contains_iff sub)
qed

lemma remove_correct:
  assumes d: "dataset_ok d" and q: "quad_ok q"
  shows "dataset_ok (snd (Dataset_remove q d)) \<and> quads_of (snd (Dataset_remove q d)) = quads_of d - {q} \<and>
    (fst (Dataset_remove q d) \<longleftrightarrow> q \<in> quads_of d) \<and> graphs_of (snd (Dataset_remove q d)) = graphs_of d"
proof (cases "encoded_quad d q")
  case None
  with d show ?thesis
    by (auto simp: Dataset_remove_def quads_of_def Dataset_contains_iff)
next
  case (Some k)
  then have rem: "Dataset_remove q d = remove_encoded k d" by (simp add: Dataset_remove_def)
  let ?d = "snd (remove_encoded k d)"
  note R = remove_keys_correct [OF d remove_encoded_simps(1,2) indexes_ok_remove [OF dataset_okD(2) [OF d]]]
  have R': "dataset_ok ?d" "quads_of ?d = {q \<in> quads_of d. \<forall>k \<in> {k}. encoded_quad d q \<noteq> Some k}"
    by (rule R; use dataset_okD(4) [OF d] in \<open>auto simp del: remove_encoded.simps\<close>)+
  have "r = q" if "r \<in> quads_of d" "encoded_quad d r = Some k" for r
    using encoded_quad_inject [OF dataset_okD(1) [OF d] _ q that(2) Some] that(1) by (simp add: quads_of_def)
  then have "quads_of ?d = quads_of d - {q}"
    unfolding R'(2) using Some by blast
  moreover have "fst (remove_encoded k d) \<longleftrightarrow> q \<in> quads_of d"
    using ospg_spog(2) [OF dataset_okD(2) [OF d]] q Some by (simp add: quads_of_def Dataset_contains_iff)
  moreover have "graphs_of ?d = graphs_of d"
    by (simp add: graphs_of_def contains_named_graph_iff encoded_cong(2) [OF remove_encoded_simps(1)]
        del: remove_encoded.simps)
  ultimately show ?thesis using R'(1) by (simp add: rem del: remove_encoded.simps)
qed

section \<open>Range scans\<close>

text \<open>A range over a tuple whose trailing columns are at their least value selects on the head.\<close>

lemma range_head:
  fixes b :: "'b::linorder" and a :: "'a::linorder"
  assumes "\<And>y. b \<le> y"
  shows "(a, b) \<le> k \<and> k < (a', b) \<longleftrightarrow> a \<le> fst k \<and> fst k < a'"
  using assms leD [OF assms] by (cases k) auto

lemma range_tail:
  fixes a :: "'a::linorder" and lo hi :: "'b::linorder"
  shows "(a, lo) \<le> k \<and> k < (a, hi) \<longleftrightarrow> fst k = a \<and> lo \<le> snd k \<and> snd k < hi"
  by (cases k) auto

lemma pair_least: "(\<And>x. a \<le> x) \<Longrightarrow> (\<And>y. b \<le> y) \<Longrightarrow> (a, b) \<le> (k :: 'a::linorder \<times> 'b::linorder)"
  by (cases k) (auto simp: le_less)

lemmas least_simps = pair_least node_first_le named_first_le term_first_le graph_first_le

lemma distinct_range: "bts_wf xs \<Longrightarrow> distinct (bts_range lo hi xs)"
  by (simp add: bts_range_def strict_sorted_iff)

lemma set_range: "set (bts_range lo hi xs) = {k \<in> set xs. lo \<le> k \<and> k < hi}"
  by (auto simp: bts_range_def)

lemma scan_subject:
  assumes "indexes_ok d" and "node_bounded s"
  shows "distinct (interned_quads_for_subject d s)"
    and "set (interned_quads_for_subject d s) = {k \<in> set (spog d). fst k = s}"
  using assms node_next [OF assms(2)]
  by (auto simp: interned_quads_for_subject_def set_range range_head least_simps indexes_ok_def distinct_range)

lemma scan_predicate:
  assumes "indexes_ok d" and "named_bounded p"
  shows "distinct (interned_quads_for_predicate d p)"
    and "set (interned_quads_for_predicate d p) = {k \<in> set (spog d). fst (snd k) = p}"
proof -
  have "set (bts_range (p, x_min, s_min, g_min) (InternedNamedNode_next p, x_min, s_min, g_min) (posg d)) =
      {k \<in> set (posg d). fst k = p}"
    using named_next [OF assms(2)] by (auto simp: set_range range_head least_simps)
  with assms(1) show "set (interned_quads_for_predicate d p) = {k \<in> set (spog d). fst (snd k) = p}"
    unfolding interned_quads_for_predicate_def by (fastforce simp: indexes_ok_def image_iff)
  show "distinct (interned_quads_for_predicate d p)"
    using assms(1) unfolding interned_quads_for_predicate_def
    by (auto simp: distinct_map distinct_range indexes_ok_def inj_on_def)
qed

lemma scan_object:
  assumes "indexes_ok d" and "term_bounded x"
  shows "distinct (interned_quads_for_object d x)"
    and "set (interned_quads_for_object d x) = {k \<in> set (spog d). fst (snd (snd k)) = x}"
proof -
  have "set (bts_range (x, s_min, p_min, g_min) (InternedTerm_next x, s_min, p_min, g_min) (ospg d)) =
      {k \<in> set (ospg d). fst k = x}"
    using term_next [OF assms(2)] by (auto simp: set_range range_head least_simps)
  with assms(1) show "set (interned_quads_for_object d x) = {k \<in> set (spog d). fst (snd (snd k)) = x}"
    unfolding interned_quads_for_object_def by (fastforce simp: indexes_ok_def image_iff)
  show "distinct (interned_quads_for_object d x)"
    using assms(1) unfolding interned_quads_for_object_def
    by (auto simp: distinct_map distinct_range indexes_ok_def inj_on_def)
qed

lemma scan_graph:
  assumes "indexes_ok d" and "graph_bounded g"
  shows "distinct (interned_quads_for_graph_name d g)"
    and "set (interned_quads_for_graph_name d g) = {k \<in> set (spog d). snd (snd (snd k)) = g}"
proof -
  have "set (bts_range (g, s_min, p_min, x_min) (InternedGraphName_next g, s_min, p_min, x_min) (gspo d)) =
      {k \<in> set (gspo d). fst k = g}"
    using graph_next [OF assms(2)] by (auto simp: set_range range_head least_simps)
  with assms(1) show "set (interned_quads_for_graph_name d g) = {k \<in> set (spog d). snd (snd (snd k)) = g}"
    unfolding interned_quads_for_graph_name_def by (fastforce simp: indexes_ok_def image_iff)
  show "distinct (interned_quads_for_graph_name d g)"
    using assms(1) unfolding interned_quads_for_graph_name_def
    by (auto simp: distinct_map distinct_range indexes_ok_def inj_on_def)
qed

lemma Key_next_impossible [simp]: "Key_next Key_impossible = Key_impossible"
  by (simp add: Key_next_def Key_impossible_def)

lemma range_empty [simp]: "bts_range k k xs = []"
  by (induction xs) (auto simp: bts_range_def dest: leD)

lemma scan_impossible [simp]:
  "interned_quads_for_subject d InternedNamedOrBlankNode_impossible = []"
  "interned_quads_for_predicate d InternedNamedNode_impossible = []"
  "interned_quads_for_object d InternedTerm_impossible = []"
  "interned_quads_for_graph_name d InternedGraphName_impossible = []"
  by (simp_all add: interned_quads_for_subject_def interned_quads_for_predicate_def
      interned_quads_for_object_def interned_quads_for_graph_name_def
      InternedNamedOrBlankNode_impossible_def InternedNamedNode_impossible_def
      InternedTerm_impossible_def InternedGraphName_impossible_def)

text \<open>Terms other than the blank node numbered \<open>u128::MAX\<close> have a successor when interned.\<close>

fun blank_plain :: "BlankNode \<Rightarrow> bool" where
  "blank_plain (BNamed _) \<longleftrightarrow> True"
| "blank_plain (BAnonymous n) \<longleftrightarrow> n < u128_max"

fun node_plain :: "NamedOrBlankNode \<Rightarrow> bool" where
  "node_plain (NobNamedNode _) \<longleftrightarrow> True"
| "node_plain (NobBlankNode b) \<longleftrightarrow> blank_plain b"

fun term_plain :: "Term \<Rightarrow> bool" where
  "term_plain (TBlankNode b) \<longleftrightarrow> blank_plain b"
| "term_plain (TTriple (TripleNew s p x)) \<longleftrightarrow> term_plain x"
| "term_plain _ \<longleftrightarrow> True"

fun graph_plain :: "GraphName \<Rightarrow> bool" where
  "graph_plain (GBlankNode b) \<longleftrightarrow> blank_plain b"
| "graph_plain _ \<longleftrightarrow> True"

lemma get_bounded: "strings_ok i \<Longrightarrow> RdfInterner_get i v = Some k \<Longrightarrow> k < u64_max"
  by (auto simp: RdfInterner_get_eq split: if_splits)

lemma named_from_bounded: "strings_ok i \<Longrightarrow> InternedNamedNode_encoded_from i n = Some x \<Longrightarrow> named_bounded x"
  by (auto simp: InternedNamedNode_encoded_from_def dest: get_bounded)

lemma blank_from_bounded:
  "strings_ok i \<Longrightarrow> blank_plain b \<Longrightarrow> InternedBlankNode_encoded_from i b = Some x \<Longrightarrow> blank_bounded x"
  by (cases b) (auto simp: InternedBlankNode_encoded_from_def dest: get_bounded split: if_splits)

lemma literal_from_bounded:
  "strings_ok i \<Longrightarrow> InternedLiteral_encoded_from i l = Some x \<Longrightarrow> literal_bounded x"
  by (cases l) (auto simp: InternedLiteral_encoded_from_def bind_eq_Some_conv
      dest: get_bounded named_from_bounded split: if_splits)

lemma node_from_bounded:
  "strings_ok i \<Longrightarrow> node_plain n \<Longrightarrow> InternedNamedOrBlankNode_encoded_from i n = Some x \<Longrightarrow> node_bounded x"
  by (cases n) (auto dest: named_from_bounded blank_from_bounded)

lemma graph_from_bounded:
  "strings_ok i \<Longrightarrow> graph_plain n \<Longrightarrow> InternedGraphName_encoded_from i n = Some x \<Longrightarrow> graph_bounded x"
  by (cases n) (auto dest: named_from_bounded blank_from_bounded)

lemma term_from_bounded:
  "strings_ok i \<Longrightarrow> term_plain t \<Longrightarrow> InternedTerm_encoded_from i t = Some x \<Longrightarrow> term_bounded x"
  by (induction t arbitrary: x rule: term_ok.induct)
    (auto simp: bind_eq_Some_conv dest: named_from_bounded blank_from_bounded literal_from_bounded
      split: if_splits)

section \<open>Queries\<close>

lemma those_map: "(\<And>k. k \<in> set ks \<Longrightarrow> f k = Some (h k)) \<Longrightarrow> those (map f ks) = Some (map h ks)"
  by (induction ks) auto

lemma decoded_correct:
  assumes d: "dataset_ok d" and ks: "distinct ks" "set ks \<subseteq> set (spog d)"
    and P: "\<And>q k. q \<in> quads_of d \<Longrightarrow> encoded_quad d q = Some k \<Longrightarrow> P q \<longleftrightarrow> k \<in> set ks"
  shows "\<exists>qs. decode_all d ks = Some qs \<and> distinct qs \<and> set qs = {q \<in> quads_of d. P q}"
proof -
  let ?h = "\<lambda>k. the (decode_spog d k)"
  have key: "decode_spog d k = Some (?h k) \<and> ?h k \<in> quads_of d \<and> encoded_quad d (?h k) = Some k"
    if "k \<in> set (spog d)" for k
    using stored_key [OF d that] by (metis option.sel)
  have "decode_all d ks = Some (map ?h ks)"
    unfolding decode_all_def using ks(2) key by (intro those_map) blast
  moreover have "inj_on ?h (set ks)"
    using ks(2) key by (intro inj_onI) (metis option.sel subsetD)
  then have "distinct (map ?h ks)" using ks(1) by (simp add: distinct_map)
  moreover have "?h ` set ks = {q \<in> quads_of d. P q}"
  proof (intro set_eqI iffI)
    fix q assume "q \<in> ?h ` set ks"
    then obtain k where "k \<in> set ks" "q = ?h k" by blast
    with key ks(2) P show "q \<in> {q \<in> quads_of d. P q}" by blast
  next
    fix q assume q: "q \<in> {q \<in> quads_of d. P q}"
    then obtain k where k: "encoded_quad d q = Some k" "decode_spog d k = Some q"
      using quads_of_key [OF d] by blast
    with P [of q k] q show "q \<in> ?h ` set ks" by (intro rev_image_eqI [of k]) auto
  qed
  ultimately show ?thesis by (intro exI [of _ "map ?h ks"]) simp
qed

lemma iter_correct:
  assumes "dataset_ok d"
  shows "\<exists>qs. Dataset_iter d = Some qs \<and> distinct qs \<and> set qs = quads_of d"
  using decoded_correct [OF assms, of "spog d" "\<lambda>_. True"] dataset_okD(2) [OF assms]
  by (auto simp: Dataset_iter_def indexes_ok_def strict_sorted_iff quads_of_def Dataset_contains_iff)

text \<open>
  What a query on one column relies on: the column of a stored key is the interned form of the
  quad's component, distinct components have distinct interned forms, and the scan of an ordering
  yields the keys with a given value in that column.
\<close>

locale column_index =
  fixes component :: "Quad \<Rightarrow> 't"
    and column :: "quad_key \<Rightarrow> 'k"
    and lookup :: "RdfInterner \<Rightarrow> 't \<Rightarrow> 'k option"
    and good plain :: "'t \<Rightarrow> bool"
    and scan :: "Dataset \<Rightarrow> 'k \<Rightarrow> quad_key list"
    and impossible :: 'k
  assumes lookup_component: "encoded_quad d q = Some k \<Longrightarrow> lookup (interner d) (component q) = Some (column k)"
    and component_good: "quad_ok q \<Longrightarrow> good (component q)"
    and lookup_inject: "term_interner_ok i \<Longrightarrow> good t \<Longrightarrow> good u \<Longrightarrow> lookup i t = Some x \<Longrightarrow> lookup i u = Some x \<Longrightarrow> t = u"
    and scan_keys: "indexes_ok d \<Longrightarrow> strings_ok i \<Longrightarrow> plain t \<Longrightarrow> lookup i t = Some x \<Longrightarrow>
      distinct (scan d x) \<and> set (scan d x) = {k \<in> set (spog d). column k = x}"
    and scan_none: "scan d impossible = []"
begin

lemma query_correct:
  assumes d: "dataset_ok d" and t: "good t" "plain t"
  shows "\<exists>qs. decode_all d (scan d (unwrap_or impossible (lookup (interner d) t))) = Some qs \<and> distinct qs \<and>
    set qs = {q \<in> quads_of d. component q = t}"
proof (cases "lookup (interner d) t")
  case None
  have "component q \<noteq> t" if "encoded_quad d q = Some k" for q k
    using lookup_component [OF that] None by auto
  then show ?thesis
    using decoded_correct [OF d, of "[]" "\<lambda>q. component q = t"] None
    by (simp add: unwrap_or_def scan_none)
next
  case (Some x)
  note i = dataset_okD(1) [OF d]
  note S = scan_keys [OF dataset_okD(2) [OF d] interner_ok_strings [OF i] t(2) Some]
  have "component q = t \<longleftrightarrow> k \<in> set (scan d x)" if q: "q \<in> quads_of d" and k: "encoded_quad d q = Some k" for q k
  proof -
    have "k \<in> set (spog d)" and ok: "quad_ok q"
      using q k by (auto simp: quads_of_def Dataset_contains_iff)
    moreover have "component q = t \<longleftrightarrow> column k = x"
      using lookup_component [OF k] lookup_inject [OF i component_good [OF ok] t(1) _ Some] Some by auto
    ultimately show ?thesis using S by simp
  qed
  with decoded_correct [OF d, of "scan d x" "\<lambda>q. component q = t"] S Some show ?thesis
    by (simp add: unwrap_or_def)
qed

end

lemma encoded_components:
  assumes "encoded_quad d q = Some k"
  shows "InternedNamedOrBlankNode_encoded_from (interner d) (subject q) = Some (fst k)"
    and "InternedNamedNode_encoded_from (interner d) (predicate q) = Some (fst (snd k))"
    and "InternedTerm_encoded_from (interner d) (object q) = Some (fst (snd (snd k)))"
    and "InternedGraphName_encoded_from (interner d) (graph_name q) = Some (snd (snd (snd k)))"
  using assms by (cases k; simp add: encoded_quad_from quad_from_SomeD)+

interpretation subject_index: column_index subject fst InternedNamedOrBlankNode_encoded_from
  node_ok node_plain interned_quads_for_subject InternedNamedOrBlankNode_impossible
proof unfold_locales
  fix i t u x
  assume "term_interner_ok i" "node_ok t" "node_ok u"
    "InternedNamedOrBlankNode_encoded_from i t = Some x" "InternedNamedOrBlankNode_encoded_from i u = Some x"
  then show "t = u" by (metis node_decode option.inject)
next
  fix d i t x
  assume that: "indexes_ok d" "strings_ok i" "node_plain t" "InternedNamedOrBlankNode_encoded_from i t = Some x"
  show "distinct (interned_quads_for_subject d x) \<and> set (interned_quads_for_subject d x) = {k \<in> set (spog d). fst k = x}"
    using scan_subject [OF that(1) node_from_bounded [OF that(2-4)]] by blast
qed (simp_all add: quad_ok_def encoded_components)

interpretation predicate_index: column_index predicate "\<lambda>k. fst (snd k)" InternedNamedNode_encoded_from
  "\<lambda>_. True" "\<lambda>_. True" interned_quads_for_predicate InternedNamedNode_impossible
proof unfold_locales
  fix i t u x
  assume "term_interner_ok i"
    "InternedNamedNode_encoded_from i t = Some x" "InternedNamedNode_encoded_from i u = Some x"
  then show "t = u" by (metis named_decode interner_ok_strings option.inject)
next
  fix d i t x
  assume that: "indexes_ok d" "strings_ok i" "InternedNamedNode_encoded_from i t = Some x"
  show "distinct (interned_quads_for_predicate d x) \<and> set (interned_quads_for_predicate d x) = {k \<in> set (spog d). fst (snd k) = x}"
    using scan_predicate [OF that(1) named_from_bounded [OF that(2,3)]] by blast
qed (simp_all add: quad_ok_def encoded_components)

interpretation object_index: column_index object "\<lambda>k. fst (snd (snd k))" InternedTerm_encoded_from
  term_ok term_plain interned_quads_for_object InternedTerm_impossible
proof unfold_locales
  fix i t u x
  assume "term_interner_ok i" "term_ok t" "term_ok u"
    "InternedTerm_encoded_from i t = Some x" "InternedTerm_encoded_from i u = Some x"
  then show "t = u" by (metis term_decode option.inject)
next
  fix d i t x
  assume that: "indexes_ok d" "strings_ok i" "term_plain t" "InternedTerm_encoded_from i t = Some x"
  show "distinct (interned_quads_for_object d x) \<and> set (interned_quads_for_object d x) = {k \<in> set (spog d). fst (snd (snd k)) = x}"
    using scan_object [OF that(1) term_from_bounded [OF that(2-4)]] by blast
qed (simp_all add: quad_ok_def encoded_components)

interpretation graph_index: column_index graph_name "\<lambda>k. snd (snd (snd k))" InternedGraphName_encoded_from
  graph_ok graph_plain interned_quads_for_graph_name InternedGraphName_impossible
proof unfold_locales
  fix i t u x
  assume "term_interner_ok i" "graph_ok t" "graph_ok u"
    "InternedGraphName_encoded_from i t = Some x" "InternedGraphName_encoded_from i u = Some x"
  then show "t = u" by (metis graph_decode option.inject)
next
  fix d i t x
  assume that: "indexes_ok d" "strings_ok i" "graph_plain t" "InternedGraphName_encoded_from i t = Some x"
  show "distinct (interned_quads_for_graph_name d x) \<and> set (interned_quads_for_graph_name d x) = {k \<in> set (spog d). snd (snd (snd k)) = x}"
    using scan_graph [OF that(1) graph_from_bounded [OF that(2-4)]] by blast
qed (simp_all add: quad_ok_def encoded_components)

lemmas query_corrects =
  subject_index.query_correct [folded quads_for_subject_def]
  predicate_index.query_correct [folded quads_for_predicate_def, simplified]
  object_index.query_correct [folded quads_for_object_def]
  graph_index.query_correct [folded quads_for_graph_name_def]

section \<open>Removing graphs\<close>

lemma clear_encoded_graph_eq:
  "clear_encoded_graph g d = remove_all (interned_quads_for_graph_name d g) d"
  by (simp add: clear_encoded_graph_def remove_all_def)

lemma clear_encoded_graph_correct:
  assumes d: "dataset_ok d" and g: "graph_ok g" "graph_plain g"
    and k: "InternedGraphName_encoded_from (interner d) g = Some k"
    and ng: "named_graphs d' = named_graphs d \<or> k \<noteq> IDefaultGraph \<and> named_graphs d' = bts_remove k (named_graphs d)"
    and d': "d' = clear_encoded_graph k (d\<lparr>named_graphs := named_graphs d'\<rparr>)"
  shows "dataset_ok d'" and "quads_of d' = {q \<in> quads_of d. graph_name q \<noteq> g}" and "interner d' = interner d"
proof -
  note i = dataset_okD(1) [OF d]
  let ?K = "interned_quads_for_graph_name (d\<lparr>named_graphs := named_graphs d'\<rparr>) k"
  have "interned_quads_for_graph_name (d\<lparr>named_graphs := named_graphs d'\<rparr>) k = interned_quads_for_graph_name d k"
    by (simp add: interned_quads_for_graph_name_def)
  with scan_graph(2) [OF dataset_okD(2) [OF d] graph_from_bounded [OF interner_ok_strings [OF i] g(2) k]]
  have K: "set ?K = {k' \<in> set (spog d). snd (snd (snd k')) = k}" by simp
  have d'': "d' = remove_all ?K (d\<lparr>named_graphs := named_graphs d'\<rparr>)"
    using d' by (simp add: clear_encoded_graph_eq)
  have "spog (d\<lparr>named_graphs := named_graphs d'\<rparr>) = spog d" by simp
  with d'' have sp: "set (spog d') = set (spog d) - set ?K" by (metis remove_all_simps(3))
  show int: "interner d' = interner d" by (subst d'') simp
  have "indexes_ok (d\<lparr>named_graphs := named_graphs d'\<rparr>)"
    using dataset_okD(2) [OF d] ng by (auto simp: indexes_ok_def bts_wf_remove)
  then have ix: "indexes_ok d'" by (subst d'') (rule indexes_ok_remove_all)
  have sub: "set (named_graphs d') \<subseteq> set (named_graphs d)" using ng by auto
  have named: "g' \<in> set (named_graphs d')"
    if "(s, p, x, g') \<in> set (spog d')" "g' \<noteq> IDefaultGraph" for s p x g'
    using that dataset_okD(4) [OF d, of s p x g'] ng unfolding sp K by auto
  note R = remove_keys_correct [OF d int sp ix sub named]
  show "dataset_ok d'" by (rule R(1))
  have "(\<forall>k' \<in> set ?K. encoded_quad d q \<noteq> Some k') \<longleftrightarrow> graph_name q \<noteq> g" if q: "q \<in> quads_of d" for q
  proof -
    from quads_of_key [OF d q] obtain k' where k': "k' \<in> set (spog d)" "encoded_quad d q = Some k'" "quad_ok q"
      by blast
    have "(\<forall>k' \<in> set ?K. encoded_quad d q \<noteq> Some k') \<longleftrightarrow> snd (snd (snd k')) \<noteq> k"
      unfolding K k'(2) option.inject using k'(1) by blast
    also have "\<dots> \<longleftrightarrow> graph_name q \<noteq> g"
      using graph_index.lookup_component [OF k'(2)] graph_index.component_good [OF k'(3)] k
        graph_index.lookup_inject [OF i _ g(1) _ k, of "graph_name q"] by auto
    finally show ?thesis .
  qed
  then have "{q \<in> quads_of d. \<forall>k' \<in> set ?K. encoded_quad d q \<noteq> Some k'} = {q \<in> quads_of d. graph_name q \<noteq> g}"
    by blast
  with R(2) show "quads_of d' = {q \<in> quads_of d. graph_name q \<noteq> g}" by simp
qed

lemma clear_graph_correct:
  assumes d: "dataset_ok d" and g: "graph_ok g" "graph_plain g"
  shows "dataset_ok (clear_graph g d) \<and> quads_of (clear_graph g d) = {q \<in> quads_of d. graph_name q \<noteq> g} \<and>
    graphs_of (clear_graph g d) = graphs_of d"
proof (cases "InternedGraphName_encoded_from (interner d) g")
  case None
  then have "graph_name q \<noteq> g" if "q \<in> quads_of d" for q
    using quads_of_key [OF d that] graph_index.lookup_component by fastforce
  with None d show ?thesis by (auto simp: clear_graph_def)
next
  case (Some k)
  let ?d = "clear_encoded_graph k d"
  have ng: "named_graphs ?d = named_graphs d" by (simp add: clear_encoded_graph_eq)
  then have "?d = clear_encoded_graph k (d\<lparr>named_graphs := named_graphs ?d\<rparr>)" by simp
  note C = clear_encoded_graph_correct [OF d g Some _ this]
  have "graphs_of ?d = graphs_of d"
    using ng by (simp add: graphs_of_def contains_named_graph_iff encoded_cong(2) [OF C(3)])
  with C ng Some show ?thesis by (simp add: clear_graph_def)
qed

definition graph_of :: "NamedOrBlankNode \<Rightarrow> GraphName" where
  "graph_of n = (case n of NobNamedNode m \<Rightarrow> GNamedNode m | NobBlankNode b \<Rightarrow> GBlankNode b)"

lemma graph_of_simps [simp]:
  "graph_ok (graph_of n) = node_ok n" "graph_plain (graph_of n) = node_plain n"
  "InternedGraphName_encoded_from (interner d) (graph_of n) = encoded_named_graph_name d n"
  by (cases n; simp add: graph_of_def encoded_named_graph_name_def option.map_comp comp_def)+

lemma remove_named_graph_correct:
  assumes d: "dataset_ok d" and n: "node_ok n" "node_plain n"
  shows "dataset_ok (snd (remove_named_graph n d)) \<and>
    quads_of (snd (remove_named_graph n d)) = {q \<in> quads_of d. graph_name q \<noteq> graph_of n} \<and>
    graphs_of (snd (remove_named_graph n d)) = graphs_of d - {n} \<and>
    (fst (remove_named_graph n d) \<longleftrightarrow> n \<in> graphs_of d)"
proof (cases "encoded_named_graph_name d n")
  case None
  then have "graph_name q \<noteq> graph_of n" if "q \<in> quads_of d" for q
    using quads_of_key [OF d that] graph_index.lookup_component [of d q] graph_of_simps(3) [of d n] by fastforce
  with None d show ?thesis
    by (auto simp: remove_named_graph_def graphs_of_def contains_named_graph_iff)
next
  case (Some k)
  let ?d = "clear_encoded_graph k (d\<lparr>named_graphs := bts_remove k (named_graphs d)\<rparr>)"
  have r: "remove_named_graph n d = (k \<in> set (named_graphs d), ?d)"
    by (simp add: remove_named_graph_def Some)
  have ng: "named_graphs ?d = bts_remove k (named_graphs d)" by (simp add: clear_encoded_graph_eq)
  have "k \<noteq> IDefaultGraph" using node_named_graph [OF Some] .
  then have A: "named_graphs ?d = named_graphs d \<or> k \<noteq> IDefaultGraph \<and> named_graphs ?d = bts_remove k (named_graphs d)"
    using ng by simp
  have B: "?d = clear_encoded_graph k (d\<lparr>named_graphs := named_graphs ?d\<rparr>)" by (simp only: ng)
  have G: "graph_ok (graph_of n)" "graph_plain (graph_of n)"
    "InternedGraphName_encoded_from (interner d) (graph_of n) = Some k"
    using n Some by simp_all
  note C = clear_encoded_graph_correct [OF d G A B]
  have uniq: "m = n" if "encoded_named_graph_name d m = Some k" "node_ok m" for m
    using encoded_named_graph_inject [OF dataset_okD(1) [OF d] that(2) n(1) that(1) Some] .
  have "graphs_of ?d = graphs_of d - {n}"
    unfolding graphs_of_def contains_named_graph_iff encoded_cong(2) [OF C(3)] ng set_bts_remove
    using uniq Some by auto
  moreover have "k \<in> set (named_graphs d) \<longleftrightarrow> n \<in> graphs_of d"
    using n Some by (auto simp: graphs_of_def contains_named_graph_iff)
  ultimately show ?thesis unfolding r fst_conv snd_conv using C(1,2) by blast
qed

lemma insert_named_graph_correct:
  assumes d: "dataset_ok d" and n: "node_ok n" and r: "insert_named_graph n d = Some (b, d')"
  shows "dataset_ok d' \<and> quads_of d' = quads_of d \<and> graphs_of d' = insert n (graphs_of d) \<and>
    (b \<longleftrightarrow> n \<notin> graphs_of d)"
proof -
  obtain k i where run: "encode_named_graph_name n (interner d) = Some (k, i)"
    and b: "b \<longleftrightarrow> k \<notin> set (named_graphs d)"
    and d': "d' = d\<lparr>interner := i, named_graphs := bts_insert k (named_graphs d)\<rparr>"
    using r by (auto simp: insert_named_graph_def split: option.splits)
  let ?e = "d\<lparr>interner := i\<rparr>"
  have "encodes (encode_named_graph_name n)
      (\<lambda>i. map_option graph_of_node (InternedNamedOrBlankNode_encoded_from i n))"
    unfolding encode_named_graph_name_def by (intro encodes_map encodes_node n)
  note I = encodesD [OF this dataset_okD(1) [OF d] run]
  note E = extend_interner [OF d I(1,2)]
  have k: "encoded_named_graph_name ?e n = Some k" using I(3) by (simp add: encoded_named_graph_name_def)
  have d2: "d' = ?e\<lparr>named_graphs := bts_insert k (named_graphs ?e)\<rparr>" by (simp add: d')
  have int: "interner d' = interner ?e" by (simp add: d2)
  note cong = encoded_cong [OF int]
  have sp: "spog d' = spog ?e" and ng: "set (named_graphs d') = insert k (set (named_graphs ?e))"
    by (simp_all add: d2)
  have "indexes_ok d'" using dataset_okD(2) [OF E(1)] by (simp add: d2 indexes_ok_def bts_wf_insert)
  then have ok: "dataset_ok d'"
    using E(1) n k int unfolding dataset_ok_def cong sp ng by auto
  have uniq: "m = n" if "encoded_named_graph_name ?e m = Some k" "node_ok m" for m
    using encoded_named_graph_inject [OF dataset_okD(1) [OF E(1)] that(2) n that(1) k] .
  have "quads_of d' = quads_of ?e"
    unfolding quads_of_def Dataset_contains_iff cong sp ..
  moreover have "graphs_of d' = insert n (graphs_of ?e)"
    unfolding graphs_of_def contains_named_graph_iff cong ng using k n uniq by blast
  moreover have "k \<in> set (named_graphs ?e) \<longleftrightarrow> n \<in> graphs_of ?e"
    unfolding graphs_of_def contains_named_graph_iff using k n by auto
  ultimately show ?thesis using ok E b by simp
qed

lemma clear_correct:
  assumes "dataset_ok d"
  shows "dataset_ok (Dataset_clear d)" and "quads_of (Dataset_clear d) = {}" and "graphs_of (Dataset_clear d) = {}"
  using assms by (simp_all add: Dataset_clear_def dataset_ok_def indexes_ok_def quads_of_def
      Dataset_contains_iff graphs_of_def contains_named_graph_iff)

end
