(* ===== verification/Rdf_Dataset_Laws.thy ===== *)
theory Rdf_Dataset_Laws
  imports Rdf_Dataset_Correct
begin

text \<open>
  The dataset through the interface of a set: the locale \<open>element_store\<close> states what its clients
  rely on (insertion, membership, listing, size) and carries the lemmas on bulk insertion and
  comparison. It is interpreted twice, for the quads and for the named graphs of a dataset. The
  properties of the dataset follow.
\<close>

section \<open>Stores of elements\<close>

locale element_store =
  fixes ok :: "'s \<Rightarrow> bool"
    and elems :: "'s \<Rightarrow> 'q set"
    and good :: "'q \<Rightarrow> bool"
    and ins :: "'q \<Rightarrow> 's \<Rightarrow> (bool \<times> 's) option"
    and has :: "'s \<Rightarrow> 'q \<Rightarrow> bool"
    and listing :: "'s \<Rightarrow> 'q list option"
    and size_of :: "'s \<Rightarrow> nat"
  assumes ins_law: "ok s \<Longrightarrow> good q \<Longrightarrow> ins q s = Some (b, s') \<Longrightarrow>
      ok s' \<and> elems s' = insert q (elems s) \<and> (b \<longleftrightarrow> q \<notin> elems s)"
    and has_law: "ok s \<Longrightarrow> good q \<Longrightarrow> has s q \<longleftrightarrow> q \<in> elems s"
    and listing_law: "ok s \<Longrightarrow> \<exists>qs. listing s = Some qs \<and> distinct qs \<and> set qs = elems s \<and> length qs = size_of s"
    and good_elems: "ok s \<Longrightarrow> q \<in> elems s \<Longrightarrow> good q"
begin

lemma insert_all_correct:
  "ok s \<Longrightarrow> (\<And>q. q \<in> set qs \<Longrightarrow> good q) \<Longrightarrow> insert_all ins qs s = Some s' \<Longrightarrow>
    ok s' \<and> elems s' = elems s \<union> set qs"
proof (induction qs arbitrary: s)
  case (Cons q qs)
  then obtain b t where t: "ins q s = Some (b, t)" and s': "insert_all ins qs t = Some s'"
    by (auto split: option.splits)
  note T = ins_law [OF Cons.prems(1) _ t]
  have "good q" and "good r" if "r \<in> set qs" for r using Cons.prems(2) that by auto
  with T Cons.IH [of t] s' show ?case using Cons.prems(2) by auto
qed simp

lemma size_card: "ok s \<Longrightarrow> finite (elems s) \<and> size_of s = card (elems s)"
  using listing_law [of s] by (metis List.finite_set distinct_card)

lemma same_elements:
  assumes "ok s" "ok t" and "size_of s = size_of t" and "listing s = Some qs"
  shows "list_all (has t) qs \<longleftrightarrow> elems s = elems t"
proof -
  have qs: "set qs = elems s" using listing_law [OF assms(1)] assms(4) by auto
  have "list_all (has t) qs \<longleftrightarrow> elems s \<subseteq> elems t"
    using has_law [OF assms(2)] good_elems [OF assms(1)] unfolding list_all_iff qs by blast
  also have "\<dots> \<longleftrightarrow> elems s = elems t"
    using size_card [OF assms(1)] size_card [OF assms(2)] assms(3) card_subset_eq by (metis order_refl)
  finally show ?thesis .
qed

end

lemma those_length: "those xs = Some ys \<Longrightarrow> length ys = length xs"
  by (induction xs arbitrary: ys) (auto split: option.splits)

lemma length_indexes:
  assumes "indexes_ok d"
  shows "length (spog d) = length (gspo d)"
proof -
  have "set (gspo d) = (\<lambda>(s, p, x, g). (g, s, p, x)) ` set (spog d)"
    using assms unfolding indexes_ok_def by (auto simp: image_iff split: prod.splits) blast
  moreover have "inj_on (\<lambda>(s, p, x, g). (g, s, p, x)) (set (spog d))" by (auto simp: inj_on_def)
  ultimately have "card (set (gspo d)) = card (set (spog d))" by (simp add: card_image)
  moreover have "distinct (gspo d)" "distinct (spog d)"
    using assms by (simp_all add: indexes_ok_def strict_sorted_iff)
  ultimately show ?thesis by (simp add: distinct_card)
qed

lemma named_graphs_correct:
  assumes d: "dataset_ok d"
  shows "\<exists>ns. Dataset_named_graphs d = Some ns \<and> distinct ns \<and> set ns = graphs_of d"
proof -
  let ?h = "\<lambda>g. the (decode_named_graph_name d g)"
  have key: "decode_named_graph_name d g = Some (?h g) \<and> node_ok (?h g) \<and> encoded_named_graph_name d (?h g) = Some g"
    if "g \<in> set (named_graphs d)" for g
    using dataset_okD(5) [OF d that] named_graph_decode [OF dataset_okD(1) [OF d]] by fastforce
  have "Dataset_named_graphs d = Some (map ?h (named_graphs d))"
    unfolding Dataset_named_graphs_def using key by (intro those_map) blast
  moreover have "inj_on ?h (set (named_graphs d))"
    using key by (intro inj_onI) (metis option.sel)
  then have "distinct (map ?h (named_graphs d))"
    using dataset_okD(2) [OF d] by (simp add: distinct_map indexes_ok_def strict_sorted_iff)
  moreover have "?h ` set (named_graphs d) = graphs_of d"
  proof (intro set_eqI iffI)
    fix n assume "n \<in> ?h ` set (named_graphs d)"
    then show "n \<in> graphs_of d" using key unfolding graphs_of_def contains_named_graph_iff by blast
  next
    fix n assume "n \<in> graphs_of d"
    then obtain g where g: "node_ok n" "g \<in> set (named_graphs d)" "encoded_named_graph_name d n = Some g"
      unfolding graphs_of_def contains_named_graph_iff by blast
    then have "decode_named_graph_name d g = Some n" using named_graph_decode [OF dataset_okD(1) [OF d]] by blast
    with g show "n \<in> ?h ` set (named_graphs d)" by (intro rev_image_eqI [of g]) auto
  qed
  ultimately show ?thesis by (intro exI [of _ "map ?h (named_graphs d)"]) simp
qed

interpretation quad_store: element_store dataset_ok quads_of quad_ok Dataset_insert Dataset_contains
  Dataset_iter Dataset_len
proof unfold_locales
  fix s q b s'
  assume "dataset_ok s" "quad_ok q" "Dataset_insert q s = Some (b, s')"
  then show "dataset_ok s' \<and> quads_of s' = insert q (quads_of s) \<and> (b \<longleftrightarrow> q \<notin> quads_of s)"
    using insert_correct by blast
next
  fix s
  assume s: "dataset_ok s"
  from iter_correct [OF s] obtain qs where qs: "Dataset_iter s = Some qs" "distinct qs" "set qs = quads_of s" by blast
  moreover have "length qs = Dataset_len s"
    using qs(1) length_indexes [OF dataset_okD(2) [OF s]]
    by (auto simp: Dataset_iter_def decode_all_def Dataset_len_def dest: those_length)
  ultimately show "\<exists>qs. Dataset_iter s = Some qs \<and> distinct qs \<and> set qs = quads_of s \<and> length qs = Dataset_len s"
    by blast
qed (simp_all add: quads_of_def)

interpretation graph_store: element_store dataset_ok graphs_of node_ok insert_named_graph contains_named_graph
  Dataset_named_graphs "\<lambda>d. length (named_graphs d)"
proof unfold_locales
  fix s q b s'
  assume "dataset_ok s" "node_ok q" "insert_named_graph q s = Some (b, s')"
  then show "dataset_ok s' \<and> graphs_of s' = insert q (graphs_of s) \<and> (b \<longleftrightarrow> q \<notin> graphs_of s)"
    using insert_named_graph_correct by blast
next
  fix s
  assume s: "dataset_ok s"
  from named_graphs_correct [OF s] obtain ns where
    ns: "Dataset_named_graphs s = Some ns" "distinct ns" "set ns = graphs_of s" by blast
  moreover have "length ns = length (named_graphs s)"
    using ns(1) by (auto simp: Dataset_named_graphs_def dest: those_length)
  ultimately show "\<exists>ns. Dataset_named_graphs s = Some ns \<and> distinct ns \<and> set ns = graphs_of s \<and>
      length ns = length (named_graphs s)" by blast
qed (simp_all add: graphs_of_def)

section \<open>Comparing and copying\<close>

lemma Dataset_eq_correct:
  assumes d: "dataset_ok d" and e: "dataset_ok e"
  shows "Dataset_eq d e = Some (quads_of d = quads_of e \<and> graphs_of d = graphs_of e)"
proof (cases "Dataset_len d \<noteq> Dataset_len e \<or> length (named_graphs d) \<noteq> length (named_graphs e)")
  case True
  then show ?thesis
    using quad_store.size_card [OF d] quad_store.size_card [OF e] graph_store.size_card [OF d]
      graph_store.size_card [OF e] by (auto simp: Dataset_eq_def)
next
  case False
  obtain qs where qs: "Dataset_iter d = Some qs" using quad_store.listing_law [OF d] by blast
  obtain ns where ns: "Dataset_named_graphs d = Some ns" using graph_store.listing_law [OF d] by blast
  show ?thesis
    using False quad_store.same_elements [OF d e _ qs] graph_store.same_elements [OF d e _ ns]
    by (simp add: Dataset_eq_def qs ns)
qed

lemma bts_insert_last: "bts_wf (xs @ [x]) \<Longrightarrow> bts_insert x xs = xs @ [x]"
  by (induction xs) auto

lemma runs_copy_index:
  assumes "bts_wf xs" and "runs check E (\<lambda>_. True)"
  shows "runs (copy_index check xs) E (\<lambda>ys. ys = xs)"
proof -
  have "runs (for_each (\<lambda>x acc. andthen check (ok (bts_insert x acc))) xs []) E (\<lambda>ys. ys = xs)"
  proof (rule runs_for_each_split [where I = "\<lambda>done rest acc. acc = done"])
    fix "done" x rest and acc :: "'a list"
    assume "xs = done @ x # rest" and acc: "acc = done"
    then have "bts_wf (done @ [x])" using assms(1) by (auto simp: sorted_wrt_append)
    then show "runs (andthen check (ok (bts_insert x acc))) E (\<lambda>acc. acc = done @ [x])"
      by (auto simp: acc bts_insert_last intro!: runs_bind [OF assms(2)])
  qed auto
  then show ?thesis
    unfolding copy_index_def
    by (intro runs_bind [OF assms(2)]) (erule runs_bind, auto intro!: runs_bind [OF assms(2)])
qed

lemma runs_Dataset_try_clone_with:
  assumes d: "dataset_ok d" and c: "runs check E (\<lambda>_. True)"
  shows "runs (Dataset_try_clone_with check d) E (\<lambda>e. e = d)"
proof -
  note I = dataset_okD(2) [OF d, unfolded indexes_ok_def]
  show ?thesis
    unfolding Dataset_try_clone_with_def
    by (intro runs_bind [OF c] runs_bind [OF runs_Interner_try_clone_with [OF dataset_okD(1) [OF d] c]]
        runs_bind [OF runs_copy_index [OF _ c]])
      (use I in \<open>auto simp: runs_def ok_def\<close>)
qed

section \<open>An example dataset\<close>

definition demo_quad :: Quad where
  "demo_quad = \<lparr>subject = NobNamedNode \<lparr>iri = ''s''\<rparr>, predicate = \<lparr>iri = ''pp''\<rparr>,
     object = TNamedNode \<lparr>iri = ''ooo''\<rparr>, graph_name = GNamedNode \<lparr>iri = ''gggg''\<rparr>\<rparr>"

definition demo_dataset :: Dataset where
  "demo_dataset =
     (case Dataset_insert demo_quad (Dataset_new length_hash) of
        Some (_, d) \<Rightarrow> d | None \<Rightarrow> Dataset_new length_hash)"

lemma stored_strings_new [simp]: "stored_strings (interner (Dataset_new h)) = {}"
  by (simp add: stored_strings_def Dataset_new_def RdfInterner_new_def)

lemma hasher_new [simp]: "hasher (interner (Dataset_new h)) = h"
  by (simp add: Dataset_new_def RdfInterner_new_def)

lemma quad_strings_demo: "quad_strings demo_quad = {''s'', ''pp'', ''ooo'', ''gggg''}"
  by (auto simp: quad_strings_def demo_quad_def)

lemma demo_quad_ok [simp]: "quad_ok demo_quad"
  by (simp add: quad_ok_def demo_quad_def)

lemma demo_distinguishes: "distinguishes length_hash (quad_strings demo_quad)"
  unfolding quad_strings_demo by (rule length_hash_distinguishes) (auto simp: u64_max_def)

lemma demo_dataset_ok [simp]: "dataset_ok demo_dataset"
  and quads_of_demo [simp]: "quads_of demo_dataset = {demo_quad}"
proof -
  obtain b d where d: "Dataset_insert demo_quad (Dataset_new length_hash) = Some (b, d)"
    using demo_distinguishes
    by (rule insert_returns [OF dataset_ok_new, of length_hash "quad_strings demo_quad" demo_quad, unfolded hasher_new]) auto
  then have "demo_dataset = d" by (simp add: demo_dataset_def)
  with insert_correct [OF dataset_ok_new demo_quad_ok d]
  show "dataset_ok demo_dataset" "quads_of demo_dataset = {demo_quad}" by simp_all
qed

section \<open>Properties\<close>

text \<open>
  C14. Inserting a quad into a dataset, when the strings involved have distinct hashes, returns, keeps
  the agreement of the six orderings, adds exactly that quad and the graph it is in, and reports
  whether the quad is new; afterwards the quad is found and the length is the number of quads.
\<close>

theorem dataset_insert_refines_set:
  assumes "dataset_ok d" and "quad_ok q"
    and "distinguishes (hasher (interner d)) (stored_strings (interner d) \<union> quad_strings q)"
  shows "\<exists>b d'. Dataset_insert q d = Some (b, d') \<and> dataset_ok d' \<and>
    quads_of d' = insert q (quads_of d) \<and> (b \<longleftrightarrow> q \<notin> quads_of d) \<and>
    graphs_of d' = graphs_of d \<union> set_option (node_of_graph (graph_name q)) \<and>
    Dataset_contains d' q \<and> Dataset_len d' = card (quads_of d')"
proof -
  obtain b d' where d': "Dataset_insert q d = Some (b, d')"
    by (rule insert_returns [OF assms(1,3)]) auto
  note I = insert_correct [OF assms(1,2) d']
  then have "Dataset_contains d' q" by (auto simp: quads_of_def)
  with d' I quad_store.size_card [of d'] show ?thesis by blast
qed

theorem dataset_insert_refines_set_witness:
  "\<exists>b d'. Dataset_insert demo_quad (Dataset_new length_hash) = Some (b, d') \<and> quads_of d' = {demo_quad} \<and> b"
proof -
  have "distinguishes (hasher (interner (Dataset_new length_hash)))
      (stored_strings (interner (Dataset_new length_hash)) \<union> quad_strings demo_quad)"
    using demo_distinguishes by simp
  from dataset_insert_refines_set [OF dataset_ok_new demo_quad_ok this] show ?thesis by auto
qed



text \<open>
  C15. A pattern query returns, each once, exactly the quads of the dataset that have the given
  subject, predicate, object and graph name, whichever of them are given. So the index chosen for
  the scan does not matter. The blank node with the largest number is excluded.
\<close>

theorem quads_for_pattern_is_filter:
  assumes "dataset_ok d" and "list_all node_ok (case s of None \<Rightarrow> [] | Some n \<Rightarrow> [n])"
    and "list_all node_plain (case s of None \<Rightarrow> [] | Some n \<Rightarrow> [n])"
    and "list_all term_ok (case x of None \<Rightarrow> [] | Some t \<Rightarrow> [t])"
    and "list_all term_plain (case x of None \<Rightarrow> [] | Some t \<Rightarrow> [t])"
    and "list_all graph_ok (case g of None \<Rightarrow> [] | Some n \<Rightarrow> [n])"
    and "list_all graph_plain (case g of None \<Rightarrow> [] | Some n \<Rightarrow> [n])"
  shows "\<exists>qs. quads_for_pattern d s p x g = Some qs \<and> distinct qs \<and>
    set qs = {q \<in> quads_of d. opt_is s (subject q) \<and> opt_is p (predicate q) \<and> opt_is x (object q) \<and>
      opt_is g (graph_name q)}"
proof (cases s)
  case (Some n)
  with query_corrects(1) [of d n] assms obtain qs where
    "quads_for_subject d n = Some qs" "distinct qs" "set qs = {q \<in> quads_of d. subject q = n}" by auto
  then show ?thesis by (auto simp: quads_for_pattern_def Some opt_is_def)
next
  case s: None
  show ?thesis
  proof (cases x)
    case (Some t)
    with query_corrects(3) [of d t] assms obtain qs where
      "quads_for_object d t = Some qs" "distinct qs" "set qs = {q \<in> quads_of d. object q = t}" by auto
    then show ?thesis by (auto simp: quads_for_pattern_def s Some opt_is_def)
  next
    case x: None
    show ?thesis
    proof (cases p)
      case (Some n)
      with query_corrects(2) [of d n] assms obtain qs where
        "quads_for_predicate d n = Some qs" "distinct qs" "set qs = {q \<in> quads_of d. predicate q = n}" by auto
      then show ?thesis by (auto simp: quads_for_pattern_def s x Some opt_is_def)
    next
      case p: None
      show ?thesis
      proof (cases g)
        case (Some n)
        with query_corrects(4) [of d n] assms obtain qs where
          "quads_for_graph_name d n = Some qs" "distinct qs" "set qs = {q \<in> quads_of d. graph_name q = n}" by auto
        then show ?thesis by (auto simp: quads_for_pattern_def s x p Some opt_is_def)
      next
        case None
        with iter_correct [OF assms(1)] show ?thesis
          by (auto simp: quads_for_pattern_def s x p opt_is_def)
      qed
    qed
  qed
qed

theorem quads_for_pattern_is_filter_witness:
  "\<exists>qs. quads_for_pattern demo_dataset None None (Some (TNamedNode \<lparr>iri = ''ooo''\<rparr>)) None = Some qs \<and>
     set qs = {demo_quad}"
proof -
  have "{q \<in> quads_of demo_dataset. opt_is (None :: NamedOrBlankNode option) (subject q) \<and>
      opt_is (None :: NamedNode option) (predicate q) \<and>
      opt_is (Some (TNamedNode \<lparr>iri = ''ooo''\<rparr>)) (object q) \<and> opt_is (None :: GraphName option) (graph_name q)} = {demo_quad}"
    by (auto simp: opt_is_def demo_quad_def)
  with quads_for_pattern_is_filter [OF demo_dataset_ok, of None "Some (TNamedNode \<lparr>iri = ''ooo''\<rparr>)" None None]
  show ?thesis by auto
qed

text \<open>
  C34. Two datasets compare as equal exactly when they have the same quads and the same named
  graphs, empty ones included, whatever the order of insertion and the hash functions of the two.
\<close>

theorem dataset_equality:
  assumes "dataset_ok d" and "dataset_ok e"
  shows "Dataset_eq d e = Some (quads_of d = quads_of e \<and> graphs_of d = graphs_of e)"
  using assms by (rule Dataset_eq_correct)

theorem dataset_equality_witness: "Dataset_eq demo_dataset (Dataset_new length_hash) = Some False"
  using dataset_equality [OF demo_dataset_ok dataset_ok_new, of length_hash] by simp

text \<open>
  C35. A controlled copy of a dataset ends with an error of the caller's check, or with a dataset
  that is the source itself: interner, identifiers, orderings and empty named graphs.
\<close>

theorem try_clone_with_copies:
  assumes "dataset_ok d"
  shows "case Dataset_try_clone_with check d s of
      Inl e \<Rightarrow> \<exists>s'. check s' = Inl e
    | Inr (d', s') \<Rightarrow> d' = d"
proof -
  have "runs check (\<lambda>e. \<exists>s'. check s' = Inl e) (\<lambda>_. True)" by (auto simp: runs_def)
  from runs_Dataset_try_clone_with [OF assms this] show ?thesis
    unfolding runs_def by (auto split: sum.splits)
qed

theorem try_clone_with_copies_witness:
  "case Dataset_try_clone_with (ok () :: (nat, string, unit) fallible) demo_dataset 0 of
     Inl e \<Rightarrow> False | Inr (d', s') \<Rightarrow> d' = demo_dataset"
  using try_clone_with_copies [OF demo_dataset_ok, of "ok () :: (nat, string, unit) fallible" 0]
  by (auto simp: ok_def split: sum.splits)

definition largest_blank_quad :: Quad where
  "largest_blank_quad = \<lparr>subject = NobBlankNode (BlankNode_new_from_unique_id u128_max),
     predicate = \<lparr>iri = ''p''\<rparr>, object = TNamedNode \<lparr>iri = ''p''\<rparr>, graph_name = GDefaultGraph\<rparr>"

lemma scan_largest: "interned_quads_for_subject d (INobBlankNode (INumber u128_max)) = []"
  by (simp add: interned_quads_for_subject_def)

text \<open>
  C38. The blank node numbered \<open>u128::MAX\<close> is lost by the range queries: its successor saturates to
  itself, so a query for the quads with that subject returns nothing in every dataset, also in one
  that contains such a quad.
\<close>

theorem largest_blank_node_lost:
  "(\<forall>d. quads_for_subject d (NobBlankNode (BlankNode_new_from_unique_id u128_max)) = Some []) \<and>
   (\<exists>d. dataset_ok d \<and> largest_blank_quad \<in> quads_of d)"
proof
  show "\<forall>d. quads_for_subject d (NobBlankNode (BlankNode_new_from_unique_id u128_max)) = Some []"
    by (auto simp: quads_for_subject_def unwrap_or_def InternedBlankNode_encoded_from_def
        BlankNode_new_from_unique_id_def scan_largest decode_all_def)
  have ok: "quad_ok largest_blank_quad"
    by (simp add: quad_ok_def largest_blank_quad_def BlankNode_new_from_unique_id_def u128_max_def)
  have "distinguishes length_hash {''p''}" by (simp add: distinguishes_def)
  moreover have "quad_strings largest_blank_quad \<subseteq> {''p''}"
    by (simp add: quad_strings_def largest_blank_quad_def BlankNode_new_from_unique_id_def)
  ultimately obtain b d where "Dataset_insert largest_blank_quad (Dataset_new length_hash) = Some (b, d)"
    by (metis insert_returns dataset_ok_new hasher_new stored_strings_new empty_subsetI)
  from insert_correct [OF dataset_ok_new ok this]
  show "\<exists>d. dataset_ok d \<and> largest_blank_quad \<in> quads_of d" by blast
qed

definition zero_blank_quad :: "BlankNode \<Rightarrow> Quad" where
  "zero_blank_quad b = \<lparr>subject = NobBlankNode b,
     predicate = \<lparr>iri = ''p''\<rparr>, object = TNamedNode \<lparr>iri = ''p''\<rparr>, graph_name = GDefaultGraph\<rparr>"

lemma show_hex_0: "show_hex 0 = ''0''"
  by (simp add: show_hex_def show_base.simps)

lemma zero_label_None: "BlankNode_new_unchecked ''0'' = BNamed ''0''"
  by (simp add: BlankNode_new_unchecked_def to_integer_id_def)

text \<open>
  C39. The blank node made from the unique identifier 0 does not survive a dataset: a quad with that
  subject, inserted into a new dataset, is iterated as a quad whose subject is the blank node labelled
  \<open>0\<close>, which is a different node, and which the dataset says it does not contain.
\<close>

theorem zero_blank_node_changes:
  "case Dataset_insert (zero_blank_quad (BlankNode_new_from_unique_id 0)) (Dataset_new h) of
     None \<Rightarrow> False
   | Some (b, d) \<Rightarrow> b \<and> Dataset_contains d (zero_blank_quad (BlankNode_new_from_unique_id 0)) \<and>
       Dataset_iter d = Some [zero_blank_quad (BlankNode_new_unchecked ''0'')] \<and>
       \<not> Dataset_contains d (zero_blank_quad (BlankNode_new_unchecked ''0'')) \<and>
       BlankNode_new_unchecked ''0'' \<noteq> BlankNode_new_from_unique_id 0"
proof -
  define hp where "hp = RdfInterner_hash (RdfInterner_new h) ''p''"
  let ?i = "\<lparr>hasher = h, string_for_hash = [(hp, ''p'')], string_for_blank_node_id = [(0, ''0'')], triples = []\<rparr>"
  have hash: "RdfInterner_hash \<lparr>hasher = h, string_for_hash = a, string_for_blank_node_id = b, triples = c\<rparr> ''p'' = hp" for a b c
    by (simp add: hp_def RdfInterner_hash_def RdfInterner_new_def)
  have run: "encode_quad (zero_blank_quad (BlankNode_new_from_unique_id 0)) (RdfInterner_new h) =
      Some ((INobBlankNode (INumber 0), InternedNamedNode hp, ITNamedNode (InternedNamedNode hp), IDefaultGraph), ?i)"
    by (simp add: encode_quad_def zero_blank_quad_def ibind_def ireturn_def iupdate_def RdfInterner_new_def
        InternedBlankNode_encoded_into_def BlankNode_new_from_unique_id_def note_blank_node_def show_hex_0
        InternedNamedNode_encoded_into_def get_or_intern_cases hash)
  have p: "RdfInterner_get ?i ''p'' = Some hp" by (simp add: RdfInterner_get_def hash)
  have z: "RdfInterner_get ?i ''0'' = None" by (simp add: RdfInterner_get_def u64_max_def)
  have "interner (Dataset_new h) = RdfInterner_new h" by (simp add: Dataset_new_def)
  with run have ins: "Dataset_insert (zero_blank_quad (BlankNode_new_from_unique_id 0)) (Dataset_new h) =
      Some (insert_encoded (INobBlankNode (INumber 0), InternedNamedNode hp, ITNamedNode (InternedNamedNode hp), IDefaultGraph)
        (Dataset_new h\<lparr>interner := ?i\<rparr>))"
    by (simp add: Dataset_insert_def)
  show ?thesis
    unfolding ins
    by (simp add: Dataset_new_def zero_label_None Dataset_contains_def encoded_quad_def
        zero_blank_quad_def Dataset_iter_def decode_all_def InternedBlankNode_encoded_from_def
        BlankNode_new_from_unique_id_def InternedNamedNode_encoded_from_def p z
        InternedNamedNode_decode_from_def RdfInterner_resolve_def NamedNode_new_unchecked_def)
qed

end
