(* ===== verification/Datalog_Rdf.thy ===== *)
theory Datalog_Rdf
  imports Datalog_Models Rdf_Dataset_Laws
begin

text \<open>
  Datalog over RDF datasets (\<open>oxdatalog/src/rdf.rs\<close>): the conversion between quads and facts, the
  compilation of a program with fixed predicates to one relation per predicate, and the closure of
  a dataset. SHA-256 is the field \<open>sha256_hex\<close> of the configuration; nothing is assumed of it.
\<close>

section \<open>Quads as facts\<close>

definition QUAD_RELATION_IRI :: string where
  "QUAD_RELATION_IRI = ''urn:oxigraph:relation:rdf-quad''"

definition D0_PROFILE :: string where
  "D0_PROFILE = ''datalog-d0''"

definition D1_PROFILE :: string where
  "D1_PROFILE = ''datalog-d1''"

definition D2_PROFILE :: string where
  "D2_PROFILE = ''datalog-d2''"

definition quad_relation :: RelationId where
  "quad_relation = QUAD_RELATION_IRI"

definition quad_atom :: "PatternTerm \<Rightarrow> PatternTerm \<Rightarrow> PatternTerm \<Rightarrow> PatternTerm \<Rightarrow> Atom" where
  "quad_atom s p x g = Atom_new quad_relation [s, p, x, g]"

fun graph_value :: "GraphName \<Rightarrow> Value" where
  "graph_value (GNamedNode n) = VTerm (TNamedNode n)"
| "graph_value (GBlankNode b) = VTerm (TBlankNode b)"
| "graph_value GDefaultGraph = VDefaultGraph"

definition fact_from_quad :: "Quad \<Rightarrow> Fact" where
  "fact_from_quad q = Fact_new quad_relation
     [VTerm (term_of_node (subject q)), VTerm (TNamedNode (predicate q)), VTerm (object q),
      graph_value (graph_name q)]"

datatype RdfAdapterError =
    AdapterRelation RelationId
  | AdapterArity nat
  | AdapterSubject
  | AdapterPredicate
  | AdapterObject
  | AdapterGraphName
  | PredicateRelationCollision RelationId NamedNode NamedNode
  | ReservedPredicateRelation RelationId

fun subject_of_value :: "Value \<Rightarrow> NamedOrBlankNode option" where
  "subject_of_value (VTerm (TNamedNode n)) = Some (NobNamedNode n)"
| "subject_of_value (VTerm (TBlankNode b)) = Some (NobBlankNode b)"
| "subject_of_value _ = None"

fun predicate_of_value :: "Value \<Rightarrow> NamedNode option" where
  "predicate_of_value (VTerm (TNamedNode n)) = Some n"
| "predicate_of_value _ = None"

fun graph_of_value :: "Value \<Rightarrow> GraphName option" where
  "graph_of_value VDefaultGraph = Some GDefaultGraph"
| "graph_of_value (VTerm (TNamedNode n)) = Some (GNamedNode n)"
| "graph_of_value (VTerm (TBlankNode b)) = Some (GBlankNode b)"
| "graph_of_value (VTerm _) = None"

definition quad_from_fact :: "Fact \<Rightarrow> RdfAdapterError + Quad" where
  "quad_from_fact f =
     (if fact_relation f \<noteq> QUAD_RELATION_IRI then Inl (AdapterRelation (fact_relation f))
      else case fact_values f of
        [s, p, x, g] \<Rightarrow>
          (case subject_of_value s of None \<Rightarrow> Inl AdapterSubject | Some s' \<Rightarrow>
          (case predicate_of_value p of None \<Rightarrow> Inl AdapterPredicate | Some p' \<Rightarrow>
          (case x of VDefaultGraph \<Rightarrow> Inl AdapterObject | VTerm x' \<Rightarrow>
          (case graph_of_value g of None \<Rightarrow> Inl AdapterGraphName | Some g' \<Rightarrow>
            Inr \<lparr>subject = s', predicate = p', object = x', graph_name = g'\<rparr>))))
      | _ \<Rightarrow> Inl (AdapterArity (Fact_arity f)))"

section \<open>Compilation\<close>

text \<open>
  The errors of \<open>evaluate\<close>; \<open>Stuck\<close> stands for an insertion into a dataset that does not return
  and for a panic while iterating over one.
\<close>

datatype RdfEvaluationError = Evaluation failure | Adapter RdfAdapterError | Stuck

type_synonym predicate_map = "(RelationId, NamedNode) btree_map"

record PreparedRdfProgram =
  prep_program :: Program
  prep_predicates :: predicate_map
  prep_specialized :: bool

fun has_fixed_rdf_predicate :: "Atom \<Rightarrow> bool" where
  "has_fixed_rdf_predicate a =
     (if relation a \<noteq> QUAD_RELATION_IRI then True
      else case terms a of
        [_, PConstant (VTerm (TNamedNode _)), _, _] \<Rightarrow> True
      | _ \<Rightarrow> False)"

definition predicate_relation :: "Config \<Rightarrow> NamedNode \<Rightarrow> RelationId" where
  "predicate_relation cfg p = ''urn:oxigraph:relation:rdf-predicate:'' @ sha256_hex cfg (iri p)"

definition register_predicate :: "RelationId \<Rightarrow> NamedNode \<Rightarrow> (predicate_map, RdfAdapterError, unit) fallible" where
  "register_predicate r p = (\<lambda>predicates.
     case map_of predicates r of
       None \<Rightarrow> Inr ((), btm_insert r p predicates)
     | Some q \<Rightarrow> if q = p then Inr ((), predicates) else Inl (PredicateRelationCollision r q p))"

definition compile_atom :: "Config \<Rightarrow> Atom \<Rightarrow> (predicate_map, RdfAdapterError, Atom) fallible" where
  "compile_atom cfg a =
     (if relation a \<noteq> QUAD_RELATION_IRI then ok a
      else case terms a of
        [s, PConstant (VTerm (TNamedNode p)), x, g] \<Rightarrow>
          (let r = predicate_relation cfg p in
           andthen (register_predicate r p) (ok (Atom_new r [s, x, g])))
      | _ \<Rightarrow> ok a)"

text \<open>\<open>iter().map(f).collect::<Result<Vec<_>, _>>()\<close>.\<close>

fun traverse :: "('x \<Rightarrow> ('s, 'e, 'a) fallible) \<Rightarrow> 'x list \<Rightarrow> ('s, 'e, 'a list) fallible" where
  "traverse f [] = ok []"
| "traverse f (x # xs) = bind (f x) (\<lambda>y. bind (traverse f xs) (\<lambda>ys. ok (y # ys)))"

definition compile_rule :: "Config \<Rightarrow> Rule \<Rightarrow> (predicate_map, RdfAdapterError, Rule) fallible" where
  "compile_rule cfg r =
     bind (compile_atom cfg (head r)) (\<lambda>h.
     bind (traverse (compile_atom cfg) (positive_body r)) (\<lambda>pos.
     bind (traverse (compile_atom cfg) (negative_body r)) (\<lambda>neg.
       let compiled = Rule_new_stratified (rule_id r) h pos neg;
           compiled = (case rule_source r of Some s \<Rightarrow> Rule_with_source compiled s | None \<Rightarrow> compiled);
           compiled = (if run_once r then Rule_run_once compiled else compiled)
       in ok compiled)))"

definition user_relations :: "Program \<Rightarrow> RelationId list" where
  "user_relations program = filter (\<lambda>r. r \<noteq> QUAD_RELATION_IRI) (map relation (concat (map rule_atoms (rules program))))"

definition register_base :: "Config \<Rightarrow> Quad list \<Rightarrow> (predicate_map, RdfAdapterError, unit) fallible" where
  "register_base cfg quads =
     for_each (\<lambda>q _. register_predicate (predicate_relation cfg (predicate q)) (predicate q)) quads ()"

definition PreparedRdfProgram_new :: "Config \<Rightarrow> Program \<Rightarrow> Dataset \<Rightarrow> RdfEvaluationError + PreparedRdfProgram" where
  "PreparedRdfProgram_new cfg program base =
     (let specialized = (rules program \<noteq> [] \<and>
            list_all (\<lambda>r. list_all has_fixed_rdf_predicate (rule_atoms r)) (rules program))
      in if \<not> specialized
         then Inr \<lparr>prep_program = program, prep_predicates = [], prep_specialized = specialized\<rparr>
         else
           (case traverse (compile_rule cfg) (rules program) [] of
              Inl e \<Rightarrow> Inl (Adapter e)
            | Inr (rs, predicates) \<Rightarrow>
           (case Dataset_iter base of
              None \<Rightarrow> Inl Stuck
            | Some quads \<Rightarrow>
           (case register_base cfg quads predicates of
              Inl e \<Rightarrow> Inl (Adapter e)
            | Inr (_, predicates) \<Rightarrow>
           (case List.find (\<lambda>r. r \<in> set (user_relations program)) (map fst predicates) of
              Some r \<Rightarrow> Inl (Adapter (ReservedPredicateRelation r))
            | None \<Rightarrow> Inr \<lparr>prep_program = Program_new rs, prep_predicates = predicates,
                prep_specialized = specialized\<rparr>)))))"

definition prep_fact_from_quad :: "Config \<Rightarrow> PreparedRdfProgram \<Rightarrow> Quad \<Rightarrow> Fact" where
  "prep_fact_from_quad cfg prep q =
     (if \<not> prep_specialized prep then fact_from_quad q
      else Fact_new (predicate_relation cfg (predicate q))
        [VTerm (term_of_node (subject q)), VTerm (object q), graph_value (graph_name q)])"

definition prep_quad_from_fact :: "PreparedRdfProgram \<Rightarrow> Fact \<Rightarrow> RdfAdapterError + Quad option" where
  "prep_quad_from_fact prep f =
     (if \<not> prep_specialized prep
      then if fact_relation f = QUAD_RELATION_IRI then map_sum id Some (quad_from_fact f) else Inr None
      else
        (case map_of (prep_predicates prep) (fact_relation f) of
           None \<Rightarrow> Inr None
         | Some p \<Rightarrow>
             (case fact_values f of
                [s, x, g] \<Rightarrow> map_sum id Some (quad_from_fact (Fact_new quad_relation [s, VTerm (TNamedNode p), x, g]))
              | _ \<Rightarrow> Inl (AdapterArity (Fact_arity f)))))"

section \<open>The closure\<close>

definition program_profile :: "Program \<Rightarrow> string" where
  "program_profile program =
     (if list_ex run_once (rules program) then D2_PROFILE
      else if list_ex (\<lambda>r. \<not> Rule_is_positive r) (rules program) then D1_PROFILE
      else D0_PROFILE)"

record RdfClosure =
  closure_profile :: string
  closure_base :: Dataset
  closure_inference :: Dataset
  closure_entailed :: Dataset
  closure_evaluation :: EvaluationResult

fun collect_inference :: "PreparedRdfProgram \<Rightarrow> Fact list \<Rightarrow> Dataset \<Rightarrow> RdfEvaluationError + Dataset" where
  "collect_inference prep [] d = Inr d"
| "collect_inference prep (f # fs) d =
     (case prep_quad_from_fact prep f of
        Inl e \<Rightarrow> Inl (Adapter e)
      | Inr None \<Rightarrow> collect_inference prep fs d
      | Inr (Some q) \<Rightarrow>
          (case Dataset_insert q d of
             None \<Rightarrow> Inl Stuck
           | Some (_, d') \<Rightarrow> collect_inference prep fs d'))"

text \<open>
  The code hands the iterator over the base to the engine; here the list it yields. \<open>h\<close> is the
  hasher the new inference dataset draws.
\<close>

definition rdf_evaluate ::
  "Config \<Rightarrow> (string \<Rightarrow> 64 word) \<Rightarrow> Program \<Rightarrow> Dataset \<Rightarrow> RdfEvaluationError + RdfClosure" where
  "rdf_evaluate cfg h program base =
     (case PreparedRdfProgram_new cfg program base of Inl e \<Rightarrow> Inl e | Inr prep \<Rightarrow>
     (case Dataset_iter base of None \<Rightarrow> Inl Stuck | Some quads \<Rightarrow>
     (case evaluate cfg ValidationLimits_default (prep_program prep) (map (prep_fact_from_quad cfg prep) quads) of
        Inl e \<Rightarrow> Inl (Evaluation e)
      | Inr evaluation \<Rightarrow>
     (case collect_inference prep (result_derived evaluation) (Dataset_new h) of Inl e \<Rightarrow> Inl e | Inr inference \<Rightarrow>
     (case Dataset_iter inference of None \<Rightarrow> Inl Stuck | Some inferred \<Rightarrow>
     (case Dataset_extend inferred base of None \<Rightarrow> Inl Stuck | Some entailed \<Rightarrow>
        Inr \<lparr>closure_profile = program_profile program, closure_base = base,
          closure_inference = inference, closure_entailed = entailed, closure_evaluation = evaluation\<rparr>))))))"

section \<open>Reports\<close>

definition newline :: string where
  "newline = [CHR 0x0A]"

text \<open>\<open>lines.join(sep)\<close>.\<close>

fun join :: "string \<Rightarrow> string list \<Rightarrow> string" where
  "join sep [] = []"
| "join sep [x] = x"
| "join sep (x # y # xs) = x @ sep @ join sep (y # xs)"

definition canonical_inference_nquads :: "RdfClosure \<Rightarrow> string option" where
  "canonical_inference_nquads c =
     map_option (\<lambda>qs. let lines = sort (map Quad_fmt qs)
        in if lines = [] then [] else join newline lines @ newline) (Dataset_iter (closure_inference c))"

record RdfReceipt =
  receipt_profile :: string
  receipt_base_quads :: nat
  receipt_derived_quads :: nat
  receipt_iterations :: nat
  receipt_memory :: nat
  receipt_nquads :: string

definition RdfClosure_receipt :: "RdfClosure \<Rightarrow> RdfReceipt option" where
  "RdfClosure_receipt c =
     Option.bind (Dataset_iter (closure_base c)) (\<lambda>base.
     Option.bind (Dataset_iter (closure_inference c)) (\<lambda>inference.
     Option.bind (canonical_inference_nquads c) (\<lambda>nquads.
       Some \<lparr>receipt_profile = closure_profile c, receipt_base_quads = length base,
         receipt_derived_quads = length inference,
         receipt_iterations = result_iterations (closure_evaluation c),
         receipt_memory = result_peak (closure_evaluation c), receipt_nquads = nquads\<rparr>)))"

definition canonical_text :: "RdfReceipt \<Rightarrow> string" where
  "canonical_text r =
     ''profile='' @ receipt_profile r @ newline @
     ''base-quads='' @ show_nat (receipt_base_quads r) @ newline @
     ''derived-quads='' @ show_nat (receipt_derived_quads r) @ newline @
     ''iterations='' @ show_nat (receipt_iterations r) @ newline @
     ''estimated-memory-bytes='' @ show_nat (receipt_memory r) @ newline @
     ''---'' @ newline @ receipt_nquads r"

end
