(* ===== verification/Datalog_Rdf_Correct.thy ===== *)
theory Datalog_Rdf_Correct
  imports Datalog_Rdf
begin

text \<open>
  Correctness of the RDF adapter: quads and facts correspond one to one, the compiled program has
  the quads of the original one, and the closure is the base together with the inferred quads.
\<close>

section \<open>Quads and facts\<close>

lemma subject_of_value_Some: "subject_of_value v = Some n \<longleftrightarrow> v = VTerm (term_of_node n)"
  by (cases v rule: subject_of_value.cases; cases n) auto

lemma predicate_of_value_Some: "predicate_of_value v = Some p \<longleftrightarrow> v = VTerm (TNamedNode p)"
  by (cases v rule: predicate_of_value.cases) auto

lemma graph_of_value_Some: "graph_of_value v = Some g \<longleftrightarrow> v = graph_value g"
  by (cases v rule: graph_of_value.cases; cases g) auto

lemma term_of_node_inject: "term_of_node n = term_of_node m \<longleftrightarrow> n = m"
  by (cases n; cases m) auto

lemma graph_value_inject: "graph_value g = graph_value g' \<longleftrightarrow> g = g'"
  by (cases g; cases g') auto

lemma quad_from_fact_iff: "quad_from_fact f = Inr q \<longleftrightarrow> f = fact_from_quad q"
proof
  assume "quad_from_fact f = Inr q"
  then show "f = fact_from_quad q"
    by (cases f) (auto simp: quad_from_fact_def fact_from_quad_def Fact_new_def quad_relation_def
        subject_of_value_Some predicate_of_value_Some graph_of_value_Some
        split: if_splits list.splits option.splits Value.splits)
next
  have "subject_of_value (VTerm (term_of_node n)) = Some n" "graph_of_value (graph_value g) = Some g" for n g
    by (simp_all add: subject_of_value_Some graph_of_value_Some)
  then show "f = fact_from_quad q \<Longrightarrow> quad_from_fact f = Inr q"
    by (simp add: quad_from_fact_def fact_from_quad_def Fact_new_def quad_relation_def)
qed

section \<open>Registered predicates\<close>

definition predicates_ok :: "Config \<Rightarrow> predicate_map \<Rightarrow> bool" where
  "predicates_ok cfg ps \<longleftrightarrow> btm_wf ps \<and> (\<forall>r p. map_of ps r = Some p \<longrightarrow> r = predicate_relation cfg p)"

definition registered :: "Config \<Rightarrow> predicate_map \<Rightarrow> NamedNode \<Rightarrow> bool" where
  "registered cfg ps p \<longleftrightarrow> map_of ps (predicate_relation cfg p) = Some p"

fun specialize_atom :: "Config \<Rightarrow> Atom \<Rightarrow> Atom" where
  "specialize_atom cfg a =
     (if relation a \<noteq> QUAD_RELATION_IRI then a
      else case terms a of
        [s, PConstant (VTerm (TNamedNode p)), x, g] \<Rightarrow> Atom_new (predicate_relation cfg p) [s, x, g]
      | _ \<Rightarrow> a)"

definition atom_predicates :: "Atom \<Rightarrow> NamedNode set" where
  "atom_predicates a = {p. relation a = QUAD_RELATION_IRI \<and>
     (\<exists>s x g. terms a = [s, PConstant (VTerm (TNamedNode p)), x, g])}"

text \<open>
  \<open>compiles cfg m y A\<close>: when \<open>m\<close> succeeds it returns \<open>y\<close>, keeps the predicate map sound, loses no
  entry and has registered the predicates \<open>A\<close>.
\<close>

definition compiles :: "Config \<Rightarrow> (predicate_map, RdfAdapterError, 'a) fallible \<Rightarrow> 'a \<Rightarrow> NamedNode set \<Rightarrow> bool" where
  "compiles cfg m y A \<longleftrightarrow> (\<forall>ps y' ps'. predicates_ok cfg ps \<longrightarrow> m ps = Inr (y', ps') \<longrightarrow>
     y' = y \<and> predicates_ok cfg ps' \<and> map_of ps \<subseteq>\<^sub>m map_of ps' \<and> (\<forall>p\<in>A. registered cfg ps' p))"

lemma compilesD:
  assumes "compiles cfg m y A" and "predicates_ok cfg ps" and "m ps = Inr (y', ps')"
  shows "y' = y" and "predicates_ok cfg ps'" and "map_of ps \<subseteq>\<^sub>m map_of ps'" and "p \<in> A \<Longrightarrow> registered cfg ps' p"
  using assms unfolding compiles_def by blast+

lemma registered_mono: "registered cfg ps p \<Longrightarrow> map_of ps \<subseteq>\<^sub>m map_of ps' \<Longrightarrow> registered cfg ps' p"
  unfolding registered_def map_le_def by (metis domI)

lemma compiles_ok: "compiles cfg (ok y) y {}"
  by (simp add: compiles_def ok_def)

lemma compiles_bind:
  assumes m: "compiles cfg m x A" and n: "compiles cfg (n x) y B"
  shows "compiles cfg (bind m n) y (A \<union> B)"
  unfolding compiles_def
proof (intro allI impI)
  fix ps y' ps'
  assume ps: "predicates_ok cfg ps" and run: "bind m n ps = Inr (y', ps')"
  then obtain x' ps1 where m1: "m ps = Inr (x', ps1)" and n1: "n x' ps1 = Inr (y', ps')"
    by (auto simp: bind_def split: sum.splits)
  note M = compilesD [OF m ps m1]
  have n2: "n x ps1 = Inr (y', ps')" using n1 M(1) by simp
  note N = compilesD [OF n M(2) n2]
  show "y' = y \<and> predicates_ok cfg ps' \<and> map_of ps \<subseteq>\<^sub>m map_of ps' \<and> (\<forall>p\<in>A \<union> B. registered cfg ps' p)"
    using N(1,2) map_le_trans [OF M(3) N(3)] registered_mono [OF M(4) N(3)] N(4) by blast
qed

lemma predicates_ok_insert:
  assumes "predicates_ok cfg ps"
  shows "predicates_ok cfg (btm_insert (predicate_relation cfg p) p ps)"
  unfolding predicates_ok_def
proof (intro conjI allI impI)
  show "btm_wf (btm_insert (predicate_relation cfg p) p ps)"
    using assms unfolding predicates_ok_def by (blast intro: btm_wf_insert)
  fix r q
  assume "map_of (btm_insert (predicate_relation cfg p) p ps) r = Some q"
  then have "r = predicate_relation cfg p \<and> q = p \<or> map_of ps r = Some q"
    by (simp split: if_splits)
  then show "r = predicate_relation cfg q" using assms unfolding predicates_ok_def by blast
qed

lemma compiles_register: "compiles cfg (register_predicate (predicate_relation cfg p) p) () {p}"
  unfolding compiles_def
proof (intro allI impI)
  fix ps y ps'
  assume ok: "predicates_ok cfg ps" and run: "register_predicate (predicate_relation cfg p) p ps = Inr (y, ps')"
  show "y = () \<and> predicates_ok cfg ps' \<and> map_of ps \<subseteq>\<^sub>m map_of ps' \<and> (\<forall>q\<in>{p}. registered cfg ps' q)"
  proof (cases "map_of ps (predicate_relation cfg p)")
    case None
    with run have "ps' = btm_insert (predicate_relation cfg p) p ps" by (simp add: register_predicate_def)
    with None predicates_ok_insert [OF ok] show ?thesis by (auto simp: registered_def map_le_def)
  next
    case (Some q)
    with run have "q = p \<and> ps' = ps" by (simp add: register_predicate_def split: if_splits)
    with Some ok show ?thesis by (simp add: registered_def)
  qed
qed

lemma compiles_atom: "compiles cfg (compile_atom cfg a) (specialize_atom cfg a) (atom_predicates a)"
proof (cases "relation a = QUAD_RELATION_IRI \<and> (\<exists>s p x g. terms a = [s, PConstant (VTerm (TNamedNode p)), x, g])")
  case True
  then obtain s p x g where t: "relation a = QUAD_RELATION_IRI" "terms a = [s, PConstant (VTerm (TNamedNode p)), x, g]"
    by blast
  have "compiles cfg (andthen (register_predicate (predicate_relation cfg p) p) (ok (specialize_atom cfg a))) (specialize_atom cfg a) ({p} \<union> {})"
    by (rule compiles_bind [OF compiles_register compiles_ok])
  moreover have "atom_predicates a = {p}" using t by (auto simp: atom_predicates_def)
  ultimately show ?thesis using t by (simp add: compile_atom_def Let_def)
next
  case False
  then have "compile_atom cfg a = ok (specialize_atom cfg a)" "atom_predicates a = {}"
    by (auto simp: compile_atom_def atom_predicates_def split: list.splits PatternTerm.splits Value.splits Term.splits)
  then show ?thesis by (simp add: compiles_ok del: specialize_atom.simps)
qed

lemma compiles_traverse:
  "(\<And>x. x \<in> set xs \<Longrightarrow> compiles cfg (f x) (g x) (A x)) \<Longrightarrow> compiles cfg (traverse f xs) (map g xs) (\<Union> (A ` set xs))"
proof (induction xs)
  case Nil
  then show ?case by (simp add: compiles_ok)
next
  case (Cons x xs)
  have "compiles cfg (traverse f (x # xs)) (g x # map g xs) (A x \<union> (\<Union> (A ` set xs) \<union> {}))"
    unfolding traverse.simps
    by (intro compiles_bind, rule Cons.prems, simp, rule Cons.IH, rule Cons.prems, simp, rule compiles_ok)
  then show ?case by simp
qed

definition specialize_rule :: "Config \<Rightarrow> Rule \<Rightarrow> Rule" where
  "specialize_rule cfg r = r\<lparr>head := specialize_atom cfg (head r),
     positive_body := map (specialize_atom cfg) (positive_body r),
     negative_body := map (specialize_atom cfg) (negative_body r)\<rparr>"

lemma compiles_rule: "compiles cfg (compile_rule cfg r) (specialize_rule cfg r) (\<Union> (atom_predicates ` set (rule_atoms r)))"
proof -
  have eq: "(let compiled = Rule_new_stratified (rule_id r) (specialize_atom cfg (head r))
        (map (specialize_atom cfg) (positive_body r)) (map (specialize_atom cfg) (negative_body r));
      compiled = (case rule_source r of Some s \<Rightarrow> Rule_with_source compiled s | None \<Rightarrow> compiled);
      compiled = (if run_once r then Rule_run_once compiled else compiled) in ok compiled) = ok (specialize_rule cfg r)"
    by (cases r) (simp add: Let_def specialize_rule_def Rule_new_stratified_def Rule_with_source_def
        Rule_run_once_def split: option.split del: specialize_atom.simps)
  have "compiles cfg (compile_rule cfg r) (specialize_rule cfg r)
      (atom_predicates (head r) \<union> (\<Union> (atom_predicates ` set (positive_body r)) \<union>
        (\<Union> (atom_predicates ` set (negative_body r)) \<union> {})))"
    unfolding compile_rule_def
    by (rule compiles_bind [OF compiles_atom], rule compiles_bind [OF compiles_traverse [OF compiles_atom]],
        rule compiles_bind [OF compiles_traverse [OF compiles_atom]]) (subst eq, rule compiles_ok)
  moreover have "\<Union> (atom_predicates ` set (rule_atoms r)) = atom_predicates (head r) \<union>
      (\<Union> (atom_predicates ` set (positive_body r)) \<union> (\<Union> (atom_predicates ` set (negative_body r)) \<union> {}))"
    by (auto simp: rule_atoms_def)
  ultimately show ?thesis by simp
qed

lemma compiles_base: "compiles cfg (register_base cfg qs) () (predicate ` set qs)"
  unfolding register_base_def
proof (induction qs)
  case Nil
  then show ?case by (simp add: compiles_ok)
next
  case (Cons q qs)
  have "compiles cfg (for_each (\<lambda>q _. register_predicate (predicate_relation cfg (predicate q)) (predicate q)) (q # qs) ())
      () ({predicate q} \<union> predicate ` set qs)"
    unfolding for_each.simps by (rule compiles_bind [OF compiles_register]) (rule Cons.IH)
  then show ?case by simp
qed

section \<open>Prepared programs\<close>

definition specializes :: "Config \<Rightarrow> Program \<Rightarrow> Quad set \<Rightarrow> predicate_map \<Rightarrow> bool" where
  "specializes cfg program B ps \<longleftrightarrow> predicates_ok cfg ps \<and> (\<forall>q\<in>B. registered cfg ps (predicate q)) \<and>
     (\<forall>r\<in>set (rules program). \<forall>a\<in>set (rule_atoms r). has_fixed_rdf_predicate a \<and>
        (\<forall>p\<in>atom_predicates a. registered cfg ps p) \<and>
        (relation a \<noteq> QUAD_RELATION_IRI \<longrightarrow> map_of ps (relation a) = None))"

definition preparation :: "Config \<Rightarrow> Program \<Rightarrow> Quad set \<Rightarrow> PreparedRdfProgram \<Rightarrow> bool" where
  "preparation cfg program B prep \<longleftrightarrow>
     (if prep_specialized prep
      then prep_program prep = Program_new (map (specialize_rule cfg) (rules program)) \<and>
        specializes cfg program B (prep_predicates prep)
      else prep_program prep = program)"

lemma user_relation_mem:
  "r \<in> set (rules program) \<Longrightarrow> a \<in> set (rule_atoms r) \<Longrightarrow> relation a \<noteq> QUAD_RELATION_IRI \<Longrightarrow>
    relation a \<in> set (user_relations program)"
  by (auto simp: user_relations_def)

lemma find_None_map_of:
  assumes "List.find P (map fst ps) = None" and "P r"
  shows "map_of ps r = None"
  using assms by (auto simp: find_None_iff map_of_eq_None_iff)

lemma PreparedRdfProgram_new_correct:
  assumes base: "dataset_ok base" and new: "PreparedRdfProgram_new cfg program base = Inr prep"
  shows "preparation cfg program (quads_of base) prep"
proof (cases "rules program \<noteq> [] \<and> list_all (\<lambda>r. list_all has_fixed_rdf_predicate (rule_atoms r)) (rules program)")
  case False
  then have "PreparedRdfProgram_new cfg program base =
      Inr \<lparr>prep_program = program, prep_predicates = [], prep_specialized = False\<rparr>"
    unfolding PreparedRdfProgram_new_def Let_def by (simp only: if_not_P simp_thms if_True)
  with new have "prep = \<lparr>prep_program = program, prep_predicates = [], prep_specialized = False\<rparr>" by simp
  then show ?thesis by (simp add: preparation_def)
next
  case True
  obtain qs where qs: "Dataset_iter base = Some qs" "set qs = quads_of base" using iter_correct [OF base] by blast
  from new True qs(1) obtain rs ps0 u ps where
    t: "traverse (compile_rule cfg) (rules program) [] = Inr (rs, ps0)" and
    b: "register_base cfg qs ps0 = Inr (u, ps)" and
    n: "List.find (\<lambda>r. r \<in> set (user_relations program)) (map fst ps) = None" and
    prep: "prep = \<lparr>prep_program = Program_new rs, prep_predicates = ps, prep_specialized = True\<rparr>"
    unfolding PreparedRdfProgram_new_def Let_def by (auto split: sum.splits option.splits)
  have e: "predicates_ok cfg []" by (simp add: predicates_ok_def btm_wf_def)
  note T = compilesD [OF compiles_traverse [OF compiles_rule] e t]
  note B = compilesD [OF compiles_base T(2) b]
  have fixed: "has_fixed_rdf_predicate a" if "r \<in> set (rules program)" "a \<in> set (rule_atoms r)" for r a
    using True that by (auto simp: list_all_iff simp del: has_fixed_rdf_predicate.simps)
  have reg: "registered cfg ps p"
    if "r \<in> set (rules program)" "a \<in> set (rule_atoms r)" "p \<in> atom_predicates a" for r a p
    by (rule registered_mono [OF T(4) B(3)]) (use that in blast)
  have user: "map_of ps (relation a) = None"
    if "r \<in> set (rules program)" "a \<in> set (rule_atoms r)" "relation a \<noteq> QUAD_RELATION_IRI" for r a
    by (rule find_None_map_of [OF n]) (rule user_relation_mem [OF that])
  have "registered cfg ps (predicate q)" if "q \<in> quads_of base" for q
    by (rule B(4)) (use that qs(2) in blast)
  then have "specializes cfg program (quads_of base) ps"
    unfolding specializes_def using B(2) fixed reg user by blast
  then show ?thesis unfolding preparation_def prep using T(1) by simp
qed

lemma prep_quad_from_fact_iff:
  assumes "preparation cfg program B prep"
  shows "prep_quad_from_fact prep f = Inr (Some q) \<longleftrightarrow>
    f = prep_fact_from_quad cfg prep q \<and> (prep_specialized prep \<longrightarrow> registered cfg (prep_predicates prep) (predicate q))"
proof (cases "prep_specialized prep")
  case False
  have m: "map_sum id Some z = Inr (Some q) \<longleftrightarrow> z = Inr q" for z :: "RdfAdapterError + Quad" by (cases z) auto
  have "fact_relation (fact_from_quad q) = QUAD_RELATION_IRI"
    by (simp add: fact_from_quad_def Fact_new_def quad_relation_def)
  with False show ?thesis
    by (auto simp: prep_quad_from_fact_def prep_fact_from_quad_def m quad_from_fact_iff)
next
  case True
  let ?ps = "prep_predicates prep"
  let ?vs = "[VTerm (term_of_node (subject q)), VTerm (object q), graph_value (graph_name q)]"
  have m: "map_sum id Some z = Inr (Some q) \<longleftrightarrow> z = Inr q" for z :: "RdfAdapterError + Quad" by (cases z) auto
  have ok: "map_of ?ps r = Some p \<Longrightarrow> r = predicate_relation cfg p" for r p
    using assms True unfolding preparation_def specializes_def predicates_ok_def by simp
  have eq: "Fact_new quad_relation [s, VTerm (TNamedNode p), x, g] = fact_from_quad q \<longleftrightarrow>
      p = predicate q \<and> [s, x, g] = ?vs" for s p x g
    by (auto simp: fact_from_quad_def Fact_new_def)
  have "prep_quad_from_fact prep f = Inr (Some q) \<longleftrightarrow>
      map_of ?ps (fact_relation f) = Some (predicate q) \<and> fact_values f = ?vs"
    using True by (auto simp: prep_quad_from_fact_def m quad_from_fact_iff eq split: option.splits list.splits)
  also have "\<dots> \<longleftrightarrow> f = prep_fact_from_quad cfg prep q \<and> registered cfg ?ps (predicate q)"
    using True ok [of "fact_relation f" "predicate q"]
    by (cases f) (auto simp: prep_fact_from_quad_def registered_def Fact_new_def)
  finally show ?thesis using True by blast
qed

section \<open>The inference dataset\<close>

definition decodes_ok :: "PreparedRdfProgram \<Rightarrow> Fact list \<Rightarrow> bool" where
  "decodes_ok prep fs \<longleftrightarrow> (\<forall>f\<in>set fs. \<forall>q. prep_quad_from_fact prep f = Inr (Some q) \<longrightarrow> quad_ok q)"

lemma collect_inference_correct:
  "dataset_ok d \<Longrightarrow> decodes_ok prep fs \<Longrightarrow> collect_inference prep fs d = Inr d' \<Longrightarrow>
    dataset_ok d' \<and> quads_of d' = quads_of d \<union> {q. \<exists>f\<in>set fs. prep_quad_from_fact prep f = Inr (Some q)}"
proof (induction prep fs d rule: collect_inference.induct)
  case (1 prep d)
  then show ?case by simp
next
  case (2 prep f fs d)
  have rest: "decodes_ok prep fs" using 2(4) by (simp add: decodes_ok_def)
  show ?case
  proof (cases "prep_quad_from_fact prep f")
    case (Inl e)
    with 2(5) show ?thesis by simp
  next
    case (Inr z)
    show ?thesis
    proof (cases z)
      case None
      with Inr 2(1) [OF _ _ 2(3) rest] 2(5) show ?thesis by simp
    next
      case (Some q)
      have q: "quad_ok q" using 2(4) Inr Some by (simp add: decodes_ok_def)
      obtain b d1 where d1: "Dataset_insert q d = Some (b, d1)"
        using 2(5) Inr Some by (auto split: option.splits)
      note I = insert_correct [OF 2(3) q d1]
      have run: "collect_inference prep fs d1 = Inr d'" using 2(5) Inr Some d1 by simp
      have "dataset_ok d' \<and> quads_of d' = quads_of d1 \<union> {q. \<exists>f\<in>set fs. prep_quad_from_fact prep f = Inr (Some q)}"
        by (rule 2(2)) (use Inr Some d1 I rest run in auto)
      with I Inr Some show ?thesis by auto
    qed
  qed
qed

section \<open>Values of the model\<close>

fun value_ok :: "Value \<Rightarrow> bool" where
  "value_ok (VTerm t) \<longleftrightarrow> term_ok t"
| "value_ok VDefaultGraph \<longleftrightarrow> True"

definition fact_ok :: "Fact \<Rightarrow> bool" where
  "fact_ok f \<longleftrightarrow> (\<forall>v\<in>set (fact_values f). value_ok v)"

definition constants_ok :: "Rule list \<Rightarrow> bool" where
  "constants_ok rs \<longleftrightarrow> (\<forall>r\<in>set rs. \<forall>a\<in>set (rule_atoms r). \<forall>c. PConstant c \<in> set (terms a) \<longrightarrow> value_ok c)"

lemma term_ok_of_node [simp]: "term_ok (term_of_node n) \<longleftrightarrow> node_ok n"
  by (cases n) auto

lemma value_ok_graph [simp]: "value_ok (graph_value g) \<longleftrightarrow> graph_ok g"
  by (cases g) auto

lemma fact_ok_prep [simp]: "fact_ok (prep_fact_from_quad cfg prep q) \<longleftrightarrow> quad_ok q"
  by (auto simp: prep_fact_from_quad_def fact_from_quad_def fact_ok_def Fact_new_def quad_ok_def)

lemma model_values_ok:
  assumes vp: "vp_ok vp" and inv: "inventive sk vp fs" and con: "constants_ok (vp_rules vp)"
    and base: "\<And>f. f \<in> set fs \<Longrightarrow> fact_ok f" and f: "f \<in> program_model sk vp (set fs)"
  shows "fact_ok f"
  using vp f base
proof (rule program_model_induct)
  fix r \<nu>
  assume r: "r \<in> set (vp_rules vp)"
    and b: "body_holds sk r \<nu> (program_model sk vp (set fs)) (program_model sk vp (set fs))"
    and body: "\<And>a. a \<in> set (positive_body r) \<Longrightarrow> fact_ok (ground sk r \<nu> a)"
  have safe: "rule_safe r" using vp r by (simp add: vp_ok_def)
  have "value_ok (term_value sk r \<nu> t)" if t: "t \<in> set (terms (head r))" for t
  proof (cases t)
    case (PVariable x)
    then have "x \<in> body_vars r" using safe t by (auto simp: rule_safe_def rule_atoms_def atom_vars_def)
    then obtain a where a: "a \<in> set (positive_body r)" "PVariable x \<in> set (terms a)"
      by (auto simp: body_vars_def atom_vars_def)
    then have "\<nu> x \<in> set (fact_values (ground sk r \<nu> a))"
      by (force simp: ground_def Fact_new_def term_value_def)
    with body [OF a(1)] PVariable show ?thesis by (simp add: fact_ok_def term_value_def)
  next
    case (PConstant c)
    have "head r \<in> set (rule_atoms r)" by (simp add: rule_atoms_def)
    with con r t PConstant have "value_ok c" unfolding constants_ok_def by blast
    with PConstant show ?thesis by (simp add: term_value_def)
  next
    case (PGeneratedBlankNode g)
    then have "node_key r g \<nu> \<in> used_keys sk vp (program_model sk vp (set fs))"
      using r t b unfolding used_keys_def by blast
    with inv have "blank_value (sk (node_key r g \<nu>))" unfolding inventive_def Let_def by blast
    then show ?thesis using PGeneratedBlankNode blank_ok_new_unchecked
      by (auto simp: blank_value_def term_value_def)
  qed
  then show "fact_ok (ground sk r \<nu> (head r))" by (simp add: fact_ok_def ground_def Fact_new_def)
qed

lemma terms_specialize_atom: "set (terms (specialize_atom cfg a)) \<subseteq> set (terms a)"
  by (auto simp: Atom_new_def split: list.splits PatternTerm.splits Value.splits Term.splits)

lemma rule_atoms_specialize: "rule_atoms (specialize_rule cfg r) = map (specialize_atom cfg) (rule_atoms r)"
  by (simp add: rule_atoms_def specialize_rule_def del: specialize_atom.simps)

lemma constants_ok_specialize: "constants_ok rs \<Longrightarrow> constants_ok (map (specialize_rule cfg) rs)"
  unfolding constants_ok_def using terms_specialize_atom
  by (fastforce simp: rule_atoms_specialize simp del: specialize_atom.simps)

lemma card_program_relations: "card (program_relations rs) \<le> length (concat (map rule_atoms rs))"
proof -
  have "program_relations rs = set (map relation (concat (map rule_atoms rs)))"
    by (auto simp: program_relations_def)
  then show ?thesis using card_length [of "map relation (concat (map rule_atoms rs))"] by simp
qed

lemma length_atoms_specialize:
  "length (concat (map rule_atoms (map (specialize_rule cfg) rs))) = length (concat (map rule_atoms rs))"
  by (simp add: length_concat comp_def rule_atoms_specialize del: specialize_atom.simps)

section \<open>The closure\<close>

text \<open>The quads that the facts of \<open>M\<close> stand for.\<close>

definition quads_in :: "PreparedRdfProgram \<Rightarrow> Fact set \<Rightarrow> Quad set" where
  "quads_in prep M = {q. \<exists>f\<in>M. prep_quad_from_fact prep f = Inr (Some q)}"

text \<open>\<open>run_of\<close>: \<open>M\<close> is the model of the prepared program over the facts of the base, for a naming that
  invents new blank nodes.\<close>

definition run_of :: "Config \<Rightarrow> Program \<Rightarrow> Dataset \<Rightarrow> PreparedRdfProgram \<Rightarrow> Fact set \<Rightarrow> bool" where
  "run_of cfg program base prep M \<longleftrightarrow> PreparedRdfProgram_new cfg program base = Inr prep \<and>
     (\<exists>vp sk fs. prepared (prep_program prep) vp \<and> set fs = prep_fact_from_quad cfg prep ` quads_of base \<and>
        inventive sk vp fs \<and> M = program_model sk vp (set fs))"

definition closure_ok :: "Config \<Rightarrow> Program \<Rightarrow> Dataset \<Rightarrow> RdfClosure \<Rightarrow> bool" where
  "closure_ok cfg program base c \<longleftrightarrow> closure_base c = base \<and> closure_profile c = program_profile program \<and>
     dataset_ok (closure_inference c) \<and> dataset_ok (closure_entailed c) \<and>
     quads_of (closure_inference c) \<inter> quads_of base = {} \<and>
     quads_of (closure_entailed c) = quads_of base \<union> quads_of (closure_inference c) \<and>
     (\<exists>prep M. run_of cfg program base prep M \<and> quads_of (closure_entailed c) = quads_in prep M)"

lemma base_subset_model: "base \<subseteq> program_model sk vp base"
proof -
  have "base \<subseteq> perfect_model sk R base n" for R n
    by (induction n) (auto intro: stratum_model.lower)
  then show ?thesis by (simp add: program_model_def)
qed

lemma preparation_rules:
  assumes "preparation cfg program B prep" and "constants_ok (rules program)"
    and "length (concat (map rule_atoms (rules program))) < 2 ^ 32"
  shows "constants_ok (rules (prep_program prep))" and "card (program_relations (rules (prep_program prep))) < 2 ^ 32"
proof -
  have "rules (prep_program prep) = rules program \<or>
      rules (prep_program prep) = map (specialize_rule cfg) (rules program)"
    using assms(1) by (auto simp: preparation_def Program_new_def split: if_splits)
  then show "constants_ok (rules (prep_program prep))" "card (program_relations (rules (prep_program prep))) < 2 ^ 32"
    using assms(2,3) constants_ok_specialize [of "rules program" cfg]
      card_program_relations [of "rules (prep_program prep)"] length_atoms_specialize [of cfg "rules program"] by auto
qed

lemma quads_in_base:
  assumes prep: "preparation cfg program B prep" and q: "q \<in> B"
  shows "prep_quad_from_fact prep (prep_fact_from_quad cfg prep q) = Inr (Some q)"
  unfolding prep_quad_from_fact_iff [OF prep]
  using prep q by (auto simp: preparation_def specializes_def)

lemma quads_in_facts:
  assumes prep: "preparation cfg program B prep"
  shows "quads_in prep (prep_fact_from_quad cfg prep ` B) = B"
proof
  show "quads_in prep (prep_fact_from_quad cfg prep ` B) \<subseteq> B"
    unfolding quads_in_def using quads_in_base [OF prep] by auto
  show "B \<subseteq> quads_in prep (prep_fact_from_quad cfg prep ` B)"
    unfolding quads_in_def using quads_in_base [OF prep] by force
qed

lemma evaluate_run:
  assumes base: "dataset_ok base" and con: "constants_ok (rules program)"
    and small: "length (concat (map rule_atoms (rules program))) < 2 ^ 32"
    and new: "PreparedRdfProgram_new cfg program base = Inr prep" and quads: "Dataset_iter base = Some quads"
    and ev: "evaluate cfg ValidationLimits_default (prep_program prep) (map (prep_fact_from_quad cfg prep) quads) = Inr ev"
  obtains M where "run_of cfg program base prep M"
    and "set (result_derived ev) = M - prep_fact_from_quad cfg prep ` quads_of base"
    and "prep_fact_from_quad cfg prep ` quads_of base \<subseteq> M" and "\<forall>q\<in>quads_in prep M. quad_ok q"
proof -
  let ?fs = "map (prep_fact_from_quad cfg prep) quads"
  have B: "set quads = quads_of base" using iter_correct [OF base] quads by auto
  have prep: "preparation cfg program (quads_of base) prep" by (rule PreparedRdfProgram_new_correct [OF base new])
  note P = preparation_rules [OF prep con small]
  obtain vp sk where vp: "prepared (prep_program prep) vp" and inv: "inventive sk vp ?fs"
    and der: "set (result_derived ev) = program_model sk vp (set ?fs) - set ?fs"
    using evaluate_cases [OF P(2), of cfg ValidationLimits_default ?fs] ev
    by (auto simp: result_ok_def listing_def Let_def)
  let ?M = "program_model sk vp (set ?fs)"
  have vok: "vp_ok vp" and con': "constants_ok (vp_rules vp)" using P(1) vp by (simp_all add: constants_ok_def prepared_def)
  have "fact_ok f" if "f \<in> set ?fs" for f
    using that B by (auto simp: quads_of_def)
  note ok = model_values_ok [OF vok inv con' this]
  have "quad_ok q" if q: "q \<in> quads_in prep ?M" for q
  proof -
    from q obtain f where f: "f \<in> ?M" "prep_quad_from_fact prep f = Inr (Some q)" unfolding quads_in_def by blast
    then have "f = prep_fact_from_quad cfg prep q" unfolding prep_quad_from_fact_iff [OF prep] by blast
    with ok [OF _ f(1)] show ?thesis by (simp only: fact_ok_prep)
  qed
  moreover have "run_of cfg program base prep ?M"
    unfolding run_of_def using new vp inv B
    by (intro conjI exI [of _ vp] exI [of _ sk] exI [of _ ?fs]) simp_all
  ultimately show ?thesis
    using that [of ?M] der base_subset_model [of "set ?fs" sk vp] B by simp
qed

lemma decodes_ok_quads: "\<forall>q\<in>quads_in prep M. quad_ok q \<Longrightarrow> set fs \<subseteq> M \<Longrightarrow> decodes_ok prep fs"
  by (auto simp: decodes_ok_def quads_in_def)

lemma rdf_evaluate_closure:
  assumes base: "dataset_ok base" and con: "constants_ok (rules program)"
    and small: "length (concat (map rule_atoms (rules program))) < 2 ^ 32"
    and run: "rdf_evaluate cfg h program base = Inr c"
  shows "closure_ok cfg program base c"
proof -
  from run obtain prep quads ev inf inferred ent where
    new: "PreparedRdfProgram_new cfg program base = Inr prep" and
    quads: "Dataset_iter base = Some quads" and
    ev: "evaluate cfg ValidationLimits_default (prep_program prep) (map (prep_fact_from_quad cfg prep) quads) = Inr ev" and
    col: "collect_inference prep (result_derived ev) (Dataset_new h) = Inr inf" and
    inferred: "Dataset_iter inf = Some inferred" and
    ent: "Dataset_extend inferred base = Some ent" and
    c: "c = \<lparr>closure_profile = program_profile program, closure_base = base, closure_inference = inf,
      closure_entailed = ent, closure_evaluation = ev\<rparr>"
    unfolding rdf_evaluate_def by (auto split: sum.splits option.splits)
  let ?B = "quads_of base" and ?F = "prep_fact_from_quad cfg prep ` quads_of base"
  have prep: "preparation cfg program ?B prep" by (rule PreparedRdfProgram_new_correct [OF base new])
  obtain M where M: "run_of cfg program base prep M" and der: "set (result_derived ev) = M - ?F"
    and sub: "?F \<subseteq> M" and qok: "\<forall>q\<in>quads_in prep M. quad_ok q"
    by (rule evaluate_run [OF base con small new quads ev])
  have dec: "decodes_ok prep (result_derived ev)" by (rule decodes_ok_quads [OF qok]) (use der in auto)
  have inf: "dataset_ok inf" "quads_of inf = quads_in prep (M - ?F)"
    using collect_inference_correct [OF dataset_ok_new dec col] unfolding quads_in_def der by simp_all
  have "set inferred = quads_of inf" using iter_correct [OF inf(1)] inferred by auto
  then have e: "dataset_ok ent" "quads_of ent = ?B \<union> quads_of inf"
    using quad_store.insert_all_correct [OF base _ ent [unfolded Dataset_extend_def]]
    by (auto simp: quads_of_def)
  have dis: "quads_of inf \<inter> ?B = {}"
    unfolding inf(2) quads_in_def using prep_quad_from_fact_iff [OF prep] by auto
  have "quads_in prep M = quads_in prep ?F \<union> quads_in prep (M - ?F)"
    using sub unfolding quads_in_def by blast
  then have "quads_of ent = quads_in prep M" using e(2) inf(2) quads_in_facts [OF prep] by simp
  then show ?thesis
    unfolding closure_ok_def c using M inf(1) e dis by (simp only: RdfClosure.simps simp_thms) blast
qed

section \<open>Specialisation keeps the model\<close>

fun specialize_fact :: "Config \<Rightarrow> Fact \<Rightarrow> Fact" where
  "specialize_fact cfg f =
     (if fact_relation f \<noteq> QUAD_RELATION_IRI then f
      else case fact_values f of
        [s, VTerm (TNamedNode p), x, g] \<Rightarrow> Fact_new (predicate_relation cfg p) [s, x, g]
      | _ \<Rightarrow> f)"

text \<open>The facts a specialised program talks about.\<close>

definition covered :: "Config \<Rightarrow> predicate_map \<Rightarrow> Fact \<Rightarrow> bool" where
  "covered cfg ps f \<longleftrightarrow>
     (if fact_relation f = QUAD_RELATION_IRI
      then \<exists>s p x g. fact_values f = [s, VTerm (TNamedNode p), x, g] \<and> registered cfg ps p
      else map_of ps (fact_relation f) = None)"

lemma specialize_fact_quad:
  "fact_relation f = QUAD_RELATION_IRI \<Longrightarrow> fact_values f = [s, VTerm (TNamedNode p), x, g] \<Longrightarrow>
    specialize_fact cfg f = Fact_new (predicate_relation cfg p) [s, x, g]"
  by simp

lemma specialize_fact_inj: "inj_on (specialize_fact cfg) {f. covered cfg ps f}"
proof (rule inj_onI, unfold mem_Collect_eq)
  fix f f' assume c: "covered cfg ps f" "covered cfg ps f'" and e: "specialize_fact cfg f = specialize_fact cfg f'"
  have rel: "map_of ps (fact_relation (specialize_fact cfg f)) = None \<longleftrightarrow> fact_relation f \<noteq> QUAD_RELATION_IRI"
    if "covered cfg ps f" for f
    using that by (auto simp: covered_def registered_def Fact_new_def split: if_splits)
  show "f = f'"
  proof (cases "fact_relation f = QUAD_RELATION_IRI")
    case True
    then have t: "fact_relation f' = QUAD_RELATION_IRI" using rel [OF c(1)] rel [OF c(2)] e by metis
    obtain s p x g where f: "fact_values f = [s, VTerm (TNamedNode p), x, g]" "registered cfg ps p"
      using c(1) True by (auto simp: covered_def)
    obtain s' p' x' g' where f': "fact_values f' = [s', VTerm (TNamedNode p'), x', g']" "registered cfg ps p'"
      using c(2) t by (auto simp: covered_def)
    have "Fact_new (predicate_relation cfg p) [s, x, g] = Fact_new (predicate_relation cfg p') [s', x', g']"
      using e specialize_fact_quad [OF True f(1)] specialize_fact_quad [OF t f'(1)] by simp
    then have "predicate_relation cfg p = predicate_relation cfg p'" "[s, x, g] = [s', x', g']"
      by (simp_all add: Fact_new_def)
    with f f' have "fact_values f = fact_values f'" by (simp add: registered_def)
    with True t show ?thesis by (cases f; cases f') simp
  next
    case False
    then have "fact_relation f' \<noteq> QUAD_RELATION_IRI" using rel [OF c(1)] rel [OF c(2)] e by metis
    with False e show ?thesis by simp
  qed
qed

lemma body_vars_specialize [simp]: "body_vars (specialize_rule cfg r) = body_vars r"
proof -
  have "atom_vars (specialize_atom cfg a) = atom_vars a" for a
    by (auto simp: atom_vars_def Atom_new_def split: list.splits PatternTerm.splits Value.splits Term.splits)
  then show ?thesis by (simp add: body_vars_def specialize_rule_def del: specialize_atom.simps)
qed

lemma term_value_specialize [simp]: "term_value sk (specialize_rule cfg r) = term_value sk r"
proof -
  have "rule_id (specialize_rule cfg r) = rule_id r" by (simp add: specialize_rule_def)
  then show ?thesis by (simp add: fun_eq_iff term_value_def node_key_def split: PatternTerm.split)
qed

lemma fixed_atomE:
  assumes "has_fixed_rdf_predicate a" and "relation a = QUAD_RELATION_IRI"
  obtains s p x g where "terms a = [s, PConstant (VTerm (TNamedNode p)), x, g]"
  using assms by (auto split: list.splits PatternTerm.splits Value.splits Term.splits)

lemma ground_specialize:
  assumes "has_fixed_rdf_predicate a"
  shows "ground sk (specialize_rule cfg r) \<nu> (specialize_atom cfg a) = specialize_fact cfg (ground sk r \<nu> a)"
proof (cases "relation a = QUAD_RELATION_IRI")
  case True
  from fixed_atomE [OF assms True] obtain s p x g where "terms a = [s, PConstant (VTerm (TNamedNode p)), x, g]" .
  with True show ?thesis by (simp add: ground_def Fact_new_def Atom_new_def term_value_def)
next
  case False
  then show ?thesis by (simp add: ground_def Fact_new_def)
qed

lemma covered_ground:
  assumes "specializes cfg program B ps" and "r \<in> set (rules program)" and a: "a \<in> set (rule_atoms r)"
  shows "covered cfg ps (ground sk r \<nu> a)"
proof (cases "relation a = QUAD_RELATION_IRI")
  case True
  have "has_fixed_rdf_predicate a" using assms unfolding specializes_def by blast
  from fixed_atomE [OF this True] obtain s p x g where t: "terms a = [s, PConstant (VTerm (TNamedNode p)), x, g]" .
  then have "p \<in> atom_predicates a" using True by (simp add: atom_predicates_def)
  then have "registered cfg ps p" using assms unfolding specializes_def by blast
  with True t show ?thesis by (simp add: covered_def ground_def Fact_new_def term_value_def)
next
  case False
  then have "map_of ps (relation a) = None" using assms unfolding specializes_def by blast
  with False show ?thesis by (simp add: covered_def)
qed

declare specialize_atom.simps [simp del] specialize_fact.simps [simp del]

lemma stratum_covered:
  assumes sp: "specializes cfg program B ps" and R: "R \<subseteq> set (rules program)"
    and L: "L \<subseteq> {f. covered cfg ps f}"
  shows "stratum_model sk R L \<subseteq> {f. covered cfg ps f}"
proof
  fix f assume "f \<in> stratum_model sk R L"
  then show "f \<in> {f. covered cfg ps f}"
  proof induction
    case (derive r \<nu>)
    then have "covered cfg ps (ground sk r \<nu> (head r))"
      using R by (intro covered_ground [OF sp]) (auto simp: rule_atoms_def)
    then show ?case by simp
  qed (use L in blast)
qed

lemma specialize_rule_sel:
  "head (specialize_rule cfg r) = specialize_atom cfg (head r)"
  "positive_body (specialize_rule cfg r) = map (specialize_atom cfg) (positive_body r)"
  "negative_body (specialize_rule cfg r) = map (specialize_atom cfg) (negative_body r)"
  "run_once (specialize_rule cfg r) = run_once r"
  "rule_id (specialize_rule cfg r) = rule_id r"
  by (simp_all add: specialize_rule_def del: specialize_atom.simps)

lemma ground_specialize_body:
  assumes sp: "specializes cfg program B ps" and r: "r \<in> set (rules program)" and F: "F \<subseteq> {f. covered cfg ps f}"
    and a: "a \<in> set (rule_atoms r)"
  shows "ground sk (specialize_rule cfg r) \<nu> (specialize_atom cfg a) \<in> specialize_fact cfg ` F \<longleftrightarrow> ground sk r \<nu> a \<in> F"
proof -
  have fixed: "has_fixed_rdf_predicate a" using sp r a unfolding specializes_def by blast
  have "ground sk r \<nu> a \<in> {f. covered cfg ps f}" using covered_ground [OF sp r a] by simp
  then show ?thesis
    unfolding ground_specialize [OF fixed] by (rule inj_on_image_mem_iff [OF specialize_fact_inj _ F])
qed

lemma negative_specialize:
  assumes sp: "specializes cfg program B ps" and r: "r \<in> set (rules program)" and L: "L \<subseteq> {f. covered cfg ps f}"
  shows "ground sk (specialize_rule cfg r) \<nu> ` set (negative_body (specialize_rule cfg r)) \<inter> specialize_fact cfg ` L = {} \<longleftrightarrow>
    ground sk r \<nu> ` set (negative_body r) \<inter> L = {}"
proof -
  have "ground sk (specialize_rule cfg r) \<nu> (specialize_atom cfg a) \<in> specialize_fact cfg ` L \<longleftrightarrow> ground sk r \<nu> a \<in> L"
    if "a \<in> set (negative_body r)" for a
    by (rule ground_specialize_body [OF sp r L]) (use that in \<open>simp add: rule_atoms_def\<close>)
  then have "(\<forall>a\<in>set (negative_body r). ground sk (specialize_rule cfg r) \<nu> (specialize_atom cfg a) \<notin> specialize_fact cfg ` L)
      \<longleftrightarrow> (\<forall>a\<in>set (negative_body r). ground sk r \<nu> a \<notin> L)" by simp
  moreover have "h ` A \<inter> F = {} \<longleftrightarrow> (\<forall>a\<in>A. h a \<notin> F)" for h :: "Atom \<Rightarrow> Fact" and A F by blast
  ultimately show ?thesis by (simp add: specialize_rule_sel)
qed

lemma stratum_specialize:
  assumes sp: "specializes cfg program B ps" and R: "R \<subseteq> set (rules program)"
    and L: "L \<subseteq> {f. covered cfg ps f}"
  shows "stratum_model sk (specialize_rule cfg ` R) (specialize_fact cfg ` L) = specialize_fact cfg ` stratum_model sk R L"
    (is "?S' = ?h ` ?S")
proof
  note S = stratum_covered [OF sp R L, where sk = sk]
  have atoms: "a \<in> set (rule_atoms r)" if "a = head r \<or> a \<in> set (positive_body r) \<or> a \<in> set (negative_body r)" for a r
    using that by (auto simp: rule_atoms_def)
  have head: "ground sk (specialize_rule cfg r) \<nu> (specialize_atom cfg (head r)) = ?h (ground sk r \<nu> (head r))"
    if "r \<in> R" for r \<nu>
    by (rule ground_specialize) (use sp R that atoms [of "head r" r] in \<open>unfold specializes_def, blast\<close>)
  show "?S' \<subseteq> ?h ` ?S"
  proof
    fix f assume "f \<in> ?S'"
    then show "f \<in> ?h ` ?S"
    proof induction
      case (derive r' \<nu>)
      then obtain r where r: "r \<in> R" "r' = specialize_rule cfg r" by blast
      have r': "r \<in> set (rules program)" using r R by blast
      have "\<forall>a\<in>set (positive_body r). ground sk r \<nu> a \<in> ?S"
      proof
        fix a assume a: "a \<in> set (positive_body r)"
        then have "ground sk (specialize_rule cfg r) \<nu> (specialize_atom cfg a) \<in> ?h ` ?S"
          using derive.IH unfolding r(2) specialize_rule_sel by simp
        then show "ground sk r \<nu> a \<in> ?S" using ground_specialize_body [OF sp r' S atoms] a by blast
      qed
      moreover have "ground sk r \<nu> ` set (negative_body r) \<inter> L = {}"
        using derive.hyps(2) unfolding r(2) negative_specialize [OF sp r' L] .
      ultimately have "ground sk r \<nu> (head r) \<in> ?S" by (rule stratum_model.derive [OF r(1)])
      then show ?case unfolding r(2) specialize_rule_sel head [OF r(1)] by (rule imageI)
    qed (auto intro: stratum_model.lower)
  qed
  have "?h f \<in> ?S'" if "f \<in> ?S" for f
    using that
  proof induction
    case (derive r \<nu>)
    have r': "r \<in> set (rules program)" using derive R by blast
    have fixed: "has_fixed_rdf_predicate a" if "a \<in> set (rule_atoms r)" for a
      using sp r' that unfolding specializes_def by blast
    have "ground sk (specialize_rule cfg r) \<nu> (head (specialize_rule cfg r)) \<in> ?S'"
    proof (rule stratum_model.derive)
      show "\<forall>a\<in>set (positive_body (specialize_rule cfg r)). ground sk (specialize_rule cfg r) \<nu> a \<in> ?S'"
        using derive.IH derive.hyps ground_specialize [OF fixed [OF atoms]] unfolding specialize_rule_sel
        by auto
      show "ground sk (specialize_rule cfg r) \<nu> ` set (negative_body (specialize_rule cfg r)) \<inter> ?h ` L = {}"
        using derive.hyps(2) unfolding negative_specialize [OF sp r' L] .
    qed (use derive in blast)
    then show ?case unfolding specialize_rule_sel head [OF derive.hyps(1)] .
  qed (auto intro: stratum_model.lower)
  then show "?h ` ?S \<subseteq> ?S'" by blast
qed

lemma perfect_specialize:
  assumes sp: "specializes cfg program B ps" and R: "\<And>s. R s \<subseteq> set (rules program)"
    and L: "L \<subseteq> {f. covered cfg ps f}"
  shows "perfect_model sk (\<lambda>s. specialize_rule cfg ` R s) (specialize_fact cfg ` L) n =
      specialize_fact cfg ` perfect_model sk R L n \<and> perfect_model sk R L n \<subseteq> {f. covered cfg ps f}"
proof (induction n)
  case 0
  show ?case using stratum_specialize [OF sp R L] stratum_covered [OF sp R L] by simp
next
  case (Suc n)
  then show ?case
    using stratum_specialize [OF sp R] stratum_covered [OF sp R] by simp
qed

text \<open>The level of a predicate relation is that of the quad relation it is a part of.\<close>

definition specialize_level :: "predicate_map \<Rightarrow> (RelationId \<Rightarrow> nat) \<Rightarrow> RelationId \<Rightarrow> nat" where
  "specialize_level ps lv x = (if map_of ps x = None then lv x else lv QUAD_RELATION_IRI)"

lemma relation_specialize:
  assumes sp: "specializes cfg program B ps" and r: "r \<in> set (rules program)" and a: "a \<in> set (rule_atoms r)"
  shows "specialize_level ps lv (relation (specialize_atom cfg a)) = lv (relation a)"
proof (cases "relation a = QUAD_RELATION_IRI")
  case True
  have "has_fixed_rdf_predicate a" using sp r a unfolding specializes_def by blast
  from fixed_atomE [OF this True] obtain s p x g where t: "terms a = [s, PConstant (VTerm (TNamedNode p)), x, g]" .
  then have "p \<in> atom_predicates a" using True by (simp add: atom_predicates_def)
  then have "registered cfg ps p" using sp r a unfolding specializes_def by blast
  with True t show ?thesis by (simp add: specialize_level_def specialize_atom.simps Atom_new_def registered_def)
next
  case False
  then have "map_of ps (relation a) = None" using sp r a unfolding specializes_def by blast
  with False show ?thesis by (simp add: specialize_level_def specialize_atom.simps)
qed

lemma levels_ok_specialize:
  assumes sp: "specializes cfg program B ps" and R: "\<And>s. R s \<subseteq> set (rules program)" and lv: "levels_ok lv R"
  shows "levels_ok (specialize_level ps lv) (\<lambda>s. specialize_rule cfg ` R s)"
  unfolding levels_ok_def
proof (intro allI ballI)
  fix s r' assume "r' \<in> specialize_rule cfg ` R s"
  then obtain r where r: "r \<in> R s" "r' = specialize_rule cfg r" by blast
  have l: "lv (relation (head r)) = s" "rule_stratified lv r" using lv r(1) unfolding levels_ok_def by blast+
  have "r \<in> set (rules program)" using R r(1) by blast
  note E = relation_specialize [OF sp this, of _ lv]
  have "specialize_level ps lv (relation (specialize_atom cfg a)) = lv (relation a)"
    if "a = head r \<or> a \<in> set (positive_body r) \<or> a \<in> set (negative_body r)" for a
    by (rule E) (use that in \<open>auto simp: rule_atoms_def\<close>)
  with l show "specialize_level ps lv (relation (head r')) = s \<and> rule_stratified (specialize_level ps lv) r'"
    unfolding rule_stratified_def r(2) specialize_rule_sel by simp
qed

lemma program_specialize:
  assumes sp: "specializes cfg program B ps" and vp: "prepared program vp"
    and vp': "prepared (Program_new (map (specialize_rule cfg) (rules program))) vp'"
    and L: "L \<subseteq> {f. covered cfg ps f}"
  shows "program_model sk vp' (specialize_fact cfg ` L) = specialize_fact cfg ` program_model sk vp L"
    and "program_model sk vp L \<subseteq> {f. covered cfg ps f}"
proof -
  have ok: "vp_ok vp" "vp_ok vp'" using vp vp' by (simp_all add: prepared_def)
  have rs: "set (vp_rules vp) = set (rules program)" "set (vp_rules vp') = specialize_rule cfg ` set (rules program)"
    using vp vp' by (simp_all add: prepared_def Program_new_def)
  have R: "rules_at vp s \<subseteq> set (rules program)" for s using rs(1) by (auto simp: rules_at_def)
  have "(\<Union>s\<le>vp_max_stratum vp. specialize_rule cfg ` rules_at vp s) = set (vp_rules vp')"
    using rules_at_union [OF ok(1)] rs by (metis image_UN)
  then have "program_model sk vp' (specialize_fact cfg ` L) =
      perfect_model sk (\<lambda>s. specialize_rule cfg ` rules_at vp s) (specialize_fact cfg ` L) (vp_max_stratum vp)"
    by (rule program_model_eq [OF ok(2) levels_ok_specialize [OF sp R levels_ok_rules_at [OF ok(1)]]])
  then show "program_model sk vp' (specialize_fact cfg ` L) = specialize_fact cfg ` program_model sk vp L"
    "program_model sk vp L \<subseteq> {f. covered cfg ps f}"
    using perfect_specialize [OF sp R L] by (simp_all add: program_model_def)
qed

lemma prepared_model_unique:
  assumes "prepared program vp" and "prepared program vp'"
  shows "program_model sk vp' base = program_model sk vp base"
proof -
  have ok: "vp_ok vp" "vp_ok vp'" "set (vp_rules vp) = set (vp_rules vp')" using assms by (simp_all add: prepared_def)
  show ?thesis
    unfolding program_model_def [of sk vp]
    by (rule program_model_eq [OF ok(2) levels_ok_rules_at [OF ok(1)]]) (simp add: rules_at_union [OF ok(1)] ok(3))
qed

lemma specialize_fact_from_quad:
  "prep_specialized prep \<Longrightarrow> specialize_fact cfg (fact_from_quad q) = prep_fact_from_quad cfg prep q"
  by (simp add: specialize_fact.simps fact_from_quad_def prep_fact_from_quad_def Fact_new_def quad_relation_def)

lemma covered_fact_from_quad: "covered cfg ps (fact_from_quad q) \<longleftrightarrow> registered cfg ps (predicate q)"
  by (simp add: covered_def fact_from_quad_def Fact_new_def quad_relation_def)

lemma quads_in_specialized:
  assumes prep: "preparation cfg program B prep" and vp: "prepared program vp" and vp': "prepared (prep_program prep) vp'"
  shows "quads_in prep (program_model sk vp' (prep_fact_from_quad cfg prep ` B)) =
    {q. fact_from_quad q \<in> program_model sk vp (fact_from_quad ` B)}"
proof (cases "prep_specialized prep")
  case False
  have same: "program_model sk vp' F = program_model sk vp F" for F
    by (rule prepared_model_unique [OF vp]) (use prep vp' False in \<open>simp add: preparation_def\<close>)
  have "prep_fact_from_quad cfg prep = fact_from_quad" using False by (simp add: fun_eq_iff prep_fact_from_quad_def)
  then show ?thesis
    using False unfolding quads_in_def prep_quad_from_fact_iff [OF prep] same by auto
next
  case True
  let ?ps = "prep_predicates prep" and ?L = "fact_from_quad ` B"
  have sp: "specializes cfg program B ?ps"
    and vp1: "prepared (Program_new (map (specialize_rule cfg) (rules program))) vp'"
    using prep vp' True by (simp_all add: preparation_def)
  have L: "?L \<subseteq> {f. covered cfg ?ps f}" using sp by (auto simp: covered_fact_from_quad specializes_def)
  let ?M = "program_model sk vp ?L"
  note S = program_specialize [OF sp vp vp1 L, of sk]
  have M': "program_model sk vp' (prep_fact_from_quad cfg prep ` B) = specialize_fact cfg ` ?M"
    using S(1) by (simp add: image_image specialize_fact_from_quad [OF True])
  have "prep_fact_from_quad cfg prep q \<in> specialize_fact cfg ` ?M \<longleftrightarrow> fact_from_quad q \<in> ?M"
    if "registered cfg ?ps (predicate q)" for q
    unfolding specialize_fact_from_quad [OF True, symmetric]
    by (rule inj_on_image_mem_iff [OF specialize_fact_inj _ S(2)]) (simp add: covered_fact_from_quad that)
  moreover have "registered cfg ?ps (predicate q)" if "fact_from_quad q \<in> ?M" for q
    using S(2) that covered_fact_from_quad by blast
  ultimately have e: "prep_fact_from_quad cfg prep q \<in> specialize_fact cfg ` ?M \<and> registered cfg ?ps (predicate q) \<longleftrightarrow>
      fact_from_quad q \<in> ?M" for q by metis
  have "quads_in prep F = {q. prep_fact_from_quad cfg prep q \<in> F \<and> registered cfg ?ps (predicate q)}" for F
    unfolding quads_in_def prep_quad_from_fact_iff [OF prep] using True by auto
  then show ?thesis by (simp only: M' e)
qed

section \<open>When an evaluation does not return\<close>

text \<open>The strings that building the closure hands to an interner.\<close>

definition closure_strings :: "PreparedRdfProgram \<Rightarrow> Dataset \<Rightarrow> Fact set \<Rightarrow> string set" where
  "closure_strings prep base M = stored_strings (interner base) \<union> \<Union> (quad_strings ` quads_in prep M)"

lemma hasher_insert: "dataset_ok d \<Longrightarrow> quad_ok q \<Longrightarrow> Dataset_insert q d = Some (b, d') \<Longrightarrow> hasher (interner d') = hasher (interner d)"
  using insert_correct [of d q b d'] by (simp add: grows_to_def)

lemma insert_all_returns:
  "dataset_ok d \<Longrightarrow> distinguishes (hasher (interner d)) S \<Longrightarrow> stored_strings (interner d) \<subseteq> S \<Longrightarrow>
    (\<And>q. q \<in> set qs \<Longrightarrow> quad_ok q \<and> quad_strings q \<subseteq> S) \<Longrightarrow> \<exists>d'. insert_all Dataset_insert qs d = Some d'"
proof (induction qs arbitrary: d)
  case (Cons q qs)
  have q: "quad_ok q" "quad_strings q \<subseteq> S" using Cons.prems(4) by simp_all
  obtain b d1 where d1: "Dataset_insert q d = Some (b, d1)" "stored_strings (interner d1) \<subseteq> S"
    using insert_returns [OF Cons.prems(1,2,3) q(2)] by blast
  have "\<exists>d'. insert_all Dataset_insert qs d1 = Some d'"
    using insert_correct [OF Cons.prems(1) q(1) d1(1)] hasher_insert [OF Cons.prems(1) q(1) d1(1)] d1(2) Cons.prems(2,4)
    by (intro Cons.IH) auto
  with d1(1) show ?case by simp
qed simp

lemma collect_inference_returns:
  "dataset_ok d \<Longrightarrow> distinguishes (hasher (interner d)) S \<Longrightarrow> stored_strings (interner d) \<subseteq> S \<Longrightarrow>
    decodes_ok prep fs \<Longrightarrow> (\<And>q. q \<in> quads_in prep (set fs) \<Longrightarrow> quad_strings q \<subseteq> S) \<Longrightarrow>
    collect_inference prep fs d \<noteq> Inl Stuck"
proof (induction fs arbitrary: d)
  case (Cons f fs)
  have rest: "decodes_ok prep fs" "\<And>q. q \<in> quads_in prep (set fs) \<Longrightarrow> quad_strings q \<subseteq> S"
    using Cons.prems(4,5) by (auto simp: decodes_ok_def quads_in_def)
  show ?case
  proof (cases "\<exists>q. prep_quad_from_fact prep f = Inr (Some q)")
    case True
    then obtain q where f: "prep_quad_from_fact prep f = Inr (Some q)" by blast
    then have q: "quad_ok q" "quad_strings q \<subseteq> S" using Cons.prems(4,5) by (auto simp: decodes_ok_def quads_in_def)
    obtain b d1 where d1: "Dataset_insert q d = Some (b, d1)" "stored_strings (interner d1) \<subseteq> S"
      using insert_returns [OF Cons.prems(1,2,3) q(2)] by blast
    have "collect_inference prep fs d1 \<noteq> Inl Stuck"
      using insert_correct [OF Cons.prems(1) q(1) d1(1)] hasher_insert [OF Cons.prems(1) q(1) d1(1)] d1(2) Cons.prems(2) rest
      by (intro Cons.IH) auto
    with f d1(1) show ?thesis by simp
  next
    case False
    with Cons.IH [OF Cons.prems(1,2,3) rest] show ?thesis
      by (cases "prep_quad_from_fact prep f") (auto split: option.splits)
  qed
qed simp

lemma rdf_evaluate_stuck:
  assumes base: "dataset_ok base" and con: "constants_ok (rules program)"
    and small: "length (concat (map rule_atoms (rules program))) < 2 ^ 32"
    and run: "rdf_evaluate cfg h program base = Inl Stuck"
  shows "\<exists>prep M. run_of cfg program base prep M \<and>
    \<not> (distinguishes h (closure_strings prep base M) \<and> distinguishes (hasher (interner base)) (closure_strings prep base M))"
proof -
  obtain quads where quads: "Dataset_iter base = Some quads" using iter_correct [OF base] by blast
  have "PreparedRdfProgram_new cfg program base \<noteq> Inl Stuck"
    unfolding PreparedRdfProgram_new_def Let_def quads by (simp split: sum.split option.split)
  with run quads obtain prep ev where new: "PreparedRdfProgram_new cfg program base = Inr prep" and
    ev: "evaluate cfg ValidationLimits_default (prep_program prep) (map (prep_fact_from_quad cfg prep) quads) = Inr ev"
    unfolding rdf_evaluate_def by (auto split: sum.splits)
  let ?F = "prep_fact_from_quad cfg prep ` quads_of base"
  obtain M where M: "run_of cfg program base prep M" and der: "set (result_derived ev) = M - ?F"
    and "?F \<subseteq> M" and qok: "\<forall>q\<in>quads_in prep M. quad_ok q"
    by (rule evaluate_run [OF base con small new quads ev])
  let ?S = "closure_strings prep base M"
  have str: "quad_strings q \<subseteq> ?S" if "q \<in> quads_in prep M" for q using that by (auto simp: closure_strings_def)
  have subM: "quads_in prep (set (result_derived ev)) \<subseteq> quads_in prep M" using der by (auto simp: quads_in_def)
  have dec: "decodes_ok prep (result_derived ev)" by (rule decodes_ok_quads [OF qok]) (use der in auto)
  have False if h: "distinguishes h ?S" and b: "distinguishes (hasher (interner base)) ?S"
  proof -
    have "collect_inference prep (result_derived ev) (Dataset_new h) \<noteq> Inl Stuck"
      by (rule collect_inference_returns [OF dataset_ok_new, of _ ?S]) (use h dec str subM in auto)
    then obtain inf where col: "collect_inference prep (result_derived ev) (Dataset_new h) = Inr inf"
      using run new quads ev unfolding rdf_evaluate_def by (auto split: sum.splits)
    have inf: "dataset_ok inf" "quads_of inf \<subseteq> quads_in prep M"
      using collect_inference_correct [OF dataset_ok_new dec col] subM by (auto simp: quads_in_def)
    obtain qs where qs: "Dataset_iter inf = Some qs" "set qs = quads_of inf" using iter_correct [OF inf(1)] by blast
    have "\<exists>e. Dataset_extend qs base = Some e"
      unfolding Dataset_extend_def
      by (rule insert_all_returns [OF base b]) (use qs(2) inf(2) qok str in \<open>auto simp: closure_strings_def\<close>)
    with run new quads ev col qs(1) show False unfolding rdf_evaluate_def by auto
  qed
  with M show ?thesis by blast
qed

section \<open>An example\<close>

definition demo_rdf_program :: Program where
  "demo_rdf_program = Program_new [Rule_new ''r''
     (quad_atom (PVariable ''s'') (PConstant (VTerm (TNamedNode \<lparr>iri = ''qqqqq''\<rparr>))) (PVariable ''x'') (PVariable ''g''))
     [quad_atom (PVariable ''s'') (PConstant (VTerm (TNamedNode \<lparr>iri = ''pp''\<rparr>))) (PVariable ''x'') (PVariable ''g'')]]"

text \<open>A configuration whose digest is the string itself.\<close>

definition rdf_config :: Config where
  "rdf_config = plain_config\<lparr>sha256_hex := (\<lambda>s. s)\<rparr>"

lemmas demo_rdf_defs = demo_rdf_program_def Program_new_def Rule_new_def quad_atom_def Atom_new_def rule_atoms_def

lemma demo_rdf_constants: "constants_ok (rules demo_rdf_program)"
  by (auto simp: constants_ok_def demo_rdf_defs)

lemma demo_rdf_small: "length (concat (map rule_atoms (rules demo_rdf_program))) < 2 ^ 32"
  by (simp add: demo_rdf_defs)

lemma demo_rdf_prepared: "\<exists>vp. prepared demo_rdf_program vp"
proof -
  have "case validate demo_rdf_program ValidationLimits_default of Inl e \<Rightarrow> False | Inr vp \<Rightarrow> True"
    by code_simp
  then obtain vp where vp: "validate demo_rdf_program ValidationLimits_default = Inr vp" by (auto split: sum.splits)
  have "card (program_relations (rules demo_rdf_program)) < 2 ^ 32"
    using card_program_relations demo_rdf_small by (rule le_less_trans)
  from validate_sound [OF this vp] show ?thesis by (auto simp: prepared_def)
qed

text \<open>The program \<open>demo_rdf_program\<close> compiles to.\<close>

definition demo_rdf_prep :: PreparedRdfProgram where
  "demo_rdf_prep =
     \<lparr>prep_program = Program_new (map (specialize_rule rdf_config) (rules demo_rdf_program)),
      prep_predicates = [(predicate_relation rdf_config \<lparr>iri = ''pp''\<rparr>, \<lparr>iri = ''pp''\<rparr>),
        (predicate_relation rdf_config \<lparr>iri = ''qqqqq''\<rparr>, \<lparr>iri = ''qqqqq''\<rparr>)],
      prep_specialized = True\<rparr>"

lemma demo_rdf_new: "PreparedRdfProgram_new rdf_config demo_rdf_program demo_dataset = Inr demo_rdf_prep"
proof -
  obtain qs where qs: "Dataset_iter demo_dataset = Some qs" "distinct qs" "set qs = {demo_quad}"
    using iter_correct [OF demo_dataset_ok] by auto
  then have "qs = [demo_quad]" by (cases qs; cases "tl qs") auto
  with qs(1) have it: "Dataset_iter demo_dataset = Some [demo_quad]" by simp
  have t: "traverse (compile_rule rdf_config) (rules demo_rdf_program) [] =
      Inr (map (specialize_rule rdf_config) (rules demo_rdf_program), prep_predicates demo_rdf_prep)"
    by code_simp
  have b: "register_base rdf_config [demo_quad] (prep_predicates demo_rdf_prep) = Inr ((), prep_predicates demo_rdf_prep)"
    by code_simp
  have u: "List.find (\<lambda>r. r \<in> set (user_relations demo_rdf_program)) (map fst (prep_predicates demo_rdf_prep)) = None"
    by code_simp
  have s: "rules demo_rdf_program \<noteq> [] \<and>
      list_all (\<lambda>r. list_all has_fixed_rdf_predicate (rule_atoms r)) (rules demo_rdf_program)"
    by code_simp
  show ?thesis
    unfolding PreparedRdfProgram_new_def Let_def using s
    by (simp add: t it b u) (simp add: demo_rdf_prep_def)
qed

lemma demo_rdf_prepared': "\<exists>vp. prepared (prep_program demo_rdf_prep) vp"
proof -
  have "case validate (prep_program demo_rdf_prep) ValidationLimits_default of Inl e \<Rightarrow> False | Inr vp \<Rightarrow> True"
    by code_simp
  then obtain vp where vp: "validate (prep_program demo_rdf_prep) ValidationLimits_default = Inr vp" by (auto split: sum.splits)
  have "card (program_relations (rules (prep_program demo_rdf_prep))) < 2 ^ 32"
    using preparation_rules(2) [OF PreparedRdfProgram_new_correct [OF demo_dataset_ok demo_rdf_new] demo_rdf_constants demo_rdf_small] .
  from validate_sound [OF this vp] show ?thesis by (auto simp: prepared_def)
qed

lemma demo_dataset_strings: "stored_strings (interner demo_dataset) \<subseteq> quad_strings demo_quad"
  and demo_dataset_hasher: "hasher (interner demo_dataset) = length_hash"
proof -
  obtain b d where d: "Dataset_insert demo_quad (Dataset_new length_hash) = Some (b, d)"
    "stored_strings (interner d) \<subseteq> quad_strings demo_quad" "hasher (interner d) = length_hash"
    using demo_distinguishes
    by (rule insert_returns [OF dataset_ok_new, of length_hash "quad_strings demo_quad" demo_quad, unfolded hasher_new]) auto
  from d(1) have "demo_dataset = d" by (simp add: demo_dataset_def)
  with d(2,3) show "stored_strings (interner demo_dataset) \<subseteq> quad_strings demo_quad"
    "hasher (interner demo_dataset) = length_hash" by simp_all
qed

text \<open>Every fact of a model of the example has the subject, object and graph of \<open>demo_quad\<close>.\<close>

lemma demo_rdf_model:
  assumes run: "run_of rdf_config demo_rdf_program demo_dataset prep M" and f: "f \<in> M"
  shows "fact_values f = fact_values (prep_fact_from_quad rdf_config demo_rdf_prep demo_quad)"
proof -
  obtain vp sk fs where prep: "prep = demo_rdf_prep" and vp: "prepared (prep_program demo_rdf_prep) vp"
    and fs: "set fs = {prep_fact_from_quad rdf_config demo_rdf_prep demo_quad}" and M: "M = program_model sk vp (set fs)"
    using run unfolding run_of_def demo_rdf_new by auto
  have ok: "vp_ok vp" and rs: "set (vp_rules vp) = specialize_rule rdf_config ` set (rules demo_rdf_program)"
    using vp by (simp_all add: prepared_def demo_rdf_prep_def Program_new_def)
  show ?thesis
    using ok f [unfolded M]
  proof (rule program_model_induct)
    fix r \<nu>
    assume r: "r \<in> set (vp_rules vp)" and body: "\<And>a. a \<in> set (positive_body r) \<Longrightarrow>
      fact_values (ground sk r \<nu> a) = fact_values (prep_fact_from_quad rdf_config demo_rdf_prep demo_quad)"
    have "r = specialize_rule rdf_config (rules demo_rdf_program ! 0)" using r rs by (simp add: demo_rdf_defs)
    then have "\<exists>a\<in>set (positive_body r). terms a = terms (head r)"
      by (simp add: demo_rdf_defs specialize_rule_def specialize_atom.simps quad_relation_def)
    then obtain a where a: "a \<in> set (positive_body r)" "terms a = terms (head r)" by blast
    from body [OF a(1)] show "fact_values (ground sk r \<nu> (head r)) = fact_values (prep_fact_from_quad rdf_config demo_rdf_prep demo_quad)"
      by (simp add: ground_def Fact_new_def a(2))
  qed (use fs in auto)
qed

lemma demo_rdf_strings:
  assumes run: "run_of rdf_config demo_rdf_program demo_dataset prep M"
  shows "closure_strings prep demo_dataset M \<subseteq> insert ''qqqqq'' (quad_strings demo_quad)"
proof -
  have prep: "prep = demo_rdf_prep" using run by (simp add: run_of_def demo_rdf_new)
  have p: "preparation rdf_config demo_rdf_program {demo_quad} demo_rdf_prep"
    using PreparedRdfProgram_new_correct [OF demo_dataset_ok demo_rdf_new] by simp
  have "quad_strings q \<subseteq> insert ''qqqqq'' (quad_strings demo_quad)" if q: "q \<in> quads_in demo_rdf_prep M" for q
  proof -
    from q obtain f where f: "f \<in> M" "f = prep_fact_from_quad rdf_config demo_rdf_prep q"
      and r: "registered rdf_config (prep_predicates demo_rdf_prep) (predicate q)"
      unfolding quads_in_def prep_quad_from_fact_iff [OF p] by (auto simp: demo_rdf_prep_def)
    have "term_of_node (subject q) = term_of_node (subject demo_quad)" "object q = object demo_quad"
      "graph_value (graph_name q) = graph_value (graph_name demo_quad)"
      using demo_rdf_model [OF run f(1)] f(2) by (simp_all add: prep_fact_from_quad_def demo_rdf_prep_def Fact_new_def)
    then have e: "subject q = subject demo_quad" "object q = object demo_quad" "graph_name q = graph_name demo_quad"
      unfolding term_of_node_inject graph_value_inject .
    have "predicate q \<in> snd ` set (prep_predicates demo_rdf_prep)"
      using r unfolding registered_def by (metis map_of_SomeD snd_conv image_eqI)
    then have "predicate q = \<lparr>iri = ''pp''\<rparr> \<or> predicate q = \<lparr>iri = ''qqqqq''\<rparr>"
      by (simp add: demo_rdf_prep_def)
    then show ?thesis
      unfolding quad_strings_demo unfolding quad_strings_def e by (auto simp: demo_quad_def)
  qed
  moreover have "stored_strings (interner demo_dataset) \<subseteq> quad_strings demo_quad" by (rule demo_dataset_strings)
  ultimately show ?thesis unfolding closure_strings_def prep by blast
qed

lemma demo_rdf_distinguishes: "distinguishes length_hash (insert ''qqqqq'' (quad_strings demo_quad))"
  unfolding quad_strings_demo by (rule length_hash_distinguishes) (auto simp: u64_max_def)

section \<open>Properties\<close>

text \<open>
  C11. The closure of a dataset is the model of the program: what \<open>evaluate\<close> returns has the base unchanged,
  inferred quads none of which is in the base, their union as the entailed dataset, and the entailed quads
  are exactly those that the facts of the model of the prepared program stand for.
\<close>

theorem rdf_closure_correct:
  assumes "dataset_ok base" and "constants_ok (rules program)"
    and "length (concat (map rule_atoms (rules program))) < 2 ^ 32"
  shows "case rdf_evaluate cfg h program base of
      Inl e \<Rightarrow> True
    | Inr c \<Rightarrow> closure_base c = base \<and> closure_profile c = program_profile program \<and>
        dataset_ok (closure_inference c) \<and> dataset_ok (closure_entailed c) \<and>
        quads_of (closure_inference c) \<inter> quads_of base = {} \<and>
        quads_of (closure_entailed c) = quads_of base \<union> quads_of (closure_inference c) \<and>
        (\<exists>prep M. run_of cfg program base prep M \<and> quads_of (closure_entailed c) = quads_in prep M)"
proof (cases "rdf_evaluate cfg h program base")
  case (Inr c)
  from rdf_evaluate_closure [OF assms Inr] show ?thesis unfolding Inr sum.case closure_ok_def .
qed simp

theorem rdf_closure_correct_witness:
  "case rdf_evaluate rdf_config length_hash demo_rdf_program demo_dataset of
      Inl e \<Rightarrow> True
    | Inr c \<Rightarrow> closure_base c = demo_dataset \<and> demo_quad \<in> quads_of (closure_entailed c) \<and>
        demo_quad \<notin> quads_of (closure_inference c)"
  using rdf_closure_correct [OF demo_dataset_ok demo_rdf_constants demo_rdf_small, of rdf_config length_hash]
  by (auto split: sum.splits)

text \<open>
  C13. An evaluation over a dataset fails to return only on a hash collision: if \<open>evaluate\<close> is stuck, one of the
  two hashers, that of the base and that of the new inference dataset, gives the same hash to two of the
  strings that the base stores or that the entailed quads contain.
\<close>

theorem rdf_evaluate_returns:
  assumes "dataset_ok base" and "constants_ok (rules program)"
    and "length (concat (map rule_atoms (rules program))) < 2 ^ 32"
    and "\<And>prep M. run_of cfg program base prep M \<Longrightarrow>
      distinguishes h (closure_strings prep base M) \<and> distinguishes (hasher (interner base)) (closure_strings prep base M)"
  shows "rdf_evaluate cfg h program base \<noteq> Inl Stuck"
  using rdf_evaluate_stuck [OF assms(1-3)] assms(4) by blast

theorem rdf_evaluate_returns_witness:
  "rdf_evaluate rdf_config length_hash demo_rdf_program demo_dataset \<noteq> Inl Stuck"
proof (rule rdf_evaluate_returns [OF demo_dataset_ok demo_rdf_constants demo_rdf_small])
  fix prep M
  assume "run_of rdf_config demo_rdf_program demo_dataset prep M"
  from inj_on_subset [OF demo_rdf_distinguishes [unfolded distinguishes_def] demo_rdf_strings [OF this]]
  show "distinguishes length_hash (closure_strings prep demo_dataset M) \<and>
      distinguishes (hasher (interner demo_dataset)) (closure_strings prep demo_dataset M)"
    by (simp add: distinguishes_def demo_dataset_hasher)
qed

text \<open>
  C12. Specialisation does not change the answer: for a program that is also valid as it is written, the
  model of the compiled program, with one relation per predicate, stands for exactly the quads whose facts
  are in the model of the program over the single quad relation.
\<close>

theorem rdf_specialisation_equivalent:
  assumes "dataset_ok base" and "PreparedRdfProgram_new cfg program base = Inr prep"
    and "prepared program vp" and "prepared (prep_program prep) vp'"
  shows "quads_in prep (program_model sk vp' (prep_fact_from_quad cfg prep ` quads_of base)) =
    {q. fact_from_quad q \<in> program_model sk vp (fact_from_quad ` quads_of base)}"
  using PreparedRdfProgram_new_correct [OF assms(1,2)] assms(3,4) by (rule quads_in_specialized)

theorem rdf_specialisation_equivalent_witness:
  "\<exists>vp vp'. prepared demo_rdf_program vp \<and> prepared (prep_program demo_rdf_prep) vp' \<and> prep_specialized demo_rdf_prep \<and>
    quads_in demo_rdf_prep (program_model (\<lambda>_. VDefaultGraph) vp' (prep_fact_from_quad rdf_config demo_rdf_prep ` {demo_quad})) =
    {q. fact_from_quad q \<in> program_model (\<lambda>_. VDefaultGraph) vp (fact_from_quad ` {demo_quad})}"
proof -
  obtain vp vp' where vp: "prepared demo_rdf_program vp" "prepared (prep_program demo_rdf_prep) vp'"
    using demo_rdf_prepared demo_rdf_prepared' by blast
  moreover have "prep_specialized demo_rdf_prep" by (simp add: demo_rdf_prep_def)
  ultimately show ?thesis
    using rdf_specialisation_equivalent [OF demo_dataset_ok demo_rdf_new vp, of "\<lambda>_. VDefaultGraph"]
    unfolding quads_of_demo by blast
qed

text \<open>The predicates that the rules and the base use.\<close>

definition used_predicates :: "Program \<Rightarrow> Dataset \<Rightarrow> NamedNode set" where
  "used_predicates program base = predicate ` quads_of base \<union>
     (\<Union>r\<in>set (rules program). \<Union> (atom_predicates ` set (rule_atoms r)))"

lemma used_registered:
  "specializes cfg program (quads_of base) ps \<Longrightarrow> p \<in> used_predicates program base \<Longrightarrow> registered cfg ps p"
  unfolding specializes_def used_predicates_def by blast

text \<open>
  C28. Predicates are never conflated: in a prepared program that is specialised, the predicates of the rules
  and of the base have different relations, whatever the digest does, and none of these is a relation the
  program uses itself.
\<close>

theorem specialised_predicates_distinct:
  assumes "dataset_ok base" and "PreparedRdfProgram_new cfg program base = Inr prep" and "prep_specialized prep"
  shows "inj_on (predicate_relation cfg) (used_predicates program base) \<and>
    predicate_relation cfg ` used_predicates program base \<inter> set (user_relations program) = {}"
proof -
  have sp: "specializes cfg program (quads_of base) (prep_predicates prep)"
    using PreparedRdfProgram_new_correct [OF assms(1,2)] assms(3) by (simp add: preparation_def)
  note reg = used_registered [OF sp, unfolded registered_def]
  have "map_of (prep_predicates prep) r = None" if "r \<in> set (user_relations program)" for r
    using sp that unfolding specializes_def by (auto simp: user_relations_def)
  note user = this
  have "inj_on (predicate_relation cfg) (used_predicates program base)"
    by (rule inj_onI) (metis reg option.inject)
  moreover have "predicate_relation cfg p \<notin> set (user_relations program)" if "p \<in> used_predicates program base" for p
    using reg [OF that] user by fastforce
  ultimately show ?thesis by blast
qed

theorem specialised_predicates_distinct_witness:
  "inj_on (predicate_relation rdf_config) (used_predicates demo_rdf_program demo_dataset)"
  using specialised_predicates_distinct [OF demo_dataset_ok demo_rdf_new] by (simp add: demo_rdf_prep_def)

text \<open>
  C29. Quads and facts correspond one to one: \<open>quad_from_fact\<close> accepts exactly the facts that
  \<open>fact_from_quad\<close> makes, and gives the quad back.
\<close>

theorem quad_fact_roundtrip: "quad_from_fact f = Inr q \<longleftrightarrow> f = fact_from_quad q"
  by (rule quad_from_fact_iff)

end
