(* ===== verification/Xsd_Integer.thy ===== *)
theory Xsd_Integer
  imports Prelude Rdf_Terms "HOL-Library.Word" "HOL-Library.Signed_Division"
begin

text \<open>
  The XML Schema booleans and integers (\<open>oxsdatatypes/src/boolean.rs\<close>, \<open>integer.rs\<close>) and the operations
  of the signed machine integers they use. A machine integer is an \<open>int\<close> together with the test that
  it fits its width; \<open>sdiv\<close> and \<open>smod\<close> truncate as \<open>/\<close> and \<open>%\<close> do. Conversions from and to floating
  point numbers are not modelled.
\<close>

section \<open>Signed machine integers\<close>

definition fits :: "nat \<Rightarrow> int \<Rightarrow> bool" where
  "fits w x \<longleftrightarrow> - (2 ^ (w - 1)) \<le> x \<and> x < 2 ^ (w - 1)"

definition checked :: "nat \<Rightarrow> int \<Rightarrow> int option" where
  "checked w x = (if fits w x then Some x else None)"

definition int_checked_div :: "nat \<Rightarrow> int \<Rightarrow> int \<Rightarrow> int option" where
  "int_checked_div w x y = (if y = 0 then None else checked w (x sdiv y))"

text \<open>\<open>checked_rem\<close> and \<open>checked_rem_euclid\<close> fail where the quotient overflows, too.\<close>

definition int_checked_rem :: "nat \<Rightarrow> int \<Rightarrow> int \<Rightarrow> int option" where
  "int_checked_rem w x y = (if y = 0 \<or> \<not> fits w (x sdiv y) then None else Some (x smod y))"

definition int_checked_rem_euclid :: "nat \<Rightarrow> int \<Rightarrow> int \<Rightarrow> int option" where
  "int_checked_rem_euclid w x y = (if y = 0 \<or> \<not> fits w (x sdiv y) then None else Some (x mod \<bar>y\<bar>))"

text \<open>Two's complement, most significant byte first.\<close>

fun int_to_be_bytes :: "nat \<Rightarrow> int \<Rightarrow> 8 word list" where
  "int_to_be_bytes 0 x = []"
| "int_to_be_bytes (Suc n) x = int_to_be_bytes n (x div 256) @ [word_of_int x]"

definition int_from_be_bytes :: "8 word list \<Rightarrow> int" where
  "int_from_be_bytes bs =
     (let x = foldl (\<lambda>a b. a * 256 + uint b) 0 bs; w = 8 * length bs
      in if x < 2 ^ (w - 1) then x else x - 2 ^ w)"

datatype IntErrorKind = IntEmpty | InvalidDigit | PosOverflow | NegOverflow

definition to_digit :: "char \<Rightarrow> int option" where
  "to_digit c = (let n = of_char c :: int in if 48 \<le> n \<and> n \<le> 57 then Some (n - 48) else None)"

fun int_digits_loop :: "nat \<Rightarrow> int \<Rightarrow> IntErrorKind \<Rightarrow> int \<Rightarrow> string \<Rightarrow> IntErrorKind + int" where
  "int_digits_loop w sign overflow result [] = Inr result"
| "int_digits_loop w sign overflow result (c # cs) =
     (case to_digit c of None \<Rightarrow> Inl InvalidDigit | Some x \<Rightarrow>
     (case checked w (result * 10) of None \<Rightarrow> Inl overflow | Some r \<Rightarrow>
     (case checked w (r + sign * x) of None \<Rightarrow> Inl overflow | Some r' \<Rightarrow>
        int_digits_loop w sign overflow r' cs)))"

definition int_from_str :: "nat \<Rightarrow> string \<Rightarrow> IntErrorKind + int" where
  "int_from_str w s =
     (case s of
        [] \<Rightarrow> Inl IntEmpty
      | c # cs \<Rightarrow>
          if (c = CHR ''+'' \<or> c = CHR ''-'') \<and> cs = [] then Inl InvalidDigit
          else if c = CHR ''+'' then int_digits_loop w 1 PosOverflow 0 cs
          else if c = CHR ''-'' then int_digits_loop w (-1) NegOverflow 0 cs
          else int_digits_loop w 1 PosOverflow 0 s)"

definition show_int :: "int \<Rightarrow> string" where
  "show_int x = (if x < 0 then ''-'' else []) @ show_nat (nat \<bar>x\<bar>)"

section \<open>Integers\<close>

record Integer =
  integer_value :: int

definition Integer_MAX :: Integer where
  "Integer_MAX = \<lparr>integer_value = 2 ^ 63 - 1\<rparr>"

definition Integer_MIN :: Integer where
  "Integer_MIN = \<lparr>integer_value = - (2 ^ 63)\<rparr>"

definition Integer_from_i64 :: "int \<Rightarrow> Integer" where
  "Integer_from_i64 x = \<lparr>integer_value = x\<rparr>"

definition i64_from_Integer :: "Integer \<Rightarrow> int" where
  "i64_from_Integer i = integer_value i"

definition Integer_from_bool :: "bool \<Rightarrow> Integer" where
  "Integer_from_bool b = \<lparr>integer_value = of_bool b\<rparr>"

definition Integer_from_be_bytes :: "8 word list \<Rightarrow> Integer" where
  "Integer_from_be_bytes bs = \<lparr>integer_value = int_from_be_bytes bs\<rparr>"

definition Integer_to_be_bytes :: "Integer \<Rightarrow> 8 word list" where
  "Integer_to_be_bytes i = int_to_be_bytes 8 (integer_value i)"

definition Integer_checked_add :: "Integer \<Rightarrow> Integer \<Rightarrow> Integer option" where
  "Integer_checked_add a b = map_option Integer_from_i64 (checked 64 (integer_value a + integer_value b))"

definition Integer_checked_sub :: "Integer \<Rightarrow> Integer \<Rightarrow> Integer option" where
  "Integer_checked_sub a b = map_option Integer_from_i64 (checked 64 (integer_value a - integer_value b))"

definition Integer_checked_mul :: "Integer \<Rightarrow> Integer \<Rightarrow> Integer option" where
  "Integer_checked_mul a b = map_option Integer_from_i64 (checked 64 (integer_value a * integer_value b))"

definition Integer_checked_div :: "Integer \<Rightarrow> Integer \<Rightarrow> Integer option" where
  "Integer_checked_div a b = map_option Integer_from_i64 (int_checked_div 64 (integer_value a) (integer_value b))"

definition Integer_checked_rem :: "Integer \<Rightarrow> Integer \<Rightarrow> Integer option" where
  "Integer_checked_rem a b = map_option Integer_from_i64 (int_checked_rem 64 (integer_value a) (integer_value b))"

definition Integer_checked_rem_euclid :: "Integer \<Rightarrow> Integer \<Rightarrow> Integer option" where
  "Integer_checked_rem_euclid a b =
     map_option Integer_from_i64 (int_checked_rem_euclid 64 (integer_value a) (integer_value b))"

definition Integer_checked_neg :: "Integer \<Rightarrow> Integer option" where
  "Integer_checked_neg a = map_option Integer_from_i64 (checked 64 (- integer_value a))"

definition Integer_checked_abs :: "Integer \<Rightarrow> Integer option" where
  "Integer_checked_abs a = map_option Integer_from_i64 (checked 64 \<bar>integer_value a\<bar>)"

definition Integer_is_negative :: "Integer \<Rightarrow> bool" where
  "Integer_is_negative a \<longleftrightarrow> integer_value a < 0"

definition Integer_is_positive :: "Integer \<Rightarrow> bool" where
  "Integer_is_positive a \<longleftrightarrow> integer_value a > 0"

definition Integer_is_identical_with :: "Integer \<Rightarrow> Integer \<Rightarrow> bool" where
  "Integer_is_identical_with a b \<longleftrightarrow> a = b"

definition Integer_from_str :: "string \<Rightarrow> IntErrorKind + Integer" where
  "Integer_from_str s = map_sum id Integer_from_i64 (int_from_str 64 s)"

definition Integer_fmt :: "Integer \<Rightarrow> string" where
  "Integer_fmt a = show_int (integer_value a)"

section \<open>Booleans\<close>

record Boolean =
  boolean_value :: bool

definition Boolean_from_bool :: "bool \<Rightarrow> Boolean" where
  "Boolean_from_bool b = \<lparr>boolean_value = b\<rparr>"

definition bool_from_Boolean :: "Boolean \<Rightarrow> bool" where
  "bool_from_Boolean b = boolean_value b"

definition Boolean_is_identical_with :: "Boolean \<Rightarrow> Boolean \<Rightarrow> bool" where
  "Boolean_is_identical_with a b \<longleftrightarrow> a = b"

definition Boolean_from_Integer :: "Integer \<Rightarrow> Boolean" where
  "Boolean_from_Integer i = Boolean_from_bool (i \<noteq> Integer_from_i64 0)"

definition Integer_from_Boolean :: "Boolean \<Rightarrow> Integer" where
  "Integer_from_Boolean b = Integer_from_bool (bool_from_Boolean b)"

text \<open>\<open>bool::from_str\<close> accepts the words only; \<open>None\<close> is its error.\<close>

definition bool_from_str :: "string \<Rightarrow> bool option" where
  "bool_from_str s = (if s = ''true'' then Some True else if s = ''false'' then Some False else None)"

definition Boolean_from_str :: "string \<Rightarrow> Boolean option" where
  "Boolean_from_str s = map_option Boolean_from_bool
     (if s = ''true'' \<or> s = ''1'' then Some True
      else if s = ''false'' \<or> s = ''0'' then Some False
      else bool_from_str s)"

definition Boolean_fmt :: "Boolean \<Rightarrow> string" where
  "Boolean_fmt b = (if boolean_value b then ''true'' else ''false'')"

section \<open>Reading back what is printed\<close>

lemma fits_between: "fits w y \<Longrightarrow> 0 \<le> x \<and> x \<le> y \<or> y \<le> x \<and> x \<le> 0 \<Longrightarrow> fits w x"
  by (auto simp: fits_def intro: le_less_trans)

lemma to_digit_digit_char: "d < 10 \<Longrightarrow> to_digit (digit_char d) = Some (int d)"
proof -
  assume d: "d < 10"
  have "(of_char (digit_char d) :: int) = int (of_char (digit_char d))" by (simp add: of_nat_of_char)
  also have "of_char (digit_char d) = 48 + d" using of_char_digit [of d] d by simp
  finally show ?thesis using d by (simp add: to_digit_def Let_def)
qed

text \<open>The part of a number that its leading digits make lies between 0 and the number.\<close>

lemma fits_prefix:
  assumes "fits w (sign * int n)" and "sign = 1 \<or> sign = -1" and "m \<le> n"
  shows "fits w (sign * int m)"
  by (rule fits_between [OF assms(1)]) (use assms(2,3) in auto)

lemma int_digits_loop_digit:
  assumes "fits w (sign * int (10 * m + d))" and "sign = 1 \<or> sign = -1" and "d < 10"
  shows "int_digits_loop w sign ov (sign * int m) (digit_char d # cs) = int_digits_loop w sign ov (sign * int (10 * m + d)) cs"
proof -
  have "fits w (sign * int (10 * m))" by (rule fits_prefix [OF assms(1,2)]) simp
  then have "checked w (sign * int m * 10) = Some (sign * int m * 10)" by (simp add: checked_def algebra_simps)
  moreover have "checked w (sign * int m * 10 + sign * int d) = Some (sign * int (10 * m + d))"
    using assms(1) by (simp add: checked_def algebra_simps)
  ultimately show ?thesis using assms(3) by (simp add: to_digit_digit_char)
qed

lemma int_digits_loop_show:
  "fits w (sign * int n) \<Longrightarrow> sign = 1 \<or> sign = -1 \<Longrightarrow>
    int_digits_loop w sign ov 0 (show_base 10 n @ cs) = int_digits_loop w sign ov (sign * int n) cs"
proof (induction "10::nat" n arbitrary: cs rule: show_base.induct)
  case (1 n)
  show ?case
  proof (cases "n < 10")
    case True
    with int_digits_loop_digit [of w sign 0 n ov cs] 1(2,3) show ?thesis by (simp add: show_base.simps [of 10 n])
  next
    case False
    have "fits w (sign * int (n div 10))" by (rule fits_prefix [OF 1(2,3)]) simp
    then have IH: "int_digits_loop w sign ov 0 (show_base 10 (n div 10) @ digit_char (n mod 10) # cs) =
        int_digits_loop w sign ov (sign * int (n div 10)) (digit_char (n mod 10) # cs)"
      using 1(1) False 1(3) by simp
    have "10 * (n div 10) + n mod 10 = n" by simp
    with int_digits_loop_digit [of w sign "n div 10" "n mod 10" ov cs] 1(2,3) IH False show ?thesis
      by (simp add: show_base.simps [of 10 n])
  qed
qed

lemma show_nat_first: "\<exists>d cs. d < 10 \<and> show_nat n = digit_char d # cs"
proof -
  obtain c cs where c: "show_nat n = c # cs" unfolding show_nat_def by (cases "show_base 10 n") simp_all
  then show ?thesis using show_base_digits [of 10 c n] by (auto simp: show_nat_def)
qed

lemma digit_char_not_sign: "d < 10 \<Longrightarrow> digit_char d \<noteq> CHR ''+'' \<and> digit_char d \<noteq> CHR ''-'' \<and> digit_char d \<noteq> CHR ''.''"
  using to_digit_digit_char [of d] by (auto simp: to_digit_def Let_def)

lemma int_from_str_show:
  assumes "fits w x"
  shows "int_from_str w (show_int x) = Inr x"
proof (cases "x < 0")
  case True
  have "fits w (-1 * int (nat \<bar>x\<bar>))" using assms True by simp
  from int_digits_loop_show [OF this, of NegOverflow "[]"] True show ?thesis
    by (simp add: int_from_str_def show_int_def show_nat_def)
next
  case False
  obtain d cs where d: "d < 10" "show_nat (nat \<bar>x\<bar>) = digit_char d # cs" using show_nat_first by blast
  have "fits w (1 * int (nat \<bar>x\<bar>))" using assms False by simp
  from int_digits_loop_show [OF this, of PosOverflow "[]"] d False digit_char_not_sign [OF d(1)] show ?thesis
    by (simp add: int_from_str_def show_int_def show_nat_def)
qed

section \<open>Reading back bytes\<close>

lemma length_int_to_be_bytes [simp]: "length (int_to_be_bytes n x) = n"
  by (induction n arbitrary: x) simp_all

lemma foldl_be_bytes: "foldl (\<lambda>a b. a * 256 + uint b) 0 (int_to_be_bytes n x) = x mod 256 ^ n"
proof (induction n arbitrary: x)
  case (Suc n)
  have "uint (word_of_int x :: 8 word) = x mod 256" by (simp add: uint_word_of_int)
  moreover have "x mod 256 ^ Suc n = x div 256 mod 256 ^ n * 256 + x mod 256"
    using zmod_zmult2_eq [of "256 ^ n" x 256] by (simp add: mult.commute)
  ultimately show ?case using Suc.IH [of "x div 256"] by simp
qed simp

lemma int_be_bytes:
  assumes "fits (8 * n) x" and "0 < n"
  shows "int_from_be_bytes (int_to_be_bytes n x) = x"
proof -
  define h where "h = (2::int) ^ (8 * n - 1)"
  have p: "(256::int) ^ n = 2 * h" "(2::int) ^ (8 * n) = 2 * h"
  proof -
    have "(2::int) ^ (8 * n) = 2 ^ Suc (8 * n - 1)" using assms(2) by simp
    then show "(2::int) ^ (8 * n) = 2 * h" by (simp add: h_def)
    then show "(256::int) ^ n = 2 * h" by (simp add: power_mult)
  qed
  have x: "- h \<le> x" "x < h" using assms(1) by (simp_all add: fits_def h_def)
  have "x mod (2 * h) = (if 0 \<le> x then x else x + 2 * h)"
  proof (cases "0 \<le> x")
    case False
    have "(x + 2 * h) mod (2 * h) = x + 2 * h" by (rule mod_pos_pos_trivial) (use x False in linarith)+
    with False show ?thesis by simp
  qed (use x in simp)
  with x show ?thesis
    unfolding int_from_be_bytes_def Let_def foldl_be_bytes length_int_to_be_bytes p h_def [symmetric] by simp
qed

end
