(* ===== verification/Xsd_Decimal.thy ===== *)
theory Xsd_Decimal
  imports Xsd_Integer
begin

text \<open>
  The XML Schema decimals (\<open>oxsdatatypes/src/decimal.rs\<close>): fixed-point numbers, a 128-bit signed
  integer that counts units of \<open>10 ^ -18\<close>, with the checked arithmetic, the rounding functions, the
  conversions, the parser and the formatter. Conversions from and to floating point numbers are not
  modelled.
\<close>

section \<open>Representation\<close>

definition DECIMAL_PART_DIGITS :: nat where
  "DECIMAL_PART_DIGITS = 18"

definition DECIMAL_PART_POW :: int where
  "DECIMAL_PART_POW = 1000000000000000000"

definition DECIMAL_PART_POW_MINUS_ONE :: int where
  "DECIMAL_PART_POW_MINUS_ONE = 100000000000000000"

record Decimal =
  decimal_value :: int

abbreviation decimal :: "int \<Rightarrow> Decimal" where
  "decimal v \<equiv> \<lparr>decimal_value = v\<rparr>"

definition Decimal_MAX :: Decimal where
  "Decimal_MAX = decimal (2 ^ 127 - 1)"

definition Decimal_MIN :: Decimal where
  "Decimal_MIN = decimal (- (2 ^ 127))"

text \<open>\<open>TooLargeForDecimalError\<close> has no content: \<open>None\<close>.\<close>

definition Decimal_new :: "int \<Rightarrow> nat \<Rightarrow> Decimal option" where
  "Decimal_new i n =
     (if n > DECIMAL_PART_DIGITS then None
      else map_option decimal (checked 128 (i * 10 ^ (DECIMAL_PART_DIGITS - n))))"

definition Decimal_from_be_bytes :: "8 word list \<Rightarrow> Decimal" where
  "Decimal_from_be_bytes bs = decimal (int_from_be_bytes bs)"

definition Decimal_to_be_bytes :: "Decimal \<Rightarrow> 8 word list" where
  "Decimal_to_be_bytes d = int_to_be_bytes 16 (decimal_value d)"

section \<open>Arithmetic\<close>

definition Decimal_checked_add :: "Decimal \<Rightarrow> Decimal \<Rightarrow> Decimal option" where
  "Decimal_checked_add a b = map_option decimal (checked 128 (decimal_value a + decimal_value b))"

definition Decimal_checked_sub :: "Decimal \<Rightarrow> Decimal \<Rightarrow> Decimal option" where
  "Decimal_checked_sub a b = map_option decimal (checked 128 (decimal_value a - decimal_value b))"

text \<open>The loop that divides by ten while that is exact, run on a number other than 0.\<close>

function shift_right_loop :: "int \<Rightarrow> nat \<Rightarrow> int \<times> nat" where
  "shift_right_loop x n =
     (if x \<noteq> 0 \<and> x smod 10 = 0 then shift_right_loop (x sdiv 10) (Suc n) else (x, n))"
  by auto
termination
proof (relation "measure (\<lambda>(x, n). nat \<bar>x\<bar>)")
  fix x :: int and n :: nat
  assume "x \<noteq> 0 \<and> x smod 10 = 0"
  then have "\<bar>x sdiv 10\<bar> < \<bar>x\<bar>" by (auto simp: signed_divide_int_def abs_mult sgn_if)
  then show "((x sdiv 10, Suc n), (x, n)) \<in> measure (\<lambda>(x, n). nat \<bar>x\<bar>)" by simp
qed simp

text \<open>The loop that multiplies by ten while that does not overflow, run on a number other than 0.\<close>

function shift_left_loop :: "int \<Rightarrow> nat \<Rightarrow> int \<times> nat" where
  "shift_left_loop x n =
     (if x \<noteq> 0 \<and> fits 128 (x * 10) then shift_left_loop (x * 10) (Suc n) else (x, n))"
  by auto
termination
proof (relation "measure (\<lambda>(x, n). nat (2 ^ 128 - \<bar>x\<bar>))")
  fix x :: int and n :: nat
  assume "x \<noteq> 0 \<and> fits 128 (x * 10)"
  then have "\<bar>x * 10\<bar> \<le> 2 ^ 127" "\<bar>x\<bar> < \<bar>x * 10\<bar>" by (auto simp: fits_def)
  then show "((x * 10, Suc n), (x, n)) \<in> measure (\<lambda>(x, n). nat (2 ^ 128 - \<bar>x\<bar>))" by simp
qed simp

declare shift_right_loop.simps [simp del] shift_left_loop.simps [simp del]

definition Decimal_checked_mul :: "Decimal \<Rightarrow> Decimal \<Rightarrow> Decimal option" where
  "Decimal_checked_mul a b =
     (let (left, shift_left) = shift_right_loop (decimal_value a) 0;
          (right, shift_right) = shift_right_loop (decimal_value b) 0
      in if shift_left + shift_right < DECIMAL_PART_DIGITS then None
         else
           (let shift = shift_left + shift_right - DECIMAL_PART_DIGITS in
            Option.bind (checked 128 (left * right)) (\<lambda>product.
            Option.bind (checked 128 (10 ^ shift)) (\<lambda>power.
              map_option decimal (checked 128 (product * power))))))"

definition Decimal_checked_div :: "Decimal \<Rightarrow> Decimal \<Rightarrow> Decimal option" where
  "Decimal_checked_div a b =
     (let (left, shift_left) = shift_left_loop (decimal_value a) 0;
          (right, shift_right) = shift_right_loop (decimal_value b) 0
      in if shift_left + shift_right < DECIMAL_PART_DIGITS then None
         else
           (let shift = shift_left + shift_right - DECIMAL_PART_DIGITS in
            Option.bind (int_checked_div 128 left right) (\<lambda>quotient.
            Option.bind (checked 128 (10 ^ shift)) (\<lambda>power.
              map_option decimal (int_checked_div 128 quotient power)))))"

definition Decimal_checked_rem :: "Decimal \<Rightarrow> Decimal \<Rightarrow> Decimal option" where
  "Decimal_checked_rem a b = map_option decimal (int_checked_rem 128 (decimal_value a) (decimal_value b))"

definition Decimal_checked_rem_euclid :: "Decimal \<Rightarrow> Decimal \<Rightarrow> Decimal option" where
  "Decimal_checked_rem_euclid a b =
     map_option decimal (int_checked_rem_euclid 128 (decimal_value a) (decimal_value b))"

definition Decimal_checked_neg :: "Decimal \<Rightarrow> Decimal option" where
  "Decimal_checked_neg a = map_option decimal (checked 128 (- decimal_value a))"

definition Decimal_checked_abs :: "Decimal \<Rightarrow> Decimal option" where
  "Decimal_checked_abs a = map_option decimal (checked 128 \<bar>decimal_value a\<bar>)"

definition Decimal_checked_round :: "Decimal \<Rightarrow> Decimal option" where
  "Decimal_checked_round a =
     (let v = decimal_value a sdiv DECIMAL_PART_POW_MINUS_ONE
      in map_option decimal (checked 128
           ((if v \<ge> 0 then v sdiv 10 + of_bool (v smod 10 \<ge> 5)
             else v sdiv 10 - of_bool ((- v) smod 10 > 5)) * DECIMAL_PART_POW)))"

definition Decimal_checked_ceil :: "Decimal \<Rightarrow> Decimal option" where
  "Decimal_checked_ceil a =
     map_option decimal (checked 128
       ((if decimal_value a > 0 \<and> decimal_value a smod DECIMAL_PART_POW \<noteq> 0
         then decimal_value a sdiv DECIMAL_PART_POW + 1
         else decimal_value a sdiv DECIMAL_PART_POW) * DECIMAL_PART_POW))"

definition Decimal_checked_floor :: "Decimal \<Rightarrow> Decimal option" where
  "Decimal_checked_floor a =
     map_option decimal (checked 128
       ((if decimal_value a \<ge> 0 \<or> decimal_value a smod DECIMAL_PART_POW = 0
         then decimal_value a sdiv DECIMAL_PART_POW
         else decimal_value a sdiv DECIMAL_PART_POW - 1) * DECIMAL_PART_POW))"

definition Decimal_is_negative :: "Decimal \<Rightarrow> bool" where
  "Decimal_is_negative a \<longleftrightarrow> decimal_value a < 0"

definition Decimal_is_positive :: "Decimal \<Rightarrow> bool" where
  "Decimal_is_positive a \<longleftrightarrow> decimal_value a > 0"

definition Decimal_is_identical_with :: "Decimal \<Rightarrow> Decimal \<Rightarrow> bool" where
  "Decimal_is_identical_with a b \<longleftrightarrow> a = b"

definition as_i128 :: "Decimal \<Rightarrow> int" where
  "as_i128 a = decimal_value a sdiv DECIMAL_PART_POW"

section \<open>Conversions\<close>

definition Decimal_from_bool :: "bool \<Rightarrow> Decimal" where
  "Decimal_from_bool b = decimal (of_bool b * DECIMAL_PART_POW)"

definition Decimal_from_i64 :: "int \<Rightarrow> Decimal" where
  "Decimal_from_i64 i = decimal (i * DECIMAL_PART_POW)"

definition Decimal_from_u64 :: "nat \<Rightarrow> Decimal" where
  "Decimal_from_u64 i = decimal (int i * DECIMAL_PART_POW)"

definition Decimal_from_Integer :: "Integer \<Rightarrow> Decimal" where
  "Decimal_from_Integer i = Decimal_from_i64 (i64_from_Integer i)"

definition Decimal_try_from_i128 :: "int \<Rightarrow> Decimal option" where
  "Decimal_try_from_i128 i = map_option decimal (checked 128 (i * DECIMAL_PART_POW))"

definition Decimal_try_from_u128 :: "nat \<Rightarrow> Decimal option" where
  "Decimal_try_from_u128 i =
     Option.bind (checked 128 (int i)) (\<lambda>i. map_option decimal (checked 128 (i * DECIMAL_PART_POW)))"

definition Decimal_from_Boolean :: "Boolean \<Rightarrow> Decimal" where
  "Decimal_from_Boolean b = Decimal_from_bool (bool_from_Boolean b)"

definition Boolean_from_Decimal :: "Decimal \<Rightarrow> Boolean" where
  "Boolean_from_Decimal d = Boolean_from_bool (d \<noteq> Decimal_from_i64 0)"

definition Integer_try_from_Decimal :: "Decimal \<Rightarrow> Integer option" where
  "Integer_try_from_Decimal d =
     Option.bind (int_checked_div 128 (decimal_value d) DECIMAL_PART_POW) (\<lambda>i.
       map_option Integer_from_i64 (checked 64 i))"

section \<open>Parsing\<close>

datatype DecimalParseErrorKind = DecimalOverflow | DecimalUnderflow | DecimalUnexpectedChar | DecimalUnexpectedEnd

definition push_digit :: "int \<Rightarrow> int \<Rightarrow> int \<Rightarrow> int option" where
  "push_digit sign acc x = Option.bind (checked 128 (acc * 10)) (\<lambda>v. checked 128 (v + sign * x))"

fun integer_part_loop :: "int \<Rightarrow> int \<Rightarrow> string \<Rightarrow> DecimalParseErrorKind + int \<times> string" where
  "integer_part_loop sign acc [] = Inr (acc, [])"
| "integer_part_loop sign acc (c # cs) =
     (case to_digit c of
        None \<Rightarrow> Inr (acc, c # cs)
      | Some x \<Rightarrow>
          (case push_digit sign acc x of
             None \<Rightarrow> Inl DecimalOverflow
           | Some v \<Rightarrow> integer_part_loop sign v cs))"

fun decimal_part_loop :: "int \<Rightarrow> int \<Rightarrow> int \<Rightarrow> string \<Rightarrow> DecimalParseErrorKind + int \<times> int" where
  "decimal_part_loop sign acc ex [] = Inr (acc, ex)"
| "decimal_part_loop sign acc ex (c # cs) =
     (case to_digit c of
        None \<Rightarrow> Inl DecimalUnexpectedChar
      | Some x \<Rightarrow>
          (case push_digit sign acc x of
             None \<Rightarrow> Inl DecimalOverflow
           | Some v \<Rightarrow> decimal_part_loop sign v (ex sdiv 10) cs))"

definition drop_trailing_zeros :: "string \<Rightarrow> string" where
  "drop_trailing_zeros s = rev (dropWhile (\<lambda>c. c = CHR ''0'') (rev s))"

definition split_sign :: "string \<Rightarrow> int \<times> string" where
  "split_sign s =
     (case s of
        [] \<Rightarrow> (1, [])
      | c # cs \<Rightarrow> if c = CHR ''+'' then (1, cs) else if c = CHR ''-'' then (-1, cs) else (1, c # cs))"

definition finish_decimal :: "int \<Rightarrow> int \<Rightarrow> DecimalParseErrorKind + Decimal" where
  "finish_decimal v ex =
     (case checked 128 (v * ex) of None \<Rightarrow> Inl DecimalOverflow | Some r \<Rightarrow> Inr (decimal r))"

definition Decimal_from_str :: "string \<Rightarrow> DecimalParseErrorKind + Decimal" where
  "Decimal_from_str s =
     (if s = [] then Inl DecimalUnexpectedEnd
      else
        (case split_sign s of (sign, input) \<Rightarrow>
           (let with_before_dot = (case input of [] \<Rightarrow> False | c # _ \<Rightarrow> to_digit c \<noteq> None) in
            (case integer_part_loop sign 0 input of
               Inl e \<Rightarrow> Inl e
             | Inr (v, []) \<Rightarrow>
                 if \<not> with_before_dot then Inl DecimalUnexpectedEnd else finish_decimal v DECIMAL_PART_POW
             | Inr (v, c # rest) \<Rightarrow>
                 if c \<noteq> CHR ''.'' then Inl DecimalUnexpectedChar
                 else if rest = [] \<and> \<not> with_before_dot then Inl DecimalUnexpectedEnd
                 else
                   (case decimal_part_loop sign v DECIMAL_PART_POW (drop_trailing_zeros rest) of
                      Inl e \<Rightarrow> Inl e
                    | Inr (v, ex) \<Rightarrow> if ex = 0 then Inl DecimalUnderflow else finish_decimal v ex)))))"

section \<open>Formatting\<close>

text \<open>The digits of a number other than 0, least significant first.\<close>

function fmt_digits :: "int \<Rightarrow> string" where
  "fmt_digits v = (if v = 0 then [] else digit_char (nat \<bar>v smod 10\<bar>) # fmt_digits (v sdiv 10))"
  by auto
termination
proof (relation "measure (\<lambda>v. nat \<bar>v\<bar>)")
  fix v :: int
  assume "v \<noteq> 0"
  then have "\<bar>v sdiv 10\<bar> < \<bar>v\<bar>" by (auto simp: signed_divide_int_def abs_mult sgn_if)
  then show "(v sdiv 10, v) \<in> measure (\<lambda>v. nat \<bar>v\<bar>)" by simp
qed simp

declare fmt_digits.simps [simp del]

text \<open>\<open>&xs[a..b]\<close>, which panics out of range.\<close>

definition slice :: "nat \<Rightarrow> nat \<Rightarrow> 'a list \<Rightarrow> 'a list option" where
  "slice a b xs = (if a \<le> b \<and> b \<le> length xs then Some (take (b - a) (drop a xs)) else None)"

definition fmt_integer_end :: "nat option \<Rightarrow> bool \<Rightarrow> nat \<Rightarrow> nat option" where
  "fmt_integer_end width negative last_non_zero =
     (case width of
        None \<Rightarrow> Some (last_non_zero + 1)
      | Some w \<Rightarrow>
          if negative \<and> w = 0 then None
          else
            (let w = (if negative then w - 1 else w)
             in Some (if last_non_zero - DECIMAL_PART_DIGITS + 1 < w then DECIMAL_PART_DIGITS + w
                      else last_non_zero + 1)))"

definition fmt_decimal_start :: "nat option \<Rightarrow> nat \<Rightarrow> nat" where
  "fmt_decimal_start precision first_non_zero =
     (case precision of
        None \<Rightarrow> first_non_zero
      | Some p \<Rightarrow>
          if DECIMAL_PART_DIGITS - first_non_zero > p then DECIMAL_PART_DIGITS - p else first_non_zero)"

text \<open>\<open>None\<close> is a panic: an underflow of the width or a slice out of the array of 40 digits.\<close>

definition Decimal_fmt :: "nat option \<Rightarrow> nat option \<Rightarrow> Decimal \<Rightarrow> string option" where
  "Decimal_fmt width precision d =
     (if decimal_value d = 0
      then Some (case width of Some w \<Rightarrow> replicate w (CHR ''0'') | None \<Rightarrow> ''0'')
      else
        (let negative = decimal_value d < 0;
             ds = fmt_digits (decimal_value d);
             digits = ds @ replicate (40 - length ds) (CHR ''0'');
             last_non_zero = length ds - 1;
             first_non_zero = length (takeWhile (\<lambda>c. c = CHR ''0'') digits)
         in if length ds > 40 then None
            else
              Option.bind
                (if last_non_zero \<ge> DECIMAL_PART_DIGITS
                 then Option.bind (fmt_integer_end width negative last_non_zero) (\<lambda>end.
                        map_option rev (slice DECIMAL_PART_DIGITS end digits))
                 else Some ''0'') (\<lambda>integer_part.
              Option.bind
                (if DECIMAL_PART_DIGITS > first_non_zero
                 then map_option (\<lambda>s. ''.'' @ rev s)
                        (slice (fmt_decimal_start precision first_non_zero) DECIMAL_PART_DIGITS digits)
                 else Some []) (\<lambda>decimal_part.
              Some ((if negative then ''-'' else []) @ integer_part @ decimal_part)))))"

end
