(* ===== verification/Xsd_Decimal_Correct.thy ===== *)
theory Xsd_Decimal_Correct
  imports Xsd_Decimal
begin

text \<open>
  Correctness of the decimal arithmetic: what a product, a quotient and the rounding functions return,
  when they fail, and that printing and reading are inverse.
\<close>

section \<open>Ranges and shifts\<close>

lemma pow10_bound: "10 ^ s \<le> (2 ^ 127 :: int) \<longleftrightarrow> s < 39"
proof
  assume le: "10 ^ s \<le> (2 ^ 127 :: int)"
  show "s < 39"
  proof (rule ccontr)
    assume "\<not> s < 39"
    then have "(10 ^ 39 :: int) \<le> 10 ^ s" by (intro power_increasing) auto
    with le show False by simp
  qed
next
  assume "s < 39"
  then have "(10 ^ s :: int) \<le> 10 ^ 38" by (intro power_increasing) auto
  then show "10 ^ s \<le> (2 ^ 127 :: int)" by simp
qed

lemma fits_pow10: "fits 128 (10 ^ s) \<longleftrightarrow> s < 39"
proof
  assume "fits 128 (10 ^ s)"
  then show "s < 39" by (simp add: fits_def flip: pow10_bound)
next
  assume "s < 39"
  then have "(10 ^ s :: int) \<le> 10 ^ 38" by (intro power_increasing) auto
  moreover have "(10 ^ 38 :: int) < 2 ^ 127" by simp
  ultimately have "(10 ^ s :: int) < 2 ^ 127" by linarith
  moreover have "- (2 ^ 127) \<le> (0 :: int)" "(0 :: int) \<le> 10 ^ s" by simp_all
  then have "- (2 ^ 127) \<le> (10 ^ s :: int)" by linarith
  ultimately show "fits 128 (10 ^ s)" unfolding fits_def by simp
qed

lemma shift_right_loop_step:
  "x \<noteq> 0 \<Longrightarrow> x smod 10 = 0 \<Longrightarrow> shift_right_loop x n = shift_right_loop (x sdiv 10) (Suc n)"
  by (subst shift_right_loop.simps) simp

lemma shift_right_loop_stop: "\<not> (x \<noteq> 0 \<and> x smod 10 = 0) \<Longrightarrow> shift_right_loop x n = (x, n)"
  by (subst shift_right_loop.simps) (simp only: if_False)

lemma shift_right_loop_correct:
  "shift_right_loop x n = (l, k) \<Longrightarrow> n \<le> k \<and> x = l * 10 ^ (k - n) \<and> (x \<noteq> 0 \<longrightarrow> l \<noteq> 0) \<and> (x = 0 \<longrightarrow> k = n)"
proof (induction x n arbitrary: l k rule: shift_right_loop.induct)
  case (1 x n)
  show ?case
  proof (cases "x \<noteq> 0 \<and> x smod 10 = 0")
    case True
    have x: "x sdiv 10 * 10 = x" using sdiv_mult_smod_eq [of x 10] True by linarith
    have "shift_right_loop (x sdiv 10) (Suc n) = (l, k)"
      using 1(2) shift_right_loop_step [of x n] True by metis
    note IH = 1(1) [OF True this]
    have k: "Suc n \<le> k" using IH by (rule conjunct1)
    have "x sdiv 10 = l * 10 ^ (k - Suc n)" using IH by blast
    moreover have "k - n = Suc (k - Suc n)" using k by simp
    then have "l * 10 ^ (k - n) = l * 10 ^ (k - Suc n) * 10" by (simp only: power_Suc mult_ac)
    ultimately have e: "x = l * 10 ^ (k - n)" using x by metis
    then have "l \<noteq> 0" using True by (metis mult_zero_left)
    with e k True show ?thesis by (metis Suc_leD)
  next
    case False
    from 1(2) [unfolded shift_right_loop_stop [OF False]] show ?thesis by auto
  qed
qed

lemma shift_left_loop_correct:
  "shift_left_loop x n = (l, k) \<Longrightarrow> fits 128 x \<Longrightarrow> n \<le> k \<and> l = x * 10 ^ (k - n) \<and> fits 128 l"
proof (induction x n arbitrary: l k rule: shift_left_loop.induct)
  case (1 x n)
  show ?case
  proof (cases "x \<noteq> 0 \<and> fits 128 (x * 10)")
    case True
    then have "shift_left_loop (x * 10) (Suc n) = (l, k)"
      using 1(2) by (subst (asm) shift_left_loop.simps) simp
    from 1(1) [OF True this] True have k: "Suc n \<le> k" "l = x * 10 * 10 ^ (k - Suc n)" "fits 128 l" by auto
    then have "k - n = Suc (k - Suc n)" by simp
    with k show ?thesis by simp
  next
    case False
    with 1(2) have "(x, n) = (l, k)" by (subst (asm) shift_left_loop.simps) (simp only: if_False)
    with 1(3) show ?thesis by auto
  qed
qed

text \<open>The trailing zeros of a number as the code counts them, none for 0.\<close>

definition trailing :: "int \<Rightarrow> nat" where
  "trailing x = snd (shift_right_loop x 0)"

lemma trailing_factor:
  obtains l where "shift_right_loop x 0 = (l, trailing x)" and "l * 10 ^ trailing x = x"
    and "x \<noteq> 0 \<longrightarrow> l \<noteq> 0"
proof -
  obtain l where l: "shift_right_loop x 0 = (l, trailing x)" unfolding trailing_def by (cases "shift_right_loop x 0") simp
  note F = shift_right_loop_correct [OF l, unfolded diff_zero]
  show ?thesis
  proof (rule that [OF l])
    show "l * 10 ^ trailing x = x" using F by (elim conjE) (rule sym)
    show "x \<noteq> 0 \<longrightarrow> l \<noteq> 0" using F by blast
  qed
qed

lemma trailing_0 [simp]: "trailing 0 = 0"
  by (simp add: trailing_def shift_right_loop_stop)

lemma pow10_le_multiple:
  assumes "(l::int) \<noteq> 0"
  shows "10 ^ n \<le> \<bar>l * 10 ^ n\<bar>"
proof -
  have "1 * 10 ^ n \<le> \<bar>l\<bar> * (10 ^ n :: int)" using assms by (intro mult_right_mono) auto
  then show ?thesis by (simp add: abs_mult)
qed

lemma fits_abs: "fits 128 x \<Longrightarrow> \<bar>x\<bar> \<le> 2 ^ 127"
  by (auto simp: fits_def)

lemma trailing_bound:
  assumes "fits 128 x"
  shows "trailing x < 39"
proof (cases "x = 0")
  case False
  obtain l where l: "shift_right_loop x 0 = (l, trailing x)" "l * 10 ^ trailing x = x" "x \<noteq> 0 \<longrightarrow> l \<noteq> 0"
    by (rule trailing_factor)
  have "10 ^ trailing x \<le> \<bar>x\<bar>" using pow10_le_multiple [of l "trailing x"] l(3) False unfolding l(2) by blast
  also have "\<dots> \<le> 2 ^ 127" by (rule fits_abs [OF assms])
  finally show ?thesis unfolding pow10_bound .
qed simp

section \<open>Products\<close>

lemma fits_factor:
  assumes "fits w (x * p)" and "1 \<le> p"
  shows "fits w x"
proof (cases "0 \<le> x")
  case True
  then have "x * 1 \<le> x * p" using assms(2) by (intro mult_left_mono) auto
  with True show ?thesis by (intro fits_between [OF assms(1)]) simp
next
  case False
  then have "x * p \<le> x * 1" using assms(2) by (intro mult_left_mono_neg) auto
  with False show ?thesis by (intro fits_between [OF assms(1)]) simp
qed

lemma fits_power_factor:
  assumes "fits 128 (x * 10 ^ s)" and "x \<noteq> 0"
  shows "s < 39"
  using order_trans [OF pow10_le_multiple [OF assms(2)] fits_abs [OF assms(1)]] unfolding pow10_bound .

lemma checked_product:
  assumes "l * r = 0 \<Longrightarrow> s < 39"
  shows "Option.bind (checked 128 (l * r)) (\<lambda>product. Option.bind (checked 128 (10 ^ s)) (\<lambda>power.
      map_option decimal (checked 128 (product * power)))) = map_option decimal (checked 128 (l * r * 10 ^ s))"
proof (cases "fits 128 (l * r * 10 ^ s)")
  case True
  then have "fits 128 (l * r)" by (rule fits_factor) simp
  moreover have "fits 128 (10 ^ s)"
    using fits_power_factor [OF True] assms unfolding fits_pow10 by blast
  ultimately show ?thesis by (simp add: checked_def)
next
  case False
  then show ?thesis by (simp add: checked_def)
qed

text \<open>A product is computed when the operands have eighteen trailing zeros between them, and then exactly.\<close>

lemma Decimal_checked_mul_eq:
  assumes a: "fits 128 (decimal_value a)" and b: "fits 128 (decimal_value b)"
    and t: "18 \<le> trailing (decimal_value a) + trailing (decimal_value b)"
  shows "\<exists>v. decimal_value a * decimal_value b = v * 10 ^ 18 \<and>
    Decimal_checked_mul a b = map_option decimal (checked 128 v)"
proof -
  let ?a = "decimal_value a" and ?b = "decimal_value b"
  obtain l where l: "shift_right_loop ?a 0 = (l, trailing ?a)" "l * 10 ^ trailing ?a = ?a" "?a \<noteq> 0 \<longrightarrow> l \<noteq> 0"
    by (rule trailing_factor)
  obtain r where r: "shift_right_loop ?b 0 = (r, trailing ?b)" "r * 10 ^ trailing ?b = ?b" "?b \<noteq> 0 \<longrightarrow> r \<noteq> 0"
    by (rule trailing_factor)
  define s where "s = trailing ?a + trailing ?b - 18"
  have "?a * ?b = (l * 10 ^ trailing ?a) * (r * 10 ^ trailing ?b)" unfolding l(2) r(2) ..
  also have "\<dots> = l * r * 10 ^ (trailing ?a + trailing ?b)" by (simp only: power_add mult_ac)
  also have "trailing ?a + trailing ?b = s + 18" using t by (simp add: s_def)
  also have "l * r * 10 ^ (s + 18) = l * r * 10 ^ s * 10 ^ 18" by (simp only: power_add mult_ac)
  finally have prod: "?a * ?b = l * r * 10 ^ s * 10 ^ 18" .
  have "s < 39" if "l * r = 0"
  proof -
    have "?a = 0 \<or> ?b = 0" using that l(3) r(3) by auto
    then show ?thesis using trailing_bound [OF a] trailing_bound [OF b] by (auto simp: s_def)
  qed
  note product = checked_product [OF this]
  have "Decimal_checked_mul a b = Option.bind (checked 128 (l * r)) (\<lambda>product.
      Option.bind (checked 128 (10 ^ s)) (\<lambda>power. map_option decimal (checked 128 (product * power))))"
    using t by (simp add: Decimal_checked_mul_def l(1) r(1) DECIMAL_PART_DIGITS_def s_def)
  also note product
  finally have "Decimal_checked_mul a b = map_option decimal (checked 128 (l * r * 10 ^ s))" .
  with prod show ?thesis by blast
qed

lemma Decimal_checked_mul_None:
  assumes "trailing (decimal_value a) + trailing (decimal_value b) < 18"
  shows "Decimal_checked_mul a b = None"
  using assms
  by (simp add: Decimal_checked_mul_def DECIMAL_PART_DIGITS_def trailing_def case_prod_beta)

section \<open>Quotients\<close>

lemma sdiv_sdiv:
  fixes x r p :: int
  assumes "0 < p"
  shows "(x sdiv r) sdiv p = x sdiv (r * p)"
proof -
  have q: "\<bar>x\<bar> div \<bar>r * p\<bar> = \<bar>x\<bar> div \<bar>r\<bar> div p"
    using assms by (simp add: abs_mult zdiv_zmult2_eq)
  show ?thesis
  proof (cases "\<bar>x\<bar> div \<bar>r\<bar> = 0")
    case True
    with q show ?thesis by (simp add: signed_divide_int_def)
  next
    case False
    have "0 \<le> \<bar>x\<bar> div \<bar>r\<bar>" by (cases "r = 0") (simp_all add: pos_imp_zdiv_nonneg_iff)
    with False have pos: "0 < \<bar>x\<bar> div \<bar>r\<bar>" by simp
    moreover have "x \<noteq> 0" "r \<noteq> 0" using False by auto
    ultimately show ?thesis
      using assms q by (simp add: signed_divide_int_def sgn_mult abs_mult)
  qed
qed

lemma sdiv_mult_cancel: "0 < c \<Longrightarrow> (x * c) sdiv (y * c) = x sdiv y" for x y c :: int
  by (simp add: signed_divide_int_def sgn_mult abs_mult)

text \<open>The number of tens by which a dividend is scaled.\<close>

definition scaling :: "int \<Rightarrow> nat" where
  "scaling x = snd (shift_left_loop x 0)"

lemma Decimal_checked_div_eq:
  assumes a: "fits 128 (decimal_value a)" and "Decimal_checked_div a b = Some d"
  shows "decimal_value b \<noteq> 0 \<and> decimal_value d = (decimal_value a * 10 ^ 18) sdiv decimal_value b \<and> fits 128 (decimal_value d)"
proof -
  let ?a = "decimal_value a" and ?b = "decimal_value b"
  obtain l k where lk: "shift_left_loop ?a 0 = (l, k)" by (cases "shift_left_loop ?a 0")
  have l: "l = ?a * 10 ^ k" using shift_left_loop_correct [OF lk a] by simp
  obtain r where r: "shift_right_loop ?b 0 = (r, trailing ?b)" "r * 10 ^ trailing ?b = ?b" "?b \<noteq> 0 \<longrightarrow> r \<noteq> 0"
    by (rule trailing_factor)
  define t where "t = trailing ?b"
  have t: "18 \<le> k + t" and run: "Option.bind (int_checked_div 128 l r) (\<lambda>quotient.
      Option.bind (checked 128 (10 ^ (k + t - 18))) (\<lambda>power. map_option decimal (int_checked_div 128 quotient power))) = Some d"
    using assms(2) by (simp_all add: Decimal_checked_div_def lk r(1) DECIMAL_PART_DIGITS_def t_def split: if_splits)
  define s where "s = k + t - 18"
  from run have d: "r \<noteq> 0" "decimal_value d = (l sdiv r) sdiv 10 ^ s" "fits 128 (decimal_value d)"
    by (auto simp: int_checked_div_def checked_def s_def split: if_splits)
  have "decimal_value d = l sdiv (r * 10 ^ s)" unfolding d(2) by (rule sdiv_sdiv) simp
  also have "\<dots> = (l * 10 ^ 18) sdiv (r * 10 ^ s * 10 ^ 18)" by (rule sdiv_mult_cancel [symmetric]) simp
  also have "r * 10 ^ s * 10 ^ 18 = r * 10 ^ (s + 18)" by (simp only: power_add mult_ac)
  also have "s + 18 = k + t" using t by (simp add: s_def)
  also have "r * 10 ^ (k + t) = r * 10 ^ t * 10 ^ k" by (simp only: power_add mult_ac)
  also have "r * 10 ^ t = ?b" unfolding t_def by (rule r(2))
  also have "l * 10 ^ 18 = ?a * 10 ^ 18 * 10 ^ k" unfolding l by (simp only: mult_ac)
  also have "(?a * 10 ^ 18 * 10 ^ k) sdiv (?b * 10 ^ k) = (?a * 10 ^ 18) sdiv ?b" by (rule sdiv_mult_cancel) simp
  finally have "decimal_value d = (?a * 10 ^ 18) sdiv ?b" .
  moreover have "?b \<noteq> 0" using d(1) r(2) by auto
  ultimately show ?thesis using d(3) by blast
qed

section \<open>Rounding\<close>

lemma sdiv_pos: "0 \<le> x \<Longrightarrow> 0 < p \<Longrightarrow> x sdiv p = x div p" for x p :: int
  by (cases "x = 0") (simp_all add: signed_divide_int_def)

lemma sdiv_neg: "x \<le> 0 \<Longrightarrow> 0 < p \<Longrightarrow> x sdiv p = - ((- x) div p)" for x p :: int
  by (cases "x = 0") (simp_all add: signed_divide_int_def)

lemma smod_eq_0: "0 < p \<Longrightarrow> x smod p = 0 \<longleftrightarrow> x mod p = 0" for x p :: int
  by (cases "x = 0") (auto simp: signed_modulo_int_def sgn_if mod_eq_0_iff_dvd)

lemma neg_div: "0 < p \<Longrightarrow> - ((- x) div p) = (if x mod p = 0 then x div p else x div p + 1)" for x p :: int
  by (simp add: zdiv_zminus1_eq_if)

lemma Decimal_checked_floor_eq:
  "Decimal_checked_floor a = map_option decimal (checked 128 (decimal_value a div 10 ^ 18 * 10 ^ 18))"
proof -
  have P: "DECIMAL_PART_POW = 10 ^ 18" "0 < DECIMAL_PART_POW" by (simp_all add: DECIMAL_PART_POW_def)
  have "(if decimal_value a \<ge> 0 \<or> decimal_value a smod DECIMAL_PART_POW = 0
      then decimal_value a sdiv DECIMAL_PART_POW else decimal_value a sdiv DECIMAL_PART_POW - 1) =
      decimal_value a div DECIMAL_PART_POW"
    by (cases "0 \<le> decimal_value a") (simp_all add: sdiv_pos sdiv_neg smod_eq_0 neg_div P(2))
  then show ?thesis unfolding Decimal_checked_floor_def P(1) by simp
qed

lemma Decimal_checked_ceil_eq:
  "Decimal_checked_ceil a = map_option decimal (checked 128 (- ((- decimal_value a) div 10 ^ 18) * 10 ^ 18))"
proof -
  have P: "DECIMAL_PART_POW = 10 ^ 18" "0 < DECIMAL_PART_POW" by (simp_all add: DECIMAL_PART_POW_def)
  have "(if decimal_value a > 0 \<and> decimal_value a smod DECIMAL_PART_POW \<noteq> 0
      then decimal_value a sdiv DECIMAL_PART_POW + 1 else decimal_value a sdiv DECIMAL_PART_POW) =
      - ((- decimal_value a) div DECIMAL_PART_POW)"
    by (cases "0 < decimal_value a") (simp_all add: sdiv_pos sdiv_neg smod_eq_0 neg_div P(2))
  then show ?thesis unfolding Decimal_checked_ceil_def P(1) by simp
qed

text \<open>
  \<open>round_half_up v\<close> is the multiple of \<open>10 ^ 18\<close> nearest to \<open>v\<close>, the greater one of two. The code
  drops all digits after the first decimal one before it compares with a half.
\<close>

definition round_half_up :: "int \<Rightarrow> int" where
  "round_half_up v = (v + 5 * 10 ^ 17) div 10 ^ 18"

definition misrounded :: "int \<Rightarrow> bool" where
  "misrounded v \<longleftrightarrow> v < 0 \<and> 5 * 10 ^ 17 < (- v) mod 10 ^ 18 \<and> (- v) mod 10 ^ 18 < 6 * 10 ^ 17"

lemma div_10_18: "x div 10 ^ 18 = x div 10 ^ 17 div 10" for x :: int
proof -
  have "(10 ^ 18 :: int) = 10 ^ 17 * 10" by simp
  then show ?thesis using zdiv_zmult2_eq [of 10 x "10 ^ 17"] by simp
qed

lemma div_carry:
  fixes w c :: int
  assumes "0 \<le> c" and "c < 10"
  shows "(w + c) div 10 = w div 10 + of_bool (10 \<le> w mod 10 + c)"
proof -
  define x where "x = w mod 10 + c"
  have x: "0 \<le> x" "x < 20" using assms pos_mod_bound [of 10 w] pos_mod_sign [of 10 w] by (simp_all add: x_def)
  have "w + c = x + w div 10 * 10" unfolding x_def using div_mult_mod_eq [of w 10] by linarith
  then have "(w + c) div 10 = w div 10 + x div 10" by simp
  moreover have "x div 10 = of_bool (10 \<le> x)"
    using x int_div_pos_eq [of x 10 1 "x - 10"] by (cases "10 \<le> x") simp_all
  ultimately show ?thesis by (simp add: x_def)
qed

lemma tenths: "w div 10 + of_bool (w mod 10 \<ge> 5) = (w + 5) div 10" for w :: int
  by (simp add: div_carry)

lemma tenths_neg: "w div 10 + of_bool (w mod 10 > 5) = (w + 4) div 10" for w :: int
proof -
  have "w mod 10 > 5 \<longleftrightarrow> 10 \<le> w mod 10 + 4" by linarith
  then show ?thesis by (simp add: div_carry)
qed

lemma smod_pos: "0 \<le> x \<Longrightarrow> 0 < p \<Longrightarrow> x smod p = x mod p" for x p :: int
  by (cases "x = 0") (simp_all add: signed_modulo_int_def)

lemma round_pos: "round_half_up v = (v div 10 ^ 17 + 5) div 10"
proof -
  have "(v + 5 * 10 ^ 17) div 10 ^ 17 = v div 10 ^ 17 + 5" by simp
  then show ?thesis unfolding round_half_up_def div_10_18 by (simp only:)
qed

lemma round_neg_digits:
  "(5 - u - of_bool b) div 10 + of_bool (u mod 10 = 5 \<and> b) = - ((u + 4) div 10)" for u :: int
proof -
  define q d where "q = u div 10" and "d = u mod 10"
  have u: "u = d + q * 10" and d: "0 \<le> d" "d < 10" by (simp_all add: q_def d_def)
  have "(5 - u - of_bool b) div 10 = (5 - d - of_bool b) div 10 - q"
  proof -
    have "5 - u - of_bool b = (5 - d - of_bool b) + (- q) * 10" by (simp add: u)
    then show ?thesis by simp
  qed
  moreover have "(5 - d - of_bool b) div 10 = - of_bool (5 < d + of_bool b)"
    using d int_div_pos_eq [of "5 - d - of_bool b" 10 "- 1" "15 - d - of_bool b"]
    by (cases "5 < d + of_bool b") (auto simp: of_bool_def split: if_splits)
  moreover have "(u + 4) div 10 = q + of_bool (6 \<le> d)" by (simp add: div_carry q_def d_def)
  ultimately show ?thesis using d unfolding d_def [symmetric] by (cases b) (auto simp: of_bool_def)
qed

text \<open>For a negative number, with \<open>u\<close> its tenths towards 0 and \<open>e\<close> the rest.\<close>

lemma round_neg:
  assumes "v < 0"
  shows "round_half_up v + of_bool (misrounded v) = - (((- v) div 10 ^ 17 + 4) div 10)"
proof -
  define u e where "u = (- v) div 10 ^ 17" and "e = (- v) mod 10 ^ 17"
  have v: "v = - (u * 10 ^ 17 + e)" and e: "0 \<le> e" "e < 10 ^ 17" by (simp_all add: u_def e_def)
  have "v div 10 ^ 17 = - u - of_bool (e \<noteq> 0)"
  proof (cases "e = 0")
    case False
    then have "v = (- u - 1) * 10 ^ 17 + (10 ^ 17 - e)" "0 \<le> 10 ^ 17 - e" "10 ^ 17 - e < 10 ^ 17"
      using v e by (simp_all add: algebra_simps)
    then show ?thesis using False by (simp add: int_div_pos_eq)
  qed (simp add: v)
  then have r: "round_half_up v = (5 - u - of_bool (e \<noteq> 0)) div 10" by (simp add: round_pos algebra_simps)
  have "(- v) mod 10 ^ 18 = (u mod 10) * 10 ^ 17 + e"
  proof -
    have "(10 ^ 18 :: int) = 10 ^ 17 * 10" by simp
    then have "(- v) mod 10 ^ 18 = 10 ^ 17 * ((- v) div 10 ^ 17 mod 10) + (- v) mod 10 ^ 17"
      by (simp only: zmod_zmult2_eq)
    then show ?thesis by (simp add: u_def e_def)
  qed
  then have m: "misrounded v \<longleftrightarrow> u mod 10 = 5 \<and> e \<noteq> 0"
    using assms e by (auto simp: misrounded_def)
  show ?thesis
    unfolding r m u_def [symmetric] round_neg_digits by (rule refl)
qed

lemma Decimal_checked_round_eq:
  "Decimal_checked_round a = map_option decimal (checked 128
     ((round_half_up (decimal_value a) + of_bool (misrounded (decimal_value a))) * 10 ^ 18))"
proof -
  define v where "v = decimal_value a"
  define w where "w = v sdiv 10 ^ 17"
  have "(if w \<ge> 0 then w sdiv 10 + of_bool (w smod 10 \<ge> 5) else w sdiv 10 - of_bool ((- w) smod 10 > 5)) =
      round_half_up v + of_bool (misrounded v)"
  proof (cases "0 \<le> v")
    case True
    then have w: "w = v div 10 ^ 17" "0 \<le> w" by (simp_all add: w_def sdiv_pos pos_imp_zdiv_nonneg_iff)
    have "w sdiv 10 = w div 10" "w smod 10 = w mod 10" using w(2) by (simp_all add: sdiv_pos smod_pos)
    then show ?thesis using True w(2) tenths [of w] by (simp add: misrounded_def round_pos w(1))
  next
    case False
    define u where "u = (- v) div 10 ^ 17"
    have u: "w = - u" "0 \<le> u" using False by (simp_all add: w_def u_def sdiv_neg pos_imp_zdiv_nonneg_iff)
    have "(if w \<ge> 0 then w sdiv 10 + of_bool (w smod 10 \<ge> 5) else w sdiv 10 - of_bool ((- w) smod 10 > 5)) =
        - ((u + 4) div 10)"
      using u(2) tenths_neg [of u] unfolding u(1) by (cases "u = 0") (simp_all add: sdiv_pos smod_pos)
    with round_neg [of v] False show ?thesis unfolding u_def by simp
  qed
  note core = this
  have P: "DECIMAL_PART_POW_MINUS_ONE = 10 ^ 17" "DECIMAL_PART_POW = 10 ^ 18"
    by (simp_all add: DECIMAL_PART_POW_MINUS_ONE_def DECIMAL_PART_POW_def)
  show ?thesis
    unfolding Decimal_checked_round_def Let_def P v_def [symmetric] w_def [symmetric] core ..
qed

section \<open>Printing and reading\<close>

text \<open>The digit of \<open>m\<close> at a position, counted from the least significant one.\<close>

definition digit_at :: "nat \<Rightarrow> nat \<Rightarrow> char" where
  "digit_at m i = digit_char (m div 10 ^ i mod 10)"

lemma nat_abs_sdiv: "nat \<bar>v sdiv 10\<bar> = nat \<bar>v\<bar> div 10" for v :: int
  by (cases "v = 0") (simp_all add: signed_divide_int_def abs_mult nat_div_distrib)

lemma nat_abs_smod: "nat \<bar>v smod 10\<bar> = nat \<bar>v\<bar> mod 10" for v :: int
  by (cases "v = 0") (simp_all add: signed_modulo_int_def abs_mult nat_mod_distrib)

lemma fmt_digits_eq:
  "fmt_digits v = map (digit_at (nat \<bar>v\<bar>)) [0..<length (fmt_digits v)] \<and> nat \<bar>v\<bar> < 10 ^ length (fmt_digits v) \<and>
    (v \<noteq> 0 \<longrightarrow> fmt_digits v \<noteq> [] \<and> 10 ^ (length (fmt_digits v) - 1) \<le> nat \<bar>v\<bar>)"
proof (induction v rule: fmt_digits.induct)
  case (1 v)
  show ?case
  proof (cases "v = 0")
    case True
    then show ?thesis by (simp add: fmt_digits.simps [of 0])
  next
    case False
    define m n where "m = nat \<bar>v\<bar>" and "n = length (fmt_digits (v sdiv 10))"
    have eq: "fmt_digits v = digit_char (m mod 10) # fmt_digits (v sdiv 10)"
      using False by (simp add: fmt_digits.simps [of v] nat_abs_smod m_def)
    note IH = 1 [OF False, unfolded nat_abs_sdiv, folded m_def n_def]
    have "digit_at (m div 10) i = digit_at m (Suc i)" for i
      by (simp add: digit_at_def div_mult2_eq)
    then have "fmt_digits (v sdiv 10) = map (\<lambda>i. digit_at m (Suc i)) [0..<n]" using IH by simp
    then have "fmt_digits v = map (digit_at m) [0..<Suc n]"
      unfolding eq upt_conv_Cons [OF zero_less_Suc] by (simp add: digit_at_def map_Suc_upt [symmetric] del: upt_Suc)
    moreover have len: "length (fmt_digits v) = Suc n" by (simp add: eq n_def)
    moreover have "m < 10 ^ Suc n"
    proof -
      have "m div 10 < 10 ^ n" using IH by blast
      then have "m < 10 ^ n * 10" by (rule div_less_iff_less_mult [THEN iffD1, rotated]) simp
      then show ?thesis by simp
    qed
    moreover have "10 ^ n \<le> m"
    proof (cases "v sdiv 10 = 0")
      case True
      then have "n = 0" by (simp add: n_def fmt_digits.simps [of 0])
      then show ?thesis using False by (simp add: m_def)
    next
      case nz: False
      then have "10 ^ (n - 1) \<le> m div 10" and "0 < n" using IH by (auto simp: n_def)
      then have "10 ^ (n - 1) * 10 \<le> m" by (simp add: less_eq_div_iff_mult_less_eq)
      then show ?thesis using \<open>0 < n\<close> by (cases n) simp_all
    qed
    ultimately show ?thesis unfolding m_def [symmetric] len by (simp add: eq)
  qed
qed

lemma push_digit_at:
  assumes "fits 128 (sign * int m)" and "sign = 1 \<or> sign = -1"
  shows "to_digit (digit_at m i) = Some (int (m div 10 ^ i mod 10))"
    and "push_digit sign (sign * int (m div 10 ^ Suc i)) (int (m div 10 ^ i mod 10)) = Some (sign * int (m div 10 ^ i))"
proof -
  define n where "n = m div 10 ^ i"
  have "m div (10 ^ i * 10) = m div 10 ^ i div 10" by (rule div_mult2_eq)
  then have n: "m div 10 ^ Suc i = n div 10" by (simp only: n_def power_Suc mult.commute)
  have split: "10 * (n div 10) + n mod 10 = n" by simp
  have le: "n \<le> m" by (simp add: n_def)
  have "10 * (n div 10) \<le> m" using le split by linarith
  then have "fits 128 (sign * int (10 * (n div 10)))" by (rule fits_prefix [OF assms])
  moreover have "sign * int (10 * (n div 10)) = sign * int (n div 10) * 10" by simp
  ultimately have "fits 128 (sign * int (n div 10) * 10)" by (simp only:)
  moreover have "sign * int (n div 10) * 10 + sign * int (n mod 10) = sign * int (10 * (n div 10) + n mod 10)"
    by (simp only: of_nat_add of_nat_mult of_nat_numeral distrib_left mult_ac)
  then have "sign * int (n div 10) * 10 + sign * int (n mod 10) = sign * int n" by (simp only: split)
  moreover have "fits 128 (sign * int n)" by (rule fits_prefix [OF assms le])
  ultimately show "push_digit sign (sign * int (m div 10 ^ Suc i)) (int (m div 10 ^ i mod 10)) = Some (sign * int (m div 10 ^ i))"
    unfolding n n_def [symmetric] push_digit_def checked_def by (simp only: if_True bind.bind_lunit)
  show "to_digit (digit_at m i) = Some (int (m div 10 ^ i mod 10))"
    unfolding digit_at_def by (rule to_digit_digit_char) simp
qed

lemma integer_part_loop_digits:
  assumes "fits 128 (sign * int m)" and "sign = 1 \<or> sign = -1"
  shows "integer_part_loop sign (sign * int (m div 10 ^ (a + n))) (rev (map (digit_at m) [a..<a + n]) @ rest) =
    integer_part_loop sign (sign * int (m div 10 ^ a)) rest"
proof (induction n)
  case (Suc n)
  then show ?case using push_digit_at [OF assms, of "a + n"] by simp
qed simp

lemma decimal_part_loop_digits:
  assumes "fits 128 (sign * int m)" and "sign = 1 \<or> sign = -1"
  shows "decimal_part_loop sign (sign * int (m div 10 ^ (a + n))) (10 ^ (a + n)) (rev (map (digit_at m) [a..<a + n])) =
    Inr (sign * int (m div 10 ^ a), 10 ^ a)"
proof (induction n)
  case (Suc n)
  have "(10 ^ (a + Suc n) :: int) sdiv 10 = 10 ^ (a + n)" by (simp add: sdiv_pos)
  then show ?case using push_digit_at [OF assms, of "a + n"] Suc by simp
qed simp

lemma digit_at_zero: "digit_at m i = CHR ''0'' \<longleftrightarrow> m div 10 ^ i mod 10 = 0"
proof
  assume "digit_at m i = CHR ''0''"
  then have "to_digit (digit_at m i) = Some 0" by (simp add: to_digit_def Let_def)
  moreover have "to_digit (digit_at m i) = Some (int (m div 10 ^ i mod 10))"
    unfolding digit_at_def by (rule to_digit_digit_char) simp
  ultimately show "m div 10 ^ i mod 10 = 0" by simp
qed (simp add: digit_at_def)

lemma zero_digits_dvd: "(\<And>i. i < t \<Longrightarrow> digit_at m i = CHR ''0'') \<Longrightarrow> 10 ^ t dvd m"
proof (induction t)
  case (Suc t)
  then have "10 ^ t dvd m" and "m div 10 ^ t mod 10 = 0" by (simp_all flip: digit_at_zero)
  then obtain k where "m = 10 ^ t * k" and "10 dvd k" by (auto elim!: dvdE simp: mod_eq_0_iff_dvd)
  then show ?case by (auto simp: mult.assoc)
qed simp

text \<open>The text of a number that is not 0: \<open>n\<close> digits, of which the \<open>t\<close> least significant ones are 0.\<close>

definition integer_text :: "nat \<Rightarrow> nat \<Rightarrow> string" where
  "integer_text m n = (if 18 < n then rev (map (digit_at m) [18..<n]) else ''0'')"

definition decimal_text :: "nat \<Rightarrow> nat \<Rightarrow> string" where
  "decimal_text m t = (if t < 18 then CHR ''.'' # rev (map (digit_at m) [t..<18]) else [])"

lemma digits_padded:
  assumes "m < 10 ^ n" and "n \<le> 40"
  shows "map (digit_at m) [0..<n] @ replicate (40 - n) (CHR ''0'') = map (digit_at m) [0..<40]"
proof -
  have "digit_at m i = CHR ''0''" if "n \<le> i" for i
  proof -
    have "m < 10 ^ i" by (rule less_le_trans [OF assms(1)]) (simp add: that power_increasing)
    then show ?thesis by (simp add: digit_at_def)
  qed
  then have "map (digit_at m) [n..<40] = replicate (40 - n) (CHR ''0'')"
    by (intro replicate_eqI) auto
  moreover have "[0..<40] = [0..<n] @ [n..<40]" using upt_add_eq_append [of 0 n "40 - n"] assms(2) by simp
  ultimately show ?thesis by (simp only: map_append)
qed

lemma slice_digits: "b \<le> 40 \<Longrightarrow> a \<le> b \<Longrightarrow> slice a b (map f [0..<40]) = Some (map f [a..<b])"
  by (simp add: slice_def drop_map take_map drop_upt take_upt del: upt_Suc upt_rec_numeral)

lemma nat_abs_bound: "fits 128 v \<Longrightarrow> nat \<bar>v\<bar> < 10 ^ 39"
proof -
  assume "fits 128 v"
  from fits_abs [OF this] have "\<bar>v\<bar> < 10 ^ 39" by (rule le_less_trans) simp
  then show ?thesis by (simp add: nat_less_iff)
qed

lemma Decimal_fmt_text:
  assumes "fits 128 v" and "v \<noteq> 0"
  obtains n t where "nat \<bar>v\<bar> < 10 ^ n" and "10 ^ t dvd nat \<bar>v\<bar>" and "digit_at (nat \<bar>v\<bar>) t \<noteq> CHR ''0''"
    and "Decimal_fmt None None (decimal v) =
      Some ((if v < 0 then ''-'' else []) @ integer_text (nat \<bar>v\<bar>) n @ decimal_text (nat \<bar>v\<bar>) t)"
proof -
  define m n where "m = nat \<bar>v\<bar>" and "n = length (fmt_digits v)"
  have ds: "fmt_digits v = map (digit_at m) [0..<n]" and m: "m < 10 ^ n" "10 ^ (n - 1) \<le> m" and n0: "0 < n"
    using fmt_digits_eq [of v] assms(2) unfolding m_def n_def by (blast, blast, blast, simp)
  have m39: "m < 10 ^ 39" using nat_abs_bound [OF assms(1)] by (simp only: m_def)
  have "n - 1 < 39" using le_less_trans [OF m(2) m39] by (rule power_less_imp_less_exp [rotated]) simp
  then have n: "n \<le> 39" by simp
  let ?digits = "map (digit_at m) [0..<40]"
  define t where "t = length (takeWhile (\<lambda>c. c = CHR ''0'') ?digits)"
  have zero: "digit_at m i = CHR ''0''" if "i < t" for i
  proof -
    have "takeWhile (\<lambda>c. c = CHR ''0'') ?digits ! i = CHR ''0''"
      using nth_mem [OF that [unfolded t_def]] set_takeWhileD by fastforce
    moreover have "i < 40" using that length_takeWhile_le [of "\<lambda>c. c = CHR ''0''" ?digits] by (simp add: t_def)
    ultimately show ?thesis using takeWhile_nth [OF that [unfolded t_def]] by simp
  qed
  have dvd: "10 ^ t dvd m" by (rule zero_digits_dvd) (rule zero)
  have "m \<noteq> 0" using assms(2) by (simp add: m_def)
  with dvd have "10 ^ t \<le> m" by (simp add: dvd_imp_le)
  then have t40: "t < 40" using le_less_trans [OF _ m39] power_less_imp_less_exp [of "10::nat" t 39] by simp
  then have nz: "digit_at m t \<noteq> CHR ''0''"
    using nth_length_takeWhile [of "\<lambda>c. c = CHR ''0''" ?digits] by (simp add: t_def)
  have pad: "fmt_digits v @ replicate (40 - n) (CHR ''0'') = ?digits" unfolding ds by (rule digits_padded [OF m(1)]) (use n in simp)
  have int: "(if n - 1 \<ge> 18 then Option.bind (fmt_integer_end None (v < 0) (n - 1)) (\<lambda>e. map_option rev (slice 18 e ?digits))
      else Some ''0'') = Some (integer_text m n)"
    using n n0 slice_digits [of n 18 "digit_at m"] by (auto simp: fmt_integer_end_def integer_text_def simp del: upt_rec_numeral)
  have dec: "(if 18 > t then map_option (\<lambda>s. ''.'' @ rev s) (slice (fmt_decimal_start None t) 18 ?digits) else Some []) =
      Some (decimal_text m t)"
    using slice_digits [of 18 t "digit_at m"] by (simp add: fmt_decimal_start_def decimal_text_def del: upt_rec_numeral)
  have "Decimal_fmt None None (decimal v) = Some ((if v < 0 then ''-'' else []) @ integer_text m n @ decimal_text m t)"
    unfolding Decimal_fmt_def Let_def Decimal.simps n_def [symmetric] pad t_def [symmetric] DECIMAL_PART_DIGITS_def int dec
    using assms(2) n by simp
  with that m(1) dvd nz show ?thesis unfolding m_def by blast
qed

lemma integer_text_first: "\<exists>d cs. d < 10 \<and> integer_text m n = digit_char d # cs"
proof (cases "18 < n")
  case True
  then have "rev (map (digit_at m) [18..<n]) = digit_at m (n - 1) # rev (map (digit_at m) [18..<n - 1])"
    by (cases n) simp_all
  then have "integer_text m n = digit_char (m div 10 ^ (n - 1) mod 10) # rev (map (digit_at m) [18..<n - 1])"
    using True by (simp only: integer_text_def if_True digit_at_def [of m "n - 1"])
  moreover have "m div 10 ^ (n - 1) mod 10 < 10" by simp
  ultimately show ?thesis by blast
next
  case False
  have "CHR ''0'' = digit_char 0" by simp
  with False show ?thesis unfolding integer_text_def by (metis zero_less_numeral)
qed

lemma integer_part_text:
  assumes f: "fits 128 (sign * int m)" "sign = 1 \<or> sign = -1" and m: "m < 10 ^ n"
  shows "integer_part_loop sign 0 (integer_text m n @ decimal_text m t) = Inr (sign * int (m div 10 ^ 18), decimal_text m t)"
proof -
  have stop: "integer_part_loop sign acc (decimal_text m t) = Inr (acc, decimal_text m t)" for acc
    by (simp add: decimal_text_def to_digit_def Let_def del: upt_rec_numeral)
  show ?thesis
  proof (cases "18 < n")
    case True
    then have "18 + (n - 18) = n" by simp
    with integer_part_loop_digits [OF f, of 18 "n - 18" "decimal_text m t"] True m stop show ?thesis
      by (simp add: integer_text_def del: upt_rec_numeral)
  next
    case False
    have "m < 10 ^ 18" by (rule less_le_trans [OF m]) (use False in \<open>simp add: power_increasing del: power_numeral\<close>)
    moreover have "to_digit (CHR ''0'') = Some 0" by (simp add: to_digit_def Let_def)
    moreover have "push_digit sign 0 0 = Some 0" by (simp add: push_digit_def checked_def fits_def)
    ultimately show ?thesis using False stop by (simp add: integer_text_def)
  qed
qed

lemma Decimal_from_str_text:
  assumes f: "fits 128 (sign * int m)" "sign = 1 \<or> sign = -1" and m: "m < 10 ^ n"
    and t: "10 ^ t dvd m" "digit_at m t \<noteq> CHR ''0''"
    and s: "split_sign s = (sign, integer_text m n @ decimal_text m t)" "s \<noteq> []"
  shows "Decimal_from_str s = Inr (decimal (sign * int m))"
proof -
  obtain d cs where d: "d < 10" "integer_text m n = digit_char d # cs" using integer_text_first by blast
  have wbd: "(case integer_text m n @ decimal_text m t of [] \<Rightarrow> False | c # _ \<Rightarrow> to_digit c \<noteq> None)"
    using d by (simp add: to_digit_digit_char)
  have finish: "finish_decimal (sign * int (m div 10 ^ k)) (10 ^ k) = Inr (decimal (sign * int m))" if "10 ^ k dvd m" for k
  proof -
    have "sign * int (m div 10 ^ k) * 10 ^ k = sign * int (m div 10 ^ k * 10 ^ k)" by simp
    also have "m div 10 ^ k * 10 ^ k = m" using that by simp
    finally have e: "sign * int (m div 10 ^ k) * 10 ^ k = sign * int m" .
    show ?thesis unfolding finish_decimal_def e checked_def using f(1) by simp
  qed
  have P: "DECIMAL_PART_POW = 10 ^ 18" by (simp add: DECIMAL_PART_POW_def)
  show ?thesis
  proof (cases "t < 18")
    case True
    have head: "[t..<18] = t # [Suc t..<18]" using True by (rule upt_conv_Cons)
    have strip: "drop_trailing_zeros (rev (map (digit_at m) [t..<18])) = rev (map (digit_at m) [t..<18])"
      unfolding drop_trailing_zeros_def rev_rev_ident head using t(2) by simp
    have "t + (18 - t) = 18" using True by simp
    with decimal_part_loop_digits [OF f, of t "18 - t"]
    have loop: "decimal_part_loop sign (sign * int (m div 10 ^ 18)) (10 ^ 18) (rev (map (digit_at m) [t..<18])) =
        Inr (sign * int (m div 10 ^ t), 10 ^ t)" by (simp only:)
    have dt: "decimal_text m t = CHR ''.'' # rev (map (digit_at m) [t..<18])" using True by (simp only: decimal_text_def if_True)
    show ?thesis
      unfolding Decimal_from_str_def Let_def s(1) prod.case integer_part_text [OF f m] sum.case P
      using wbd s(2) finish [OF t(1)] by (simp add: dt strip loop del: upt_rec_numeral power_numeral)
  next
    case False
    then have "decimal_text m t = []" by (simp add: decimal_text_def)
    moreover have "(10::nat) ^ 18 dvd 10 ^ t" using False by (intro le_imp_power_dvd) simp
    then have "10 ^ 18 dvd m" using t(1) by (rule dvd_trans)
    ultimately show ?thesis
      unfolding Decimal_from_str_def Let_def s(1) prod.case integer_part_text [OF f m] sum.case P
      using wbd s(2) finish [of 18] by simp
  qed
qed

lemma Decimal_roundtrip:
  assumes "fits 128 v"
  shows "\<exists>s. Decimal_fmt None None (decimal v) = Some s \<and> Decimal_from_str s = Inr (decimal v)"
proof (cases "v = 0")
  case True
  have "Decimal_from_str ''0'' = Inr (decimal 0)" by code_simp
  with True show ?thesis by (simp add: Decimal_fmt_def)
next
  case False
  obtain n t where nt: "nat \<bar>v\<bar> < 10 ^ n" "10 ^ t dvd nat \<bar>v\<bar>" "digit_at (nat \<bar>v\<bar>) t \<noteq> CHR ''0''"
    and fmt: "Decimal_fmt None None (decimal v) =
      Some ((if v < 0 then ''-'' else []) @ integer_text (nat \<bar>v\<bar>) n @ decimal_text (nat \<bar>v\<bar>) t)"
    by (rule Decimal_fmt_text [OF assms False])
  define sign where "sign = (if v < 0 then -1 else 1 :: int)"
  have v: "sign * int (nat \<bar>v\<bar>) = v" "sign = 1 \<or> sign = -1" by (simp_all add: sign_def)
  obtain d cs where d: "d < 10" "integer_text (nat \<bar>v\<bar>) n = digit_char d # cs" using integer_text_first by blast
  have "split_sign ((if v < 0 then ''-'' else []) @ integer_text (nat \<bar>v\<bar>) n @ decimal_text (nat \<bar>v\<bar>) t) =
      (sign, integer_text (nat \<bar>v\<bar>) n @ decimal_text (nat \<bar>v\<bar>) t)"
    using d digit_char_not_sign [OF d(1)] by (simp add: split_sign_def sign_def)
  from Decimal_from_str_text [OF _ v(2) nt this] fmt assms d(2) show ?thesis unfolding v(1) by simp
qed

section \<open>When a quotient is computed\<close>

lemma sdiv_abs_le: "\<bar>x sdiv y\<bar> \<le> \<bar>x\<bar>" for x y :: int
proof -
  have "\<bar>x sdiv y\<bar> \<le> \<bar>x\<bar> div \<bar>y\<bar>"
    by (cases "x = 0"; cases "y = 0") (simp_all add: signed_divide_int_def abs_mult pos_imp_zdiv_nonneg_iff)
  also have "\<dots> \<le> \<bar>x\<bar>"
    using zdiv_mono2 [of "\<bar>x\<bar>" 1 "\<bar>y\<bar>"] by (cases "y = 0") simp_all
  finally show ?thesis .
qed

lemma sdiv_abs_half:
  fixes x y :: int
  assumes "1 < \<bar>y\<bar>" and "x \<noteq> 0"
  shows "\<bar>x sdiv y\<bar> < \<bar>x\<bar>"
proof -
  have "y \<noteq> 0" using assms(1) by auto
  then have "\<bar>x sdiv y\<bar> = \<bar>x\<bar> div \<bar>y\<bar>"
    using assms by (simp add: signed_divide_int_def abs_mult pos_imp_zdiv_nonneg_iff)
  also have "\<dots> < \<bar>x\<bar>" using assms by (intro int_div_less_self) simp_all
  finally show ?thesis .
qed

lemma fits_sdiv:
  assumes x: "fits 128 x" and y: "y \<noteq> 0"
  shows "fits 128 (x sdiv y) \<longleftrightarrow> \<not> (x = - (2 ^ 127) \<and> y = -1)"
proof (cases "x = - (2 ^ 127)")
  case True
  show ?thesis
  proof (cases "\<bar>y\<bar> = 1")
    case one: True
    then have "y = 1 \<or> y = -1" by linarith
    then show ?thesis using True by (auto simp: fits_def)
  next
    case False
    then have "\<bar>x sdiv y\<bar> < 2 ^ 127" using sdiv_abs_half [of y x] y True by simp
    then show ?thesis using False by (auto simp: fits_def)
  qed
next
  case False
  then have "\<bar>x\<bar> < 2 ^ 127" using x by (auto simp: fits_def)
  then have "\<bar>x sdiv y\<bar> < 2 ^ 127" by (rule le_less_trans [OF sdiv_abs_le])
  with False show ?thesis by (auto simp: fits_def)
qed

lemma scaled_minimum: "x * 10 ^ k = - (2 ^ 127) \<longleftrightarrow> x = - (2 ^ 127) \<and> k = 0" for x :: int
proof
  assume e: "x * 10 ^ k = - (2 ^ 127)"
  show "x = - (2 ^ 127) \<and> k = 0"
  proof (cases k)
    case (Suc j)
    then have "x * 10 ^ k = 5 * (x * 2 * 10 ^ j)" by simp
    then have "(5::int) dvd - (2 ^ 127)" unfolding e [symmetric] by (rule dvdI)
    then show ?thesis by simp
  qed (use e in simp)
qed simp

text \<open>A quotient is computed when it is scaled by at least 18 and less than 57 tens and no step overflows.\<close>

definition divisible :: "int \<Rightarrow> int \<Rightarrow> bool" where
  "divisible x y \<longleftrightarrow> y \<noteq> 0 \<and> 18 \<le> scaling x + trailing y \<and> scaling x + trailing y < 57 \<and>
     \<not> (x = - (2 ^ 127) \<and> y = - (10 ^ trailing y))"

lemma scaling_minimum: "scaling (- (2 ^ 127)) = 0"
  by (simp add: scaling_def shift_left_loop.simps fits_def)

lemma Decimal_checked_div_defined:
  assumes a: "fits 128 (decimal_value a)"
  shows "Decimal_checked_div a b \<noteq> None \<longleftrightarrow> divisible (decimal_value a) (decimal_value b)"
proof -
  let ?a = "decimal_value a" and ?b = "decimal_value b"
  obtain l where lk: "shift_left_loop ?a 0 = (l, scaling ?a)" unfolding scaling_def by (cases "shift_left_loop ?a 0") simp
  have l: "l = ?a * 10 ^ scaling ?a" "fits 128 l" using shift_left_loop_correct [OF lk a] by (simp only: diff_zero, blast)
  obtain r where r: "shift_right_loop ?b 0 = (r, trailing ?b)" "r * 10 ^ trailing ?b = ?b" "?b \<noteq> 0 \<longrightarrow> r \<noteq> 0"
    by (rule trailing_factor)
  define s where "s = scaling ?a + trailing ?b - 18"
  have r0: "r = 0 \<longleftrightarrow> ?b = 0" using r(2,3) by auto
  have "?b = r * 10 ^ trailing ?b" by (rule r(2) [symmetric])
  then have r1: "r = -1 \<longleftrightarrow> ?b = - (10 ^ trailing ?b)"
    by (metis mult_minus1 mult_right_cancel power_not_zero zero_neq_numeral)
  have lmin: "l = - (2 ^ 127) \<longleftrightarrow> ?a = - (2 ^ 127)" unfolding l(1) scaled_minimum using scaling_minimum by auto
  have q: "fits 128 (q sdiv 10 ^ s)" if "fits 128 q" for q
  proof -
    have "(0::int) < 10 ^ s" by simp
    then have "(10::int) ^ s \<noteq> 0" "(10::int) ^ s \<noteq> -1" by linarith+
    then show ?thesis using fits_sdiv [OF that, of "10 ^ s"] by blast
  qed
  have "Decimal_checked_div a b = (if 18 \<le> scaling ?a + trailing ?b
      then Option.bind (int_checked_div 128 l r) (\<lambda>quotient. Option.bind (checked 128 (10 ^ s)) (\<lambda>power.
        map_option decimal (int_checked_div 128 quotient power))) else None)"
    by (simp add: Decimal_checked_div_def lk r(1) DECIMAL_PART_DIGITS_def s_def)
  then have "Decimal_checked_div a b \<noteq> None \<longleftrightarrow>
      18 \<le> scaling ?a + trailing ?b \<and> r \<noteq> 0 \<and> fits 128 (l sdiv r) \<and> s < 39"
    using q [of "l sdiv r"] by (auto simp: int_checked_div_def checked_def fits_pow10)
  also have "\<dots> \<longleftrightarrow> divisible ?a ?b"
    using fits_sdiv [OF l(2), of r] unfolding divisible_def r0 r1 lmin s_def by auto
  finally show ?thesis .
qed

section \<open>Properties\<close>





text \<open>
  C25. Rounding of decimals: \<open>checked_floor\<close> and \<open>checked_ceil\<close> return the integers next to the decimal where
  they are representable, and \<open>checked_round\<close> the nearest one, the greater of two, except for a negative
  decimal whose fraction is strictly between 0.5 and 0.6, for which it returns one more than that.
\<close>

theorem decimal_rounding:
  "Decimal_checked_floor a = map_option decimal (checked 128 (decimal_value a div 10 ^ 18 * 10 ^ 18)) \<and>
   Decimal_checked_ceil a = map_option decimal (checked 128 (- ((- decimal_value a) div 10 ^ 18) * 10 ^ 18)) \<and>
   Decimal_checked_round a = map_option decimal (checked 128
     ((round_half_up (decimal_value a) + of_bool (misrounded (decimal_value a))) * 10 ^ 18))"
  by (intro conjI Decimal_checked_floor_eq Decimal_checked_ceil_eq Decimal_checked_round_eq)

text \<open>
  C26. A decimal survives printing: formatting a decimal of the 128-bit range without width and precision does not
  panic, and parsing the text gives the decimal back.
\<close>

theorem decimal_text_roundtrip:
  assumes "fits 128 (decimal_value d)"
  shows "\<exists>s. Decimal_fmt None None d = Some s \<and> Decimal_from_str s = Inr d"
  using Decimal_roundtrip [OF assms] by (cases d) simp

theorem decimal_text_roundtrip_witness:
  "\<exists>s. Decimal_fmt None None Decimal_MIN = Some s \<and> Decimal_from_str s = Inr Decimal_MIN"
  using decimal_text_roundtrip [of Decimal_MIN] by (simp add: Decimal_MIN_def fits_def)

text \<open>
  C27. Integers and decimals survive their encodings: an integer of the 64-bit range is read back from its text and
  from its eight bytes, a decimal of the 128-bit range from its sixteen bytes.
\<close>

theorem xsd_encoding_roundtrip:
  assumes "fits 64 (integer_value i)" and "fits 128 (decimal_value d)"
  shows "Integer_from_str (Integer_fmt i) = Inr i \<and> Integer_from_be_bytes (Integer_to_be_bytes i) = i \<and>
    Decimal_from_be_bytes (Decimal_to_be_bytes d) = d"
  using int_from_str_show [OF assms(1)] int_be_bytes [of 8 "integer_value i"] int_be_bytes [of 16 "decimal_value d"] assms
  by (cases i; cases d) (simp add: Integer_from_str_def Integer_fmt_def Integer_from_i64_def
      Integer_from_be_bytes_def Integer_to_be_bytes_def Decimal_from_be_bytes_def Decimal_to_be_bytes_def)

theorem xsd_encoding_roundtrip_witness:
  "Integer_from_str (Integer_fmt Integer_MIN) = Inr Integer_MIN \<and>
   Decimal_from_be_bytes (Decimal_to_be_bytes Decimal_MIN) = Decimal_MIN"
  using xsd_encoding_roundtrip [of Integer_MIN Decimal_MIN] by (simp add: Integer_MIN_def Decimal_MIN_def fits_def)

section \<open>Boundary cases\<close>

text \<open>With 0 and a half, neither the product nor the quotient is computed.\<close>

lemma decimal_zero_operand_fails:
  "Decimal_checked_mul (decimal 0) (decimal (5 * 10 ^ 17)) = None \<and>
   Decimal_checked_div (decimal 0) (decimal (5 * 10 ^ 17)) = None"
  by code_simp

text \<open>The smallest decimal divided by -10 is representable and is not computed.\<close>

lemma decimal_minimum_quotient_fails:
  "Decimal_checked_div Decimal_MIN (decimal (- (10 ^ 19))) = None \<and>
   fits 128 ((- (2 ^ 127) * 10 ^ 18) sdiv (- (10 ^ 19)))"
proof -
  have "\<not> divisible (- (2 ^ 127)) (- (10 ^ 19))" by code_simp
  then have "Decimal_checked_div Decimal_MIN (decimal (- (10 ^ 19))) = None"
    using Decimal_checked_div_defined [of Decimal_MIN "decimal (- (10 ^ 19))"] by (simp add: Decimal_MIN_def fits_def)
  moreover have "fits 128 ((- (2 ^ 127) * 10 ^ 18) sdiv (- (10 ^ 19)))" by code_simp
  ultimately show ?thesis by blast
qed

end
