(* ===== verification/Spec2Isabelle.thy ===== *)
theory Spec2Isabelle
  imports Datalog_Rdf_Correct Xsd_Decimal_Correct
begin

text \<open>
  \<^bold>\<open>A verification development for Oxigraph\<close>, an RDF graph database and toolkit in Rust. It covers the
  Datalog engine (\<open>lib/oxdatalog\<close>), the RDF terms and the in-memory dataset the engine runs over
  (\<open>lib/oxrdf\<close>), and the XML Schema integers, booleans and decimals (\<open>lib/oxsdatatypes\<close>). Paths are
  relative to \<open>src/\<close>.

  \<^bold>\<open>How the parts interact.\<close> A Datalog program is validated and stratified, then evaluated stratum by stratum over
  numbered facts, under limits on facts, rows, iterations, memory and time. Over RDF, the quads of a dataset
  become facts, a program whose predicates are all fixed is compiled to one relation per predicate, and the
  derived facts become the inferred quads of a closure. A dataset stores interned quads in six orderings.
  The XML Schema types stand beside these parts and share only the prelude and the printing of numerals.

  \<^bold>\<open>Conventions.\<close> A struct is a \<open>record\<close>, an enum a \<open>datatype\<close>, a string the list of its UTF-8 bytes. \<open>usize\<close> is
  \<open>nat\<close> with the saturating operations written out; the signed integers of the XML Schema types are \<open>int\<close> with
  the range test \<open>fits\<close>. A \<open>BTreeMap\<close> or \<open>BTreeSet\<close> is a sorted list, a \<open>HashMap\<close> an association list. Fallible
  code is a function from a state to an error or a value and a new state (\<open>fallible\<close>, in \<open>Prelude\<close>), with
  the judgement \<open>runs m E Q\<close>: every error satisfies \<open>E\<close>, every value \<open>Q\<close>.

  \<^bold>\<open>Theories of the Datalog engine.\<close>
  \<^item> \<open>Datalog_IR\<close>: \<open>ir.rs\<close>. Identifiers, values, atoms, facts, rules; canonical keys and when they agree.
  \<^item> \<open>Datalog_Strata\<close>: \<open>validate.rs\<close> (dependency graph) and \<open>validate/strata.rs\<close>. \<open>compute_strata\<close> returns the least
    levels, or an error exactly when there are none.
  \<^item> \<open>Datalog_Validate\<close>: \<open>validate.rs\<close>. Validation decides the predicate \<open>program_valid\<close>.
  \<^item> \<open>Datalog_Control\<close>: \<open>engine.rs\<close> (options, errors, tokens) and \<open>engine/control.rs\<close> (the execution guard).
  \<^item> \<open>Datalog_Interner\<close>, \<open>Datalog_Relations\<close>: \<open>engine/storage.rs\<close>. Numbering of values, generated blank nodes,
    indexed relations; an index scan is a filter, a store is a set of keys.
  \<^item> \<open>Datalog_Provenance\<close>: \<open>provenance.rs\<close>. \<open>Datalog_Rules\<close>: \<open>engine/rules.rs\<close>. \<open>Datalog_Engine\<close>:
    \<open>engine/strata.rs\<close> and the entry points of \<open>engine.rs\<close>.
  \<^item> \<open>Datalog_Semantics\<close>: the specification, the iterated least model of the strata. \<open>Datalog_Join\<close>,
    \<open>Datalog_Derive\<close>, \<open>Datalog_Correct\<close> and \<open>Datalog_Evaluate\<close> show that the engine computes it: joins, candidates,
    rounds and strata, entry points with errors, limits, provenance and termination. \<open>Datalog_Models\<close>: the model
    does not depend on the stratification.
  \<^item> \<open>Datalog_Rdf\<close>: \<open>rdf.rs\<close>. \<open>Datalog_Rdf_Correct\<close>: quads and facts correspond, the compiled program has the
    quads of the original one, the closure is the model, and an evaluation is stuck only on a hash collision.

  \<^bold>\<open>Theories of the RDF data model.\<close>
  \<^item> \<open>Rdf_Terms\<close>: the term types and their display, from \<open>named_node.rs\<close>, \<open>blank_node.rs\<close>, \<open>literal.rs\<close> and
    \<open>triple.rs\<close>. \<open>Rdf_Literals\<close>: construction of literals, and the well-formed terms.
  \<^item> \<open>Rdf_Interning\<close>, \<open>Rdf_Interner\<close>: \<open>interning.rs\<close>. Interned terms with their order and range bounds; encoding
    and decoding are inverse when no two strings involved have the same hash.
  \<^item> \<open>Rdf_Dataset\<close>: \<open>dataset.rs\<close>. \<open>Rdf_Dataset_Correct\<close>, \<open>Rdf_Dataset_Laws\<close>: the six orderings agree, updates
    refine set operations, queries are filters.

  \<^bold>\<open>Theories of the XML Schema types.\<close>
  \<^item> \<open>Xsd_Integer\<close>: \<open>integer.rs\<close> and \<open>boolean.rs\<close>, with the text and byte encodings of machine integers.
  \<^item> \<open>Xsd_Decimal\<close>: \<open>decimal.rs\<close>. \<open>Xsd_Decimal_Correct\<close>: exactly when products and quotients are computed and what
    they are, floor, ceiling and rounding, and that a printed decimal is read back.

  \<^bold>\<open>Interfaces.\<close> The locales \<open>keyed_map\<close> (the two map representations), \<open>level_rounds\<close> (relaxation of
  levels), \<open>key_set\<close> (stores and sorted sets), \<open>column_index\<close> (the four columns of the dataset) and
  \<open>element_store\<close> (quads and named graphs of a dataset) are interpreted on the definitions of the model.

  \<^bold>\<open>Parameters.\<close> SHA-256, the clock, cancellation requests of other threads and the sizes of Rust types are fields
  of \<open>Config\<close>; the random hasher of a dataset is a field of its interner. Nothing is assumed of SHA-256. Where a
  dataset theorem needs it, \<open>distinguishes h S\<close> says that the hasher separates the strings in \<open>S\<close>; \<open>length_hash\<close> is
  an instance on which the witnesses evaluate.

  \<^bold>\<open>Bounds and fuel.\<close>
  \<^item> The \<open>while\<close> loop of a stratum has one pass more than the iterations left; a round fails when none is left, so the
    bound is never reached (\<open>evaluate_ends\<close>).
  \<^item> The search for an unused blank node label tries one label more than there are values, and finds one.
  \<^item> The probe loop of \<open>get\<close> has one slot more than there are entries, which reaches an empty slot or the string as long as
    there are fewer entries than slots (\<open>get_loop_ends\<close>). The inner loop of \<open>get_or_intern\<close> is a \<open>partial_function\<close>, since it may not end (\<open>intern_collision_diverges\<close>).
  \<^item> The theorems about programs assume fewer than \<open>2 ^ 32\<close> relations (or atoms, which bound them): a level grows by at
    most one for each relation in each round, so the levels then stay below the largest \<open>usize\<close>, where the
    \<open>saturating_add\<close> of \<open>closed_stratum\<close> would stop them.
  \<^item> The loops over decimals are recursive functions with termination proofs and need no bound.

  \<^bold>\<open>Not modelled.\<close>
  \<^item> Within the crates covered: the views of one graph and the canonicalisation of \<open>oxrdf\<close>, its graphs, variables and
    term parser; floating point numbers and every conversion from or to them, as there is no model of IEEE 754
    among the library theories used; dates and durations; borrowed variants of types, which have the model of
    the owned type; formatter flags other than the width and precision of decimals.
  \<^item> Not covered yet, although it is ordinary code: the Turtle family of formats, SPARQL (algebra, parser,
    optimiser, evaluation, results), RDFS, OWL and SHACL, and reasoning at the level of the store.
  \<^item> Out of reach of such a model: storage over RocksDB, HTTP, the command line, the JavaScript and Python bindings,
    the memory layout of \<open>oxstr\<close>, and the formats that rest on XML and JSON libraries.
\<close>

end
